(* ===== verification/Prelude.thy ===== *)
theory Prelude
  imports Complex_Main "HOL-Library.AList" "HOL-Library.Sublist" "HOL-Library.Word"
begin

text \<open>
  What every component theory shares: the Go clock, Go maps, the few functions of Go's
  \<^verbatim>\<open>strings\<close> package the sources call, and the collections of lemmas the component
  proofs rewrite with.

  \<^item> A \<^verbatim>\<open>time.Time\<close> is the integer number of nanoseconds since Go's zero time, so that
    \<^verbatim>\<open>t.IsZero()\<close> is \<open>t = 0\<close>; a \<^verbatim>\<open>time.Duration\<close> is an integer number of
    nanoseconds. \<^verbatim>\<open>t.Sub(u)\<close> saturates at the ends of the signed 64-bit range, as Go's
    does (\<open>time_sub\<close>). Every operation that reads the clock takes the instant it read.
  \<^item> A Go map is an association list (\<open>gomap\<close>): its order stands for one of the
    iteration orders Go may choose, its keys are distinct (\<open>gomap_ok\<close>), and a
    nested map that is absent reads as the empty one, as a nil map does.
  \<^item> A Go string is a list of bytes (\<open>string\<close>). Letter case is folded on ASCII only,
    which is all the host names, owner addresses and type names of the sources contain.
  \<^item> A \<^verbatim>\<open>float64\<close> is a \<open>real\<close>: rounding is not modelled.
\<close>

named_theorems gomap_simps "lookups in a Go map after an update, a deletion or a filter"
named_theorems time_simps "comparisons of instants and durations"

section \<open>Time\<close>

type_synonym time = int
type_synonym duration = int

abbreviation millisecond :: duration where "millisecond \<equiv> 1000000"
abbreviation second :: duration where "second \<equiv> 1000000000"
abbreviation minute :: duration where "minute \<equiv> 60000000000"
abbreviation hour :: duration where "hour \<equiv> 3600000000000"

definition min_duration :: duration where
  "min_duration = - 9223372036854775808"

definition max_duration :: duration where
  "max_duration = 9223372036854775807"

definition time_sub :: "time \<Rightarrow> time \<Rightarrow> duration" where
  "time_sub t u = max min_duration (min max_duration (t - u))"

text \<open>Integer division of the source truncates towards zero.\<close>

definition go_div :: "int \<Rightarrow> int \<Rightarrow> int" where
  "go_div a b = (if (a < 0) = (b < 0) then \<bar>a\<bar> div \<bar>b\<bar> else - (\<bar>a\<bar> div \<bar>b\<bar>))"

lemma go_div_nonneg [simp]: "0 \<le> a \<Longrightarrow> 0 < b \<Longrightarrow> go_div a b = a div b"
  by (simp add: go_div_def)

definition unix_epoch :: int where
  "unix_epoch = 62135596800"

definition time_unix :: "int \<Rightarrow> time" where
  "time_unix s = (s + unix_epoch) * second"

definition unix_of :: "time \<Rightarrow> int" where
  "unix_of t = t div second - unix_epoch"

definition seconds_of :: "duration \<Rightarrow> real" where
  "seconds_of d = real_of_int d / 1000000000"

lemma time_sub_less [time_simps]:
  "min_duration < d \<Longrightarrow> d \<le> max_duration \<Longrightarrow> time_sub t u < d \<longleftrightarrow> t - u < d"
  by (auto simp: time_sub_def)

lemma time_sub_le [time_simps]:
  "min_duration \<le> d \<Longrightarrow> d < max_duration \<Longrightarrow> time_sub t u \<le> d \<longleftrightarrow> t - u \<le> d"
  by (auto simp: time_sub_def)

lemma time_sub_gr [time_simps]:
  "min_duration \<le> d \<Longrightarrow> d < max_duration \<Longrightarrow> d < time_sub t u \<longleftrightarrow> d < t - u"
  by (auto simp: time_sub_def)

lemma time_sub_mono: "t \<le> t' \<Longrightarrow> time_sub t u \<le> time_sub t' u"
  by (auto simp: time_sub_def)

lemma time_sub_self [simp]: "time_sub t t = 0"
  by (simp add: time_sub_def min_duration_def max_duration_def)

lemma time_sub_nonneg: "u \<le> t \<Longrightarrow> 0 \<le> time_sub t u"
  by (simp add: time_sub_def max_duration_def)

lemma unix_of_time_unix [simp]: "unix_of (time_unix s) = s"
  by (simp add: unix_of_def time_unix_def)

lemma time_unix_of_le: "time_unix (unix_of t) \<le> t"
proof -
  have "t div second * second \<le> t"
    using div_mult_mod_eq [of t second] pos_mod_sign [of second t] by linarith
  then show ?thesis by (simp add: unix_of_def time_unix_def)
qed

lemma unix_of_mono: "t \<le> u \<Longrightarrow> unix_of t \<le> unix_of u"
  by (simp add: unix_of_def zdiv_mono1)

section \<open>Go maps\<close>

type_synonym ('k, 'v) gomap = "('k \<times> 'v) list"

definition gomap_ok :: "('k, 'v) gomap \<Rightarrow> bool" where
  "gomap_ok m \<longleftrightarrow> distinct (map fst m)"

text \<open>An absent inner map (or slice) is read as an empty one.\<close>

definition inner :: "('a, 'e list) gomap \<Rightarrow> 'a \<Rightarrow> 'e list" where
  "inner m a = (case map_of m a of None \<Rightarrow> [] | Some n \<Rightarrow> n)"

definition get2 :: "('a, ('b, 'v) gomap) gomap \<Rightarrow> 'a \<Rightarrow> 'b \<Rightarrow> 'v option" where
  "get2 m a b = map_of (inner m a) b"

definition put2 :: "('a, ('b, 'v) gomap) gomap \<Rightarrow> 'a \<Rightarrow> 'b \<Rightarrow> 'v \<Rightarrow> ('a, ('b, 'v) gomap) gomap" where
  "put2 m a b v = AList.update a (AList.update b v (inner m a)) m"

definition keep_entries :: "('k \<Rightarrow> 'v \<Rightarrow> bool) \<Rightarrow> ('k, 'v) gomap \<Rightarrow> ('k, 'v) gomap" where
  "keep_entries P m = filter (\<lambda>(k, v). P k v) m"

lemma map_of_update [gomap_simps]:
  "map_of (AList.update k v m) j = (if j = k then Some v else map_of m j)"
  by (simp add: AList.update_conv')

lemma map_of_delete [gomap_simps]:
  "map_of (AList.delete k m) j = (if j = k then None else map_of m j)"
  by (simp add: AList.delete_conv')

lemma inner_update [gomap_simps]:
  "inner (AList.update a n m) b = (if b = a then n else inner m b)"
  by (simp add: inner_def gomap_simps)

lemma inner_delete [gomap_simps]:
  "inner (AList.delete a m) b = (if b = a then [] else inner m b)"
  by (simp add: inner_def gomap_simps)

lemma inner_Nil [simp]: "inner [] a = []"
  by (simp add: inner_def)

lemma get2_Nil [simp]: "get2 [] a b = None"
  by (simp add: get2_def)

lemma get2_put2 [gomap_simps]:
  "get2 (put2 m a b v) c d = (if c = a \<and> d = b then Some v else get2 m c d)"
  by (simp add: get2_def put2_def gomap_simps)

lemma get2_delete [gomap_simps]:
  "get2 (AList.delete a m) c d = (if c = a then None else get2 m c d)"
  by (simp add: get2_def gomap_simps)

lemma get2_update [gomap_simps]:
  "get2 (AList.update a n m) c d = (if c = a then map_of n d else get2 m c d)"
  by (simp add: get2_def gomap_simps)

lemma map_of_notin: "k \<notin> fst ` set m \<Longrightarrow> map_of m k = None"
  by (simp add: map_of_eq_None_iff)

lemma map_of_keep_entries [gomap_simps]:
  "gomap_ok m \<Longrightarrow> map_of (keep_entries P m) k =
     (case map_of m k of None \<Rightarrow> None | Some v \<Rightarrow> if P k v then Some v else None)"
proof (induction m)
  case Nil
  then show ?case by (simp add: keep_entries_def)
next
  case (Cons kv m)
  obtain j v where kv: "kv = (j, v)" by (cases kv)
  from Cons.prems have ok: "gomap_ok m" and j: "j \<notin> fst ` set m"
    by (auto simp: gomap_ok_def kv)
  from Cons.IH [OF ok] j map_of_notin [OF j] show ?case
    by (auto simp: keep_entries_def kv split: option.splits)
qed

lemma set_keep_entries [simp]: "(k, v) \<in> set (keep_entries P m) \<longleftrightarrow> (k, v) \<in> set m \<and> P k v"
  by (auto simp: keep_entries_def)

lemma length_keep_entries: "length (keep_entries P m) \<le> length m"
  by (simp add: keep_entries_def)

lemma gomap_ok_Nil [simp]: "gomap_ok []"
  by (simp add: gomap_ok_def)

lemma gomap_ok_update [simp, intro]: "gomap_ok m \<Longrightarrow> gomap_ok (AList.update k v m)"
  unfolding gomap_ok_def by (rule AList.distinct_update)

lemma gomap_ok_delete [simp, intro]: "gomap_ok m \<Longrightarrow> gomap_ok (AList.delete k m)"
  unfolding gomap_ok_def by (rule AList.distinct_delete)

lemma gomap_ok_keep_entries [simp, intro]: "gomap_ok m \<Longrightarrow> gomap_ok (keep_entries P m)"
  unfolding gomap_ok_def keep_entries_def by (rule distinct_map_filter)

lemma gomap_in_set: "gomap_ok m \<Longrightarrow> (k, v) \<in> set m \<longleftrightarrow> map_of m k = Some v"
  unfolding gomap_ok_def by (metis map_of_eq_Some_iff)

lemma length_update:
  "length (AList.update k v m) = (if k \<in> fst ` set m then length m else Suc (length m))"
  by (induction m) auto

lemma set_update_subset: "set (AList.update k v m) \<subseteq> insert (k, v) (set m)"
  by (induction m) auto

lemma length_delete_le: "length (AList.delete k m) \<le> length m"
  by (simp add: AList.delete_eq)

lemma gomap_ok_Cons: "gomap_ok ((k, v) # m) \<longleftrightarrow> k \<notin> fst ` set m \<and> gomap_ok m"
  by (auto simp: gomap_ok_def)

lemma sum_update:
  fixes f :: "'v \<Rightarrow> nat"
  shows "gomap_ok m \<Longrightarrow>
    sum_list (map (\<lambda>(_, w). f w) (AList.update k v m)) + (case map_of m k of None \<Rightarrow> 0 | Some w \<Rightarrow> f w) =
    sum_list (map (\<lambda>(_, w). f w) m) + f v"
proof (induction m)
  case (Cons jw m)
  obtain j w where jw: "jw = (j, w)" by (cases jw)
  with Cons show ?case by (auto simp: gomap_ok_Cons split: option.splits)
qed simp

lemma keep_entries_all: "(\<And>k v. (k, v) \<in> set m \<Longrightarrow> P k v) \<Longrightarrow> keep_entries P m = m"
  by (auto simp: keep_entries_def filter_id_conv)

lemma map_of_map_snd:
  "map_of (map (\<lambda>(k, v). (k, f k v)) m) k = map_option (f k) (map_of m k)"
  by (induction m) auto

lemma length_filter_gomap:
  assumes "gomap_ok m"
  shows "length (filter (\<lambda>(_, v). P v) m) = card {k. \<exists>v. map_of m k = Some v \<and> P v}"
proof -
  have "distinct (map fst (filter (\<lambda>(_, v). P v) m))"
    using assms by (simp add: gomap_ok_def distinct_map_filter)
  moreover have "set (map fst (filter (\<lambda>(_, v). P v) m)) = {k. \<exists>v. map_of m k = Some v \<and> P v}"
    using gomap_in_set [OF assms] by force
  ultimately show ?thesis by (metis distinct_card length_map)
qed

lemma finite_gomap: "finite {k. \<exists>v. map_of m k = Some v \<and> P k v}"
  by (rule finite_subset [OF _ finite_dom_map_of [of m]]) auto

lemma gomap_ok_map_snd: "gomap_ok (map (\<lambda>(k, v). (k, f k v)) m) = gomap_ok m"
  by (simp add: gomap_ok_def case_prod_beta comp_def)

section \<open>Strings\<close>

text \<open>\<^verbatim>\<open>strings.Cut\<close> on a one-byte separator: before, after, found.\<close>

definition str_cut :: "char \<Rightarrow> string \<Rightarrow> string \<times> string \<times> bool" where
  "str_cut c s =
     (case dropWhile (\<lambda>x. x \<noteq> c) s of
        [] \<Rightarrow> (s, [], False)
      | _ # rest \<Rightarrow> (takeWhile (\<lambda>x. x \<noteq> c) s, rest, True))"

text \<open>What follows the first occurrence of a substring, when there is one
  (\<^verbatim>\<open>strings.Index\<close> and the slice after it).\<close>

fun str_after :: "string \<Rightarrow> string \<Rightarrow> string option" where
  "str_after sub [] = (if sub = [] then Some [] else None)"
| "str_after sub (c # cs) =
     (if prefix sub (c # cs) then Some (drop (length sub) (c # cs)) else str_after sub cs)"

text \<open>What precedes the last occurrence of a byte, when there is one
  (\<^verbatim>\<open>strings.LastIndexByte\<close> and the slice before it).\<close>

definition str_before_last :: "char \<Rightarrow> string \<Rightarrow> string option" where
  "str_before_last c s =
     (case dropWhile (\<lambda>x. x \<noteq> c) (rev s) of [] \<Rightarrow> None | _ # pre \<Rightarrow> Some (rev pre))"

definition str_after_last :: "char \<Rightarrow> string \<Rightarrow> string option" where
  "str_after_last c s = (if c \<in> set s then Some (rev (takeWhile (\<lambda>x. x \<noteq> c) (rev s))) else None)"

text \<open>\<^verbatim>\<open>strings.Split\<close> on a one-byte separator.\<close>

fun str_split :: "char \<Rightarrow> string \<Rightarrow> string list" where
  "str_split c [] = [[]]"
| "str_split c (x # xs) =
     (if x = c then [] # str_split c xs
      else case str_split c xs of [] \<Rightarrow> [[x]] | y # ys \<Rightarrow> (x # y) # ys)"

definition to_lower_char :: "char \<Rightarrow> char" where
  "to_lower_char c =
     (let n = of_char c :: nat in if 65 \<le> n \<and> n \<le> 90 then char_of (n + 32) else c)"

definition to_lower :: "string \<Rightarrow> string" where
  "to_lower s = map to_lower_char s"

definition equal_fold :: "string \<Rightarrow> string \<Rightarrow> bool" where
  "equal_fold s t \<longleftrightarrow> to_lower s = to_lower t"

lemma takeWhile_neq_id: "c \<notin> set s \<Longrightarrow> takeWhile (\<lambda>x. x \<noteq> c) s = s"
  by (induction s) auto

lemma dropWhile_neq_Nil: "c \<notin> set s \<Longrightarrow> dropWhile (\<lambda>x. x \<noteq> c) s = []"
  by (induction s) auto

lemma takeWhile_neq_append: "c \<notin> set s \<Longrightarrow> takeWhile (\<lambda>x. x \<noteq> c) (s @ c # t) = s"
  by (induction s) auto

lemma dropWhile_neq_append: "c \<notin> set s \<Longrightarrow> dropWhile (\<lambda>x. x \<noteq> c) (s @ c # t) = c # t"
  by (induction s) auto

lemmas split_at_simps = takeWhile_neq_id dropWhile_neq_Nil takeWhile_neq_append dropWhile_neq_append

lemma str_cut_found:
  "c \<notin> set s \<Longrightarrow> str_cut c (s @ c # t) = (s, t, True)"
  by (simp add: str_cut_def split_at_simps del: takeWhile_append dropWhile_append)

lemma str_cut_absent:
  "c \<notin> set s \<Longrightarrow> str_cut c s = (s, [], False)"
  by (simp add: str_cut_def split_at_simps)

lemma str_before_last_found:
  "c \<notin> set t \<Longrightarrow> str_before_last c (s @ c # t) = Some s"
  by (simp add: str_before_last_def split_at_simps del: takeWhile_append dropWhile_append)

lemma str_after_last_found:
  "c \<notin> set t \<Longrightarrow> str_after_last c (s @ c # t) = Some t"
  by (simp add: str_after_last_def split_at_simps del: takeWhile_append dropWhile_append)

lemma str_split_none: "c \<notin> set s \<Longrightarrow> str_split c s = [s]"
  by (induction s) auto

lemma str_split_append: "c \<notin> set s \<Longrightarrow> str_split c (s @ c # t) = s # str_split c t"
  by (induction s) auto

lemma to_lower_char_idem [simp]: "to_lower_char (to_lower_char c) = to_lower_char c"
proof -
  define n where "n = (of_char c :: nat)"
  have "65 \<le> n \<Longrightarrow> n \<le> 90 \<Longrightarrow> of_char (char_of (n + 32) :: char) = n + 32"
    by simp
  then show ?thesis by (auto simp: to_lower_char_def Let_def n_def [symmetric])
qed

lemma to_lower_idem [simp]: "to_lower (to_lower s) = to_lower s"
  by (simp add: to_lower_def)

lemma equal_fold_refl [simp]: "equal_fold s s"
  by (simp add: equal_fold_def)

lemma equal_fold_sym: "equal_fold s t \<Longrightarrow> equal_fold t s"
  by (simp add: equal_fold_def)

lemma equal_fold_lower [simp]: "equal_fold (to_lower s) t = equal_fold s t"
  by (simp add: equal_fold_def)

section \<open>Lists\<close>

text \<open>The first element of a non-empty list that satisfies nothing in particular is in the
  list; a filter that keeps something keeps it in order.\<close>

lemma filter_nonempty_iff: "filter P xs \<noteq> [] \<longleftrightarrow> (\<exists>x \<in> set xs. P x)"
  by (auto simp: filter_empty_conv)

lemma length_filter_mono: "(\<And>x. x \<in> set xs \<Longrightarrow> P x \<Longrightarrow> Q x) \<Longrightarrow> length (filter P xs) \<le> length (filter Q xs)"
  by (induction xs) (auto simp: le_SucI)

lemma find_SomeD: "find P xs = Some x \<Longrightarrow> x \<in> set xs \<and> P x"
  by (induction xs) (auto split: if_splits)

lemma set_map_filter: "set (List.map_filter f xs) = {y. \<exists>x \<in> set xs. f x = Some y}"
  by (induction xs) (auto simp: List.map_filter_def split: option.splits)

lemma sum_list_map_filter_le:
  fixes f :: "'a \<Rightarrow> real"
  assumes "\<And>x. x \<in> set xs \<Longrightarrow> 0 \<le> f x"
  shows "sum_list (map f (filter P xs)) \<le> sum_list (map f xs)"
  using assms by (induction xs) (auto simp: add_increasing)

end
