(* ===== verification/Interfaces.thy ===== *)
theory Interfaces
  imports Prelude
begin

text \<open>
  The contracts that several components of the gateway share, stated once as locales and
  interpreted on the definitions of each component that promises them.

  \<^item> \<open>soft_filter\<close>: a step of endpoint selection that narrows a candidate list. It
    never invents a candidate and never leaves a non-empty list empty: a preference, not a
    reason to have nowhere to send. Owner diversity, circuit breaking and method blocks are
    soft filters, and so is any sequence of them.
  \<^item> \<open>expiring\<close>: an exclusion that lapses on its own (a circuit break, a method block,
    a drain, a remembered observation): with no write in between, what is not in force now
    is not in force later.
\<close>

section \<open>Narrowing without emptying\<close>

locale soft_filter =
  fixes narrow :: "'a list \<Rightarrow> 'a list"
  assumes narrow_subset: "set (narrow xs) \<subseteq> set xs"
    and narrow_nonempty: "xs \<noteq> [] \<Longrightarrow> narrow xs \<noteq> []"
begin

lemma narrow_Nil: "narrow [] = []"
  using narrow_subset [of "[]"] by simp

lemma narrow_eq_Nil: "narrow xs = [] \<longleftrightarrow> xs = []"
  using narrow_nonempty narrow_Nil by blast

lemma narrow_single: "set (narrow [x]) = {x}"
  using narrow_subset [of "[x]"] narrow_nonempty [of "[x]"] by (cases "narrow [x]") auto

lemma narrow_hd_in: "xs \<noteq> [] \<Longrightarrow> hd (narrow xs) \<in> set xs"
  using narrow_subset [of xs] narrow_nonempty [of xs] hd_in_set by blast

end

locale soft_filter_pair = fst_f: soft_filter f + snd_f: soft_filter g
  for f :: "'a list \<Rightarrow> 'a list" and g :: "'a list \<Rightarrow> 'a list"

sublocale soft_filter_pair \<subseteq> both: soft_filter "\<lambda>xs. g (f xs)"
proof unfold_locales
  fix xs :: "'a list"
  show "set (g (f xs)) \<subseteq> set xs"
    using fst_f.narrow_subset snd_f.narrow_subset by blast
  show "xs \<noteq> [] \<Longrightarrow> g (f xs) \<noteq> []"
    using fst_f.narrow_nonempty snd_f.narrow_nonempty by blast
qed

text \<open>The shape most of them have: filter, and keep the whole list when nothing passes.\<close>

definition fail_open :: "('a \<Rightarrow> bool) \<Rightarrow> 'a list \<Rightarrow> 'a list" where
  "fail_open P xs = (if filter P xs = [] then xs else filter P xs)"

interpretation fail_open: soft_filter "fail_open P" for P
  by unfold_locales (auto simp: fail_open_def)

lemma fail_open_all:
  "\<exists>x \<in> set xs. P x \<Longrightarrow> set (fail_open P xs) = {x \<in> set xs. P x}"
  by (auto simp: fail_open_def filter_empty_conv)

lemma fail_open_none:
  "\<forall>x \<in> set xs. \<not> P x \<Longrightarrow> fail_open P xs = xs"
  by (simp add: fail_open_def filter_empty_conv)

section \<open>Exclusions that expire\<close>

locale expiring =
  fixes live :: "'s \<Rightarrow> time \<Rightarrow> 'k \<Rightarrow> bool"
  assumes lapses: "\<not> live s t k \<Longrightarrow> t \<le> t' \<Longrightarrow> \<not> live s t' k"
begin

lemma live_earlier: "live s t' k \<Longrightarrow> t \<le> t' \<Longrightarrow> live s t k"
  using lapses by blast

text \<open>The candidates an exclusion lets through only grow while nothing is written.\<close>

lemma open_grows:
  "t \<le> t' \<Longrightarrow> set (filter (\<lambda>k. \<not> live s t k) ks) \<subseteq> set (filter (\<lambda>k. \<not> live s t' k) ks)"
  using lapses by auto

text \<open>A filter over an expiring exclusion that fails open is a soft filter whose result,
  once it stops failing open, only grows.\<close>

lemma fail_open_live_grows:
  assumes "t \<le> t'" and "\<exists>k \<in> set ks. \<not> live s t k"
  shows "set (fail_open (\<lambda>k. \<not> live s t k) ks) \<subseteq> set (fail_open (\<lambda>k. \<not> live s t' k) ks)"
proof -
  have "\<exists>k \<in> set ks. \<not> live s t' k" using assms lapses by blast
  then show ?thesis using assms lapses by (auto simp: fail_open_all)
qed

end

end
