(* ===== verification/Circuit_Breaker.thy ===== *)
theory Circuit_Breaker
  imports Interfaces
begin

text \<open>
  The domain-level circuit breaker (\<^verbatim>\<open>circuitbreaker/breaker.go\<close>): a failure-rate gate
  in front of a table of broken domains whose expiry escalates per episode, reconciled with
  what other replicas wrote to Redis.

  The outcome hook and the Redis client are the traces of the calls made to them
  (\<open>None\<close> when they are not set). Decoding a Redis value is the parameter
  \<open>unmarshal\<close>; whether a write reached Redis is the argument \<open>io\<close>. The two mutexes
  make each operation atomic on the part of the state it touches, so an operation is a
  function on the whole state; the refresh that \<open>maybeRefreshFromRedis\<close> starts in the
  background is the separate step \<open>mergeRedisEntries\<close>.
\<close>

section \<open>State and operations\<close>

definition defaultCacheTTL :: duration where "defaultCacheTTL = 5 * second"
definition defaultMinTTL :: duration where "defaultMinTTL = minute"
definition defaultMaxTTL :: duration where "defaultMaxTTL = 30 * minute"
definition defaultFailureWindow :: duration where "defaultFailureWindow = 30 * second"
definition defaultMinFailures :: int where "defaultMinFailures = 5"
definition defaultFailureRateThreshold :: real where "defaultFailureRateThreshold = 0.20"
definition defaultEscalationMemory :: duration where "defaultEscalationMemory = 60 * minute"
definition defaultRebreakMargin :: real where "defaultRebreakMargin = 0.15"

lemmas breaker_defaults = defaultCacheTTL_def defaultMinTTL_def defaultMaxTTL_def
  defaultFailureWindow_def defaultMinFailures_def defaultFailureRateThreshold_def
  defaultEscalationMemory_def defaultRebreakMargin_def

record BrokenState =
  Expiry :: time
  HitCount :: int
  Reason :: string

definition IsExpired :: "BrokenState \<Rightarrow> time \<Rightarrow> bool" where
  "IsExpired b now \<longleftrightarrow> now > Expiry b"

record outcomeWindow =
  windowStart :: time
  failures :: int
  successes :: int
  lastEpisodeAt :: time
  lastHitCount :: int

datatype outcome = OutcomeSuccess | OutcomeFailure

datatype redis_cmd =
    HSet string string BrokenState
  | Expire string duration
  | Del string

record breaker =
  broken :: "(string, (string, BrokenState) gomap) gomap"
  brokenLocally :: "(string, (string, time) gomap) gomap"
  redis :: "redis_cmd list option"
  keyPrefix :: string
  cacheTTL :: duration
  lastRefresh :: "(string, time) gomap"
  failureWindow :: duration
  minFailures :: int
  failureRateThreshold :: real
  rebreakMargin :: real
  escalationMemory :: duration
  stats :: "(string, (string, outcomeWindow) gomap) gomap"
  onOutcome :: "(string \<times> string \<times> outcome) list option"

definition New_breaker :: "(breaker \<Rightarrow> breaker) list \<Rightarrow> breaker" where
  "New_breaker opts = foldl (\<lambda>b opt. opt b)
     \<lparr>broken = [], brokenLocally = [], redis = None, keyPrefix = ''sage:circuit:'',
      cacheTTL = defaultCacheTTL, lastRefresh = [], failureWindow = defaultFailureWindow,
      minFailures = defaultMinFailures, failureRateThreshold = defaultFailureRateThreshold,
      rebreakMargin = defaultRebreakMargin, escalationMemory = defaultEscalationMemory,
      stats = [], onOutcome = None\<rparr> opts"

definition WithRedis :: "breaker \<Rightarrow> breaker" where
  "WithRedis b = b\<lparr>redis := Some []\<rparr>"

definition WithKeyPrefix :: "string \<Rightarrow> breaker \<Rightarrow> breaker" where
  "WithKeyPrefix pfx b = b\<lparr>keyPrefix := pfx\<rparr>"

definition WithFailureRateGate :: "duration \<Rightarrow> int \<Rightarrow> real \<Rightarrow> breaker \<Rightarrow> breaker" where
  "WithFailureRateGate window minF threshold b =
     b\<lparr>failureWindow := window, minFailures := minF, failureRateThreshold := threshold\<rparr>"

definition SetOutcomeHook :: "breaker \<Rightarrow> breaker" where
  "SetOutcomeHook b = b\<lparr>onOutcome := Some []\<rparr>"

definition report_outcome :: "breaker \<Rightarrow> string \<Rightarrow> string \<Rightarrow> outcome \<Rightarrow> breaker" where
  "report_outcome b serviceID domain oc =
     b\<lparr>onOutcome := map_option (\<lambda>calls. calls @ [(serviceID, domain, oc)]) (onOutcome b)\<rparr>"

text \<open>The window of a domain, created or rolled over; the caller stores what it makes of it.\<close>

definition windowLocked :: "breaker \<Rightarrow> string \<Rightarrow> string \<Rightarrow> time \<Rightarrow> outcomeWindow" where
  "windowLocked b serviceID domain now =
     (case get2 (stats b) serviceID domain of
        None \<Rightarrow> \<lparr>windowStart = now, failures = 0, successes = 0, lastEpisodeAt = 0, lastHitCount = 0\<rparr>
      | Some w \<Rightarrow>
          if time_sub now (windowStart w) > failureWindow b
          then w\<lparr>windowStart := now, failures := 0, successes := 0\<rparr> else w)"

definition store_window :: "breaker \<Rightarrow> string \<Rightarrow> string \<Rightarrow> outcomeWindow \<Rightarrow> breaker" where
  "store_window b serviceID domain w = b\<lparr>stats := put2 (stats b) serviceID domain w\<rparr>"

definition RecordSuccess :: "breaker \<Rightarrow> string \<Rightarrow> string \<Rightarrow> time \<Rightarrow> breaker" where
  "RecordSuccess b serviceID domain now =
     (if domain = [] then b
      else let w = windowLocked b serviceID domain now
           in report_outcome (store_window b serviceID domain (w\<lparr>successes := successes w + 1\<rparr>))
                serviceID domain OutcomeSuccess)"

definition recentlyBroken :: "breaker \<Rightarrow> outcomeWindow \<Rightarrow> time \<Rightarrow> bool" where
  "recentlyBroken b w now \<longleftrightarrow>
     lastEpisodeAt w \<noteq> 0 \<and> time_sub now (lastEpisodeAt w) \<le> escalationMemory b"

definition shouldBreak :: "breaker \<Rightarrow> string \<Rightarrow> string \<Rightarrow> time \<Rightarrow> (bool \<times> int) \<times> breaker" where
  "shouldBreak b serviceID domain now =
     (let w0 = windowLocked b serviceID domain now;
          w = w0\<lparr>failures := failures w0 + 1\<rparr>;
          total = failures w + successes w;
          b' = store_window b serviceID domain w
      in if failures w < minFailures b \<or> total = 0 then ((False, 0), b')
      else
        let recent = recentlyBroken b w now;
            threshold = (if recent then failureRateThreshold b + rebreakMargin b
                         else failureRateThreshold b)
        in if real_of_int (failures w) / real_of_int total < threshold then ((False, 0), b')
        else
          let hitCount = (if recent then lastHitCount w + 1 else 1)
          in ((True, hitCount),
              store_window b serviceID domain
                (w\<lparr>lastEpisodeAt := now, lastHitCount := hitCount,
                   windowStart := now, failures := 0, successes := 0\<rparr>)))"

definition escalateTTL :: "int \<Rightarrow> duration" where
  "escalateTTL hitCount = min (defaultMinTTL * 2 ^ nat (min (max hitCount 0) 5)) defaultMaxTTL"

definition redisKey :: "breaker \<Rightarrow> string \<Rightarrow> string" where
  "redisKey b serviceID = keyPrefix b @ serviceID"

definition persistToRedis :: "bool \<Rightarrow> breaker \<Rightarrow> string \<Rightarrow> string \<Rightarrow> BrokenState \<Rightarrow> breaker" where
  "persistToRedis io b serviceID domain state =
     b\<lparr>redis := map_option (\<lambda>cmds. cmds @ HSet (redisKey b serviceID) domain state #
         (if io then [Expire (redisKey b serviceID) (defaultMaxTTL + minute)] else [])) (redis b)\<rparr>"

definition MarkBroken :: "bool \<Rightarrow> breaker \<Rightarrow> string \<Rightarrow> string \<Rightarrow> string \<Rightarrow> time \<Rightarrow> bool \<times> breaker" where
  "MarkBroken io b serviceID domain reason now =
     (if (case get2 (broken b) serviceID domain of None \<Rightarrow> False | Some ex \<Rightarrow> Expiry ex > now) then (False, b)
      else case shouldBreak b serviceID domain now of ((breakIt, hitCount), b1) \<Rightarrow>
        let b2 = report_outcome b1 serviceID domain OutcomeFailure in
        if \<not> breakIt then (False, b2)
        else
          let ttl = escalateTTL (hitCount - 1);
              state = \<lparr>Expiry = now + ttl, HitCount = hitCount, Reason = reason\<rparr>;
              b3 = b2\<lparr>broken := put2 (broken b2) serviceID domain state,
                      brokenLocally := put2 (brokenLocally b2) serviceID domain now\<rparr>
          in (True, persistToRedis io b3 serviceID domain state))"

definition Clear_breaker :: "breaker \<Rightarrow> string \<Rightarrow> nat \<times> breaker" where
  "Clear_breaker b serviceID =
     (length (inner (broken b) serviceID),
      b\<lparr>broken := AList.delete serviceID (broken b),
        brokenLocally := AList.delete serviceID (brokenLocally b),
        lastRefresh := AList.delete serviceID (lastRefresh b),
        stats := AList.delete serviceID (stats b),
        redis := map_option (\<lambda>cmds. cmds @ [Del (redisKey b serviceID)]) (redis b)\<rparr>)"

text \<open>Whether a refresh was claimed, and the state after claiming it.\<close>

definition maybeRefreshFromRedis :: "breaker \<Rightarrow> string \<Rightarrow> time \<Rightarrow> bool \<times> breaker" where
  "maybeRefreshFromRedis b serviceID now =
     (if redis b = None then (False, b)
      else if (case map_of (lastRefresh b) serviceID of None \<Rightarrow> False
               | Some t \<Rightarrow> time_sub now t < cacheTTL b) then (False, b)
      else (True, b\<lparr>lastRefresh := AList.update serviceID now (lastRefresh b)\<rparr>))"

definition broken_now :: "breaker \<Rightarrow> string \<Rightarrow> string \<Rightarrow> time \<Rightarrow> bool" where
  "broken_now b serviceID domain now =
     (case get2 (broken b) serviceID domain of None \<Rightarrow> False | Some st \<Rightarrow> \<not> IsExpired st now)"

definition IsBroken :: "breaker \<Rightarrow> string \<Rightarrow> string \<Rightarrow> time \<Rightarrow> bool \<times> breaker" where
  "IsBroken b serviceID domain now =
     (case maybeRefreshFromRedis b serviceID now of (_, b') \<Rightarrow> (broken_now b' serviceID domain now, b'))"

definition GetBroken :: "breaker \<Rightarrow> string \<Rightarrow> time \<Rightarrow> (string, BrokenState) gomap \<times> breaker" where
  "GetBroken b serviceID now =
     (case maybeRefreshFromRedis b serviceID now of (_, b') \<Rightarrow>
        (keep_entries (\<lambda>_ st. \<not> now > Expiry st) (inner (broken b') serviceID), b'))"

definition BrokenDomains :: "breaker \<Rightarrow> string \<Rightarrow> time \<Rightarrow> string list" where
  "BrokenDomains b serviceID now = map fst (fst (GetBroken b serviceID now))"

definition drop_unlisted :: "breaker \<Rightarrow> string \<Rightarrow> (string, string) gomap \<Rightarrow> time \<Rightarrow> string \<Rightarrow> bool" where
  "drop_unlisted b serviceID entries now domain \<longleftrightarrow>
     map_of entries domain = None \<and>
     \<not> (case get2 (brokenLocally b) serviceID domain of None \<Rightarrow> False
        | Some t0 \<Rightarrow> time_sub now t0 < cacheTTL b)"

definition merge_entry ::
  "(string \<Rightarrow> BrokenState option) \<Rightarrow> time \<Rightarrow> string \<times> string \<Rightarrow> (string, BrokenState) gomap \<Rightarrow> (string, BrokenState) gomap" where
  "merge_entry unmarshal now e m =
     (case unmarshal (snd e) of
        None \<Rightarrow> m
      | Some state \<Rightarrow>
          if now > Expiry state then m
          else if (case map_of m (fst e) of None \<Rightarrow> True | Some ex \<Rightarrow> Expiry state > Expiry ex)
          then AList.update (fst e) state m else m)"

definition mergeRedisEntries ::
  "(string \<Rightarrow> BrokenState option) \<Rightarrow> breaker \<Rightarrow> string \<Rightarrow> (string, string) gomap \<Rightarrow> time \<Rightarrow> breaker" where
  "mergeRedisEntries unmarshal b serviceID entries now =
     (let bs = inner (broken b) serviceID;
          gone = (\<lambda>d. map_of bs d \<noteq> None \<and> drop_unlisted b serviceID entries now d);
          kept = keep_entries (\<lambda>d _. \<not> gone d) bs;
          locally = (case map_of (brokenLocally b) serviceID of
              None \<Rightarrow> brokenLocally b
            | Some m \<Rightarrow> AList.update serviceID (keep_entries (\<lambda>d _. \<not> gone d) m) (brokenLocally b))
      in b\<lparr>broken := AList.update serviceID (fold (merge_entry unmarshal now) entries kept) (broken b),
           brokenLocally := locally\<rparr>)"

section \<open>The gate\<close>

lemma report_outcome_fields [simp]:
  "broken (report_outcome b s d oc) = broken b"
  "brokenLocally (report_outcome b s d oc) = brokenLocally b"
  "stats (report_outcome b s d oc) = stats b"
  "redis (report_outcome b s d oc) = redis b"
  "cacheTTL (report_outcome b s d oc) = cacheTTL b"
  "keyPrefix (report_outcome b s d oc) = keyPrefix b"
  "minFailures (report_outcome b s d oc) = minFailures b"
  "failureRateThreshold (report_outcome b s d oc) = failureRateThreshold b"
  "rebreakMargin (report_outcome b s d oc) = rebreakMargin b"
  "escalationMemory (report_outcome b s d oc) = escalationMemory b"
  "failureWindow (report_outcome b s d oc) = failureWindow b"
  by (simp_all add: report_outcome_def)

lemma persistToRedis_fields [simp]:
  "broken (persistToRedis io b s d st) = broken b"
  "brokenLocally (persistToRedis io b s d st) = brokenLocally b"
  "stats (persistToRedis io b s d st) = stats b"
  "cacheTTL (persistToRedis io b s d st) = cacheTTL b"
  "minFailures (persistToRedis io b s d st) = minFailures b"
  "failureRateThreshold (persistToRedis io b s d st) = failureRateThreshold b"
  "rebreakMargin (persistToRedis io b s d st) = rebreakMargin b"
  "escalationMemory (persistToRedis io b s d st) = escalationMemory b"
  "failureWindow (persistToRedis io b s d st) = failureWindow b"
  by (simp_all add: persistToRedis_def)

text \<open>What the gate decides on: the counts of the current window with this failure in it.\<close>

definition gate_open :: "breaker \<Rightarrow> string \<Rightarrow> string \<Rightarrow> time \<Rightarrow> bool" where
  "gate_open b s d now \<longleftrightarrow>
     (let w = windowLocked b s d now; f = failures w + 1; n = f + successes w;
          line = failureRateThreshold b + (if recentlyBroken b w now then rebreakMargin b else 0)
      in minFailures b \<le> f \<and> n \<noteq> 0 \<and> line \<le> real_of_int f / real_of_int n)"

definition episode :: "breaker \<Rightarrow> string \<Rightarrow> string \<Rightarrow> time \<Rightarrow> int" where
  "episode b s d now =
     (let w = windowLocked b s d now in if recentlyBroken b w now then lastHitCount w + 1 else 1)"

lemma recentlyBroken_failures [simp]:
  "recentlyBroken b (w\<lparr>failures := n\<rparr>) now = recentlyBroken b w now"
  by (simp add: recentlyBroken_def)

lemma shouldBreak_decision:
  "fst (shouldBreak b s d now) = (if gate_open b s d now then (True, episode b s d now) else (False, 0))"
  by (auto simp: shouldBreak_def gate_open_def episode_def Let_def not_less)

lemma shouldBreak_fields:
  "\<exists>w. snd (shouldBreak b s d now) = store_window b s d w \<and>
     (lastEpisodeAt w, lastHitCount w) =
       (if gate_open b s d now then (now, episode b s d now)
        else (lastEpisodeAt (windowLocked b s d now), lastHitCount (windowLocked b s d now))) \<and>
     (failures w, successes w) =
       (if gate_open b s d now then (0, 0)
        else (failures (windowLocked b s d now) + 1, successes (windowLocked b s d now)))"
  by (auto simp: shouldBreak_def gate_open_def episode_def Let_def not_less)

lemma shouldBreak_frame [simp]:
  "broken (snd (shouldBreak b s d now)) = broken b"
  "brokenLocally (snd (shouldBreak b s d now)) = brokenLocally b"
  "redis (snd (shouldBreak b s d now)) = redis b"
  using shouldBreak_fields [of b s d now] by (auto simp: store_window_def)

definition live_break :: "breaker \<Rightarrow> string \<Rightarrow> string \<Rightarrow> time \<Rightarrow> bool" where
  "live_break b s d now \<longleftrightarrow> (case get2 (broken b) s d of None \<Rightarrow> False | Some ex \<Rightarrow> Expiry ex > now)"

lemma MarkBroken_unfold:
  "MarkBroken io b s d reason now =
     (if live_break b s d now then (False, b)
      else let b2 = report_outcome (snd (shouldBreak b s d now)) s d OutcomeFailure in
        if \<not> gate_open b s d now then (False, b2)
        else
          let state = \<lparr>Expiry = now + escalateTTL (episode b s d now - 1),
                       HitCount = episode b s d now, Reason = reason\<rparr>
          in (True, persistToRedis io
                (b2\<lparr>broken := put2 (broken b2) s d state,
                    brokenLocally := put2 (brokenLocally b2) s d now\<rparr>) s d state))"
proof -
  obtain p b1 where sb: "shouldBreak b s d now = (p, b1)" by (cases "shouldBreak b s d now")
  with shouldBreak_decision [of b s d now]
  have "p = (if gate_open b s d now then (True, episode b s d now) else (False, 0))" by simp
  with sb show ?thesis
    by (simp add: MarkBroken_def live_break_def Let_def split: option.split)
qed

lemma fst_MarkBroken:
  "fst (MarkBroken io b s d reason now) \<longleftrightarrow> \<not> live_break b s d now \<and> gate_open b s d now"
  by (simp add: MarkBroken_unfold Let_def)

lemma broken_MarkBroken:
  "get2 (broken (snd (MarkBroken io b s d reason now))) s' d' =
     (if fst (MarkBroken io b s d reason now) \<and> s' = s \<and> d' = d
      then Some \<lparr>Expiry = now + escalateTTL (episode b s d now - 1),
                 HitCount = episode b s d now, Reason = reason\<rparr>
      else get2 (broken b) s' d')"
  by (simp add: MarkBroken_unfold Let_def gomap_simps)

section \<open>Escalation\<close>

lemma escalateTTL_bounds: "defaultMinTTL \<le> escalateTTL n" "escalateTTL n \<le> defaultMaxTTL"
  by (auto simp: escalateTTL_def breaker_defaults)

lemma nat_pow_mono: "a \<le> b \<Longrightarrow> (2::int) ^ nat a \<le> 2 ^ nat b"
  by (rule power_increasing) auto

lemma escalateTTL_mono: "m \<le> n \<Longrightarrow> escalateTTL m \<le> escalateTTL n"
  unfolding escalateTTL_def breaker_defaults
  by (intro min.mono mult_left_mono nat_pow_mono) auto

lemma escalateTTL_doubles: "0 \<le> n \<Longrightarrow> n < 4 \<Longrightarrow> escalateTTL (n + 1) = 2 * escalateTTL n"
proof -
  assume "0 \<le> n" "n < 4"
  then consider "n = 0" | "n = 1" | "n = 2" | "n = 3" by linarith
  then show ?thesis by cases (simp_all add: escalateTTL_def breaker_defaults)
qed

lemma escalateTTL_cap: "5 \<le> n \<Longrightarrow> escalateTTL n = defaultMaxTTL"
  by (simp add: escalateTTL_def breaker_defaults)

section \<open>Expiry\<close>

lemma broken_now_lapses: "\<not> broken_now b s d t \<Longrightarrow> t \<le> t' \<Longrightarrow> \<not> broken_now b s d t'"
  by (auto simp: broken_now_def IsExpired_def split: option.splits)

interpretation breaks: expiring "\<lambda>b t (sd :: string \<times> string). broken_now b (fst sd) (snd sd) t"
  by unfold_locales (rule broken_now_lapses)

lemma maybeRefresh_broken [simp]:
  "broken (snd (maybeRefreshFromRedis b s now)) = broken b"
  "stats (snd (maybeRefreshFromRedis b s now)) = stats b"
  "brokenLocally (snd (maybeRefreshFromRedis b s now)) = brokenLocally b"
  by (auto simp: maybeRefreshFromRedis_def split: option.splits)

lemma IsBroken_now: "fst (IsBroken b s d now) = broken_now b s d now"
  by (auto simp: IsBroken_def broken_now_def split: prod.splits
      intro: arg_cong) (metis maybeRefresh_broken(1) snd_conv)+

text \<open>The refresh that a read may start is claimed at most once per cache TTL.\<close>

lemma maybeRefresh_once:
  assumes "fst (maybeRefreshFromRedis b s now)" and "time_sub now' now < cacheTTL b"
  shows "\<not> fst (maybeRefreshFromRedis (snd (maybeRefreshFromRedis b s now)) s now')"
  using assms by (auto simp: maybeRefreshFromRedis_def gomap_simps split: if_splits option.splits)

section \<open>Reconciliation with Redis\<close>

lemma map_of_merge_entry:
  "map_of (merge_entry unmarshal now (d, raw) m) d' =
     (if d' \<noteq> d then map_of m d'
      else case unmarshal raw of
        Some st \<Rightarrow> if \<not> now > Expiry st \<and> (case map_of m d of None \<Rightarrow> True | Some ex \<Rightarrow> Expiry st > Expiry ex)
                   then Some st else map_of m d
      | None \<Rightarrow> map_of m d)"
  by (auto simp: merge_entry_def gomap_simps split: option.splits)

lemma gomap_ok_merge_entry [simp]: "gomap_ok m \<Longrightarrow> gomap_ok (merge_entry unmarshal now e m)"
  by (auto simp: merge_entry_def split: option.splits)

lemma gomap_ok_merge_fold: "gomap_ok m \<Longrightarrow> gomap_ok (fold (merge_entry unmarshal now) es m)"
  by (induction es arbitrary: m) auto

lemma map_of_merge_fold:
  "gomap_ok es \<Longrightarrow> map_of (fold (merge_entry unmarshal now) es m) d =
     (case map_of es d of None \<Rightarrow> map_of m d
      | Some raw \<Rightarrow> map_of (merge_entry unmarshal now (d, raw) m) d)"
proof (induction es arbitrary: m)
  case (Cons e es)
  obtain d0 raw0 where e: "e = (d0, raw0)" by (cases e)
  with Cons.prems have ok: "gomap_ok es" and d0: "map_of es d0 = None"
    by (auto simp: gomap_ok_Cons map_of_notin)
  show ?case
    using d0 by (auto simp: e Cons.IH [OF ok] map_of_merge_entry split: option.splits)
qed simp

definition merged_state ::
  "(string \<Rightarrow> BrokenState option) \<Rightarrow> breaker \<Rightarrow> string \<Rightarrow> (string, string) gomap \<Rightarrow> time \<Rightarrow> string \<Rightarrow> BrokenState option" where
  "merged_state unmarshal b s entries now d =
     (let mine = get2 (broken b) s d in
      case map_of entries d of
        None \<Rightarrow> if drop_unlisted b s entries now d then None else mine
      | Some raw \<Rightarrow>
          (case unmarshal raw of
             None \<Rightarrow> mine
           | Some st \<Rightarrow> if now > Expiry st then mine
               else (case mine of None \<Rightarrow> Some st
                     | Some ex \<Rightarrow> if Expiry st > Expiry ex then Some st else Some ex)))"

lemma get2_mergeRedisEntries:
  assumes "gomap_ok entries" and "gomap_ok (inner (broken b) s)"
  shows "get2 (broken (mergeRedisEntries unmarshal b s entries now)) s' d =
     (if s' = s then merged_state unmarshal b s entries now d else get2 (broken b) s' d)"
  using assms
  by (auto simp: mergeRedisEntries_def Let_def gomap_simps map_of_merge_fold map_of_merge_entry
      merged_state_def get2_def drop_unlisted_def split: option.splits)

section \<open>Reachable states\<close>

text \<open>What every reachable state satisfies: the tables are maps, no break outlasts the
  longest TTL from now, every count is a count, and nothing is dated in the future.\<close>

definition window_ok :: "outcomeWindow \<Rightarrow> time \<Rightarrow> bool" where
  "window_ok w now \<longleftrightarrow> 0 \<le> failures w \<and> 0 \<le> successes w \<and> 0 \<le> lastHitCount w \<and>
     windowStart w \<le> now \<and> lastEpisodeAt w \<le> now"

definition breaker_ok :: "breaker \<Rightarrow> time \<Rightarrow> bool" where
  "breaker_ok b now \<longleftrightarrow>
     (\<forall>s. gomap_ok (inner (broken b) s)) \<and>
     (\<forall>s d st. get2 (broken b) s d = Some st \<longrightarrow> Expiry st \<le> now + defaultMaxTTL) \<and>
     (\<forall>s d w. get2 (stats b) s d = Some w \<longrightarrow> window_ok w now)"

inductive breaker_step :: "time \<times> breaker \<Rightarrow> time \<times> breaker \<Rightarrow> bool" where
  tick: "now \<le> now' \<Longrightarrow> breaker_step (now, b) (now', b)"
| success: "breaker_step (now, b) (now, RecordSuccess b s d now)"
| mark: "breaker_step (now, b) (now, snd (MarkBroken io b s d reason now))"
| clear: "breaker_step (now, b) (now, snd (Clear_breaker b s))"
| read: "breaker_step (now, b) (now, snd (IsBroken b s d now))"
| refresh: "gomap_ok entries \<Longrightarrow>
    (\<forall>d raw st. map_of entries d = Some raw \<longrightarrow> unmarshal raw = Some st \<longrightarrow> Expiry st \<le> now + defaultMaxTTL) \<Longrightarrow>
    breaker_step (now, b) (now, mergeRedisEntries unmarshal b s entries now)"

inductive breaker_reachable :: "time \<times> breaker \<Rightarrow> bool" where
  init: "0 \<le> now \<Longrightarrow> breaker_reachable (now, New_breaker [])"
| step: "breaker_reachable st \<Longrightarrow> breaker_step st st' \<Longrightarrow> breaker_reachable st'"

inductive_cases breaker_stepE: "breaker_step (now, b) st'"

lemma windowLocked_ok:
  "breaker_ok b now \<Longrightarrow> 0 \<le> now \<Longrightarrow> window_ok (windowLocked b s d now) now"
  by (auto simp: breaker_ok_def windowLocked_def window_ok_def split: option.splits)

lemma store_window_ok:
  "breaker_ok b now \<Longrightarrow> window_ok w now \<Longrightarrow> breaker_ok (store_window b s d w) now"
  by (auto simp: breaker_ok_def store_window_def gomap_simps)

lemma breaker_ok_cong:
  "broken b' = broken b \<Longrightarrow> stats b' = stats b \<Longrightarrow> breaker_ok b' now = breaker_ok b now"
  by (simp add: breaker_ok_def)

lemma RecordSuccess_ok:
  assumes "breaker_ok b now" and "0 \<le> now"
  shows "breaker_ok (RecordSuccess b s d now) now"
proof -
  let ?w = "windowLocked b s d now"
  have "window_ok (?w\<lparr>successes := successes ?w + 1\<rparr>) now"
    using windowLocked_ok [OF assms] by (simp add: window_ok_def)
  from store_window_ok [OF assms(1) this] assms(1) show ?thesis
    by (simp add: RecordSuccess_def Let_def breaker_ok_cong [OF report_outcome_fields(1,3)])
qed

lemma shouldBreak_ok:
  assumes "breaker_ok b now" and "0 \<le> now"
  shows "breaker_ok (snd (shouldBreak b s d now)) now"
proof -
  have w: "window_ok (windowLocked b s d now) now" by (rule windowLocked_ok [OF assms])
  then show ?thesis
    using assms by (auto simp: shouldBreak_def Let_def window_ok_def intro!: store_window_ok)
qed

lemma put2_broken_ok:
  assumes "breaker_ok b now" and "Expiry st \<le> now + defaultMaxTTL" and "broken b' = put2 (broken b) s d st"
    and "stats b' = stats b"
  shows "breaker_ok b' now"
  using assms by (auto simp: breaker_ok_def gomap_simps put2_def get2_def split: if_splits)

lemma MarkBroken_ok:
  assumes "breaker_ok b now" and "0 \<le> now"
  shows "breaker_ok (snd (MarkBroken io b s d reason now)) now"
proof -
  let ?b2 = "report_outcome (snd (shouldBreak b s d now)) s d OutcomeFailure"
  have b2: "breaker_ok ?b2 now"
    using shouldBreak_ok [OF assms] breaker_ok_cong [OF report_outcome_fields(1,3)] by simp
  show ?thesis
    using assms(1) b2 escalateTTL_bounds(2)
    by (auto simp: MarkBroken_unfold Let_def intro!: put2_broken_ok [OF b2])
qed

lemma mergeRedisEntries_ok:
  assumes ok: "breaker_ok b now" and e: "gomap_ok entries"
    and ex: "\<forall>d raw st. map_of entries d = Some raw \<longrightarrow> unmarshal raw = Some st \<longrightarrow> Expiry st \<le> now + defaultMaxTTL"
  shows "breaker_ok (mergeRedisEntries unmarshal b s entries now) now"
proof -
  have m: "gomap_ok (inner (broken b) s')" for s' using ok by (simp add: breaker_ok_def)
  have "gomap_ok (inner (broken (mergeRedisEntries unmarshal b s entries now)) s')" for s'
    using m by (auto simp: mergeRedisEntries_def Let_def gomap_simps gomap_ok_merge_fold)
  moreover have "Expiry st \<le> now + defaultMaxTTL"
    if "get2 (broken (mergeRedisEntries unmarshal b s entries now)) s' d = Some st" for s' d st
    using that ok ex unfolding get2_mergeRedisEntries [OF e m]
    by (auto simp: merged_state_def breaker_ok_def Let_def split: if_splits option.splits)
  moreover have "stats (mergeRedisEntries unmarshal b s entries now) = stats b"
    by (simp add: mergeRedisEntries_def Let_def)
  ultimately show ?thesis using ok by (simp add: breaker_ok_def)
qed

lemma Clear_breaker_ok: "breaker_ok b now \<Longrightarrow> breaker_ok (snd (Clear_breaker b s)) now"
  by (auto simp: breaker_ok_def Clear_breaker_def gomap_simps)

lemma breaker_ok_later: "breaker_ok b now \<Longrightarrow> now \<le> now' \<Longrightarrow> breaker_ok b now'"
  unfolding breaker_ok_def window_ok_def by (meson add_mono_thms_linordered_semiring(3) order_trans)

lemma IsBroken_snd_ok: "breaker_ok b now \<Longrightarrow> breaker_ok (snd (IsBroken b s d now)) now"
  using breaker_ok_cong [OF maybeRefresh_broken(1,2)]
  by (simp add: IsBroken_def split: prod.splits) (metis snd_conv)

lemma breaker_step_ok:
  "breaker_step st st' \<Longrightarrow> breaker_ok (snd st) (fst st) \<Longrightarrow> 0 \<le> fst st \<Longrightarrow>
     breaker_ok (snd st') (fst st') \<and> fst st \<le> fst st'"
  by (induction rule: breaker_step.induct)
    (auto intro: breaker_ok_later RecordSuccess_ok MarkBroken_ok Clear_breaker_ok IsBroken_snd_ok
      mergeRedisEntries_ok)

lemma breaker_reachable_inv:
  "breaker_reachable st \<Longrightarrow> breaker_ok (snd st) (fst st) \<and> 0 \<le> fst st"
proof (induction rule: breaker_reachable.induct)
  case (init now)
  then show ?case by (simp add: breaker_ok_def New_breaker_def)
next
  case (step st st')
  from breaker_step_ok [OF step.hyps(2)] step.IH show ?case by auto
qed

section \<open>Runs of outcomes\<close>

text \<open>A run reports outcomes of one domain in order; it is quiet when no failure in it
  removed the domain.\<close>

fun run_outcomes :: "breaker \<Rightarrow> string \<Rightarrow> string \<Rightarrow> (time \<times> outcome) list \<Rightarrow> breaker" where
  "run_outcomes b s d [] = b"
| "run_outcomes b s d ((t, OutcomeSuccess) # evs) = run_outcomes (RecordSuccess b s d t) s d evs"
| "run_outcomes b s d ((t, OutcomeFailure) # evs) = run_outcomes (snd (MarkBroken True b s d [] t)) s d evs"

fun quiet_run :: "breaker \<Rightarrow> string \<Rightarrow> string \<Rightarrow> (time \<times> outcome) list \<Rightarrow> bool" where
  "quiet_run b s d [] = True"
| "quiet_run b s d ((t, OutcomeSuccess) # evs) = quiet_run (RecordSuccess b s d t) s d evs"
| "quiet_run b s d ((t, OutcomeFailure) # evs) =
     (\<not> live_break b s d t \<and> \<not> fst (MarkBroken True b s d [] t) \<and>
      quiet_run (snd (MarkBroken True b s d [] t)) s d evs)"

definition same_config :: "breaker \<Rightarrow> breaker \<Rightarrow> bool" where
  "same_config b b' \<longleftrightarrow> failureWindow b' = failureWindow b \<and> minFailures b' = minFailures b \<and>
     failureRateThreshold b' = failureRateThreshold b \<and> rebreakMargin b' = rebreakMargin b \<and>
     escalationMemory b' = escalationMemory b"

lemma shouldBreak_declined:
  assumes "\<not> gate_open b s d t"
  shows "snd (shouldBreak b s d t) =
    store_window b s d (let w = windowLocked b s d t in w\<lparr>failures := failures w + 1\<rparr>)"
  using assms by (auto simp: shouldBreak_def gate_open_def Let_def not_less)

lemma MarkBroken_declined:
  assumes "\<not> live_break b s d t" and "\<not> fst (MarkBroken io b s d r t)"
  shows "snd (MarkBroken io b s d r t) = report_outcome
    (store_window b s d (let w = windowLocked b s d t in w\<lparr>failures := failures w + 1\<rparr>)) s d OutcomeFailure"
  using assms by (simp add: fst_MarkBroken) (simp add: MarkBroken_unfold shouldBreak_declined Let_def)

lemma store_window_get2 [simp]: "get2 (stats (store_window b s d w)) s d = Some w"
  by (simp add: store_window_def gomap_simps)

lemma store_window_broken [simp]: "broken (store_window b s d w) = broken b"
  by (simp add: store_window_def)

text \<open>Within one window the counts are the numbers of outcomes reported.\<close>

lemma quiet_run_counts:
  assumes "quiet_run b s d evs" and "d \<noteq> []" and "get2 (stats b) s d = Some w"
    and "\<forall>(t, _) \<in> set evs. \<not> time_sub t (windowStart w) > failureWindow b"
  shows "get2 (stats (run_outcomes b s d evs)) s d =
      Some (w\<lparr>failures := failures w + int (count_list (map snd evs) OutcomeFailure),
              successes := successes w + int (count_list (map snd evs) OutcomeSuccess)\<rparr>) \<and>
    same_config b (run_outcomes b s d evs) \<and> broken (run_outcomes b s d evs) = broken b"
  using assms
proof (induction evs arbitrary: b w)
  case Nil
  then show ?case by (simp add: same_config_def)
next
  case (Cons ev evs)
  obtain t oc where ev: "ev = (t, oc)" by (cases ev)
  have wl: "windowLocked b s d t = w"
    using Cons.prems by (auto simp: windowLocked_def ev)
  show ?case
  proof (cases oc)
    case OutcomeSuccess
    let ?w = "w\<lparr>successes := successes w + 1\<rparr>" and ?b = "RecordSuccess b s d t"
    have g: "get2 (stats ?b) s d = Some ?w" "same_config b ?b" "broken ?b = broken b"
      using Cons.prems(2) by (auto simp: RecordSuccess_def Let_def wl same_config_def store_window_def gomap_simps)
    have "\<forall>(t, _) \<in> set evs. \<not> time_sub t (windowStart ?w) > failureWindow ?b"
      using Cons.prems(4) g(2) by (auto simp: same_config_def)
    from Cons.IH [OF _ Cons.prems(2) g(1) this] Cons.prems(1) g(2,3) show ?thesis
      by (simp add: ev OutcomeSuccess same_config_def algebra_simps)
  next
    case OutcomeFailure
    let ?w = "w\<lparr>failures := failures w + 1\<rparr>" and ?b = "snd (MarkBroken True b s d [] t)"
    have "?b = report_outcome (store_window b s d ?w) s d OutcomeFailure"
      using MarkBroken_declined [of b s d t True "[]"] Cons.prems(1) by (simp add: ev OutcomeFailure wl)
    then have g: "get2 (stats ?b) s d = Some ?w" "same_config b ?b" "broken ?b = broken b"
      by (auto simp: same_config_def store_window_def gomap_simps)
    have "\<forall>(t, _) \<in> set evs. \<not> time_sub t (windowStart ?w) > failureWindow ?b"
      using Cons.prems(4) g(2) by (auto simp: same_config_def)
    from Cons.IH [OF _ Cons.prems(2) g(1) this] Cons.prems(1) g(2,3) show ?thesis
      by (simp add: ev OutcomeFailure same_config_def algebra_simps)
  qed
qed

lemma length_outcomes:
  "length evs = count_list (map snd evs) OutcomeFailure + count_list (map snd evs) OutcomeSuccess"
proof (induction evs)
  case (Cons ev evs)
  then show ?case by (cases "snd ev") auto
qed simp

text \<open>The first outcome of a domain opens its window.\<close>

lemma first_outcome:
  assumes first: "get2 (stats b) s d = None" "get2 (broken b) s d = None" "d \<noteq> []"
    and run: "evs = (t0, oc) # evs'" "quiet_run b s d evs"
  shows "\<exists>w. get2 (stats (run_outcomes b s d [(t0, oc)])) s d = Some w \<and>
    same_config b (run_outcomes b s d [(t0, oc)]) \<and> broken (run_outcomes b s d [(t0, oc)]) = broken b \<and>
    quiet_run (run_outcomes b s d [(t0, oc)]) s d evs' \<and>
    run_outcomes b s d evs = run_outcomes (run_outcomes b s d [(t0, oc)]) s d evs' \<and>
    windowStart w = t0 \<and> lastEpisodeAt w = 0 \<and>
    failures w + int (count_list (map snd evs') OutcomeFailure) = int (count_list (map snd evs) OutcomeFailure) \<and>
    successes w + int (count_list (map snd evs') OutcomeSuccess) = int (count_list (map snd evs) OutcomeSuccess)"
proof (cases oc)
  case OutcomeSuccess
  then show ?thesis
    using first run by (auto simp: RecordSuccess_def Let_def windowLocked_def same_config_def
        store_window_def gomap_simps)
next
  case OutcomeFailure
  then show ?thesis
    using first run MarkBroken_declined [of b s d t0 True "[]"]
    by (auto simp: Let_def windowLocked_def same_config_def store_window_def gomap_simps)
qed

text \<open>The memory of the last episode survives every quiet run, whatever the windows do.\<close>

lemma quiet_run_memory:
  assumes "quiet_run b s d evs" and "get2 (stats b) s d = Some w"
  shows "\<exists>w'. get2 (stats (run_outcomes b s d evs)) s d = Some w' \<and>
    lastEpisodeAt w' = lastEpisodeAt w \<and> lastHitCount w' = lastHitCount w \<and>
    same_config b (run_outcomes b s d evs)"
  using assms
proof (induction evs arbitrary: b w)
  case Nil
  then show ?case by (simp add: same_config_def)
next
  case (Cons ev evs)
  obtain t oc where ev: "ev = (t, oc)" by (cases ev)
  let ?b = "case oc of OutcomeSuccess \<Rightarrow> RecordSuccess b s d t | OutcomeFailure \<Rightarrow> snd (MarkBroken True b s d [] t)"
  have wl: "lastEpisodeAt (windowLocked b s d t) = lastEpisodeAt w \<and> lastHitCount (windowLocked b s d t) = lastHitCount w"
    using Cons.prems(2) by (simp add: windowLocked_def)
  have "\<exists>w1. get2 (stats ?b) s d = Some w1 \<and> lastEpisodeAt w1 = lastEpisodeAt w \<and>
      lastHitCount w1 = lastHitCount w \<and> same_config b ?b"
  proof (cases oc)
    case OutcomeSuccess
    then show ?thesis
      using wl Cons.prems(2) by (auto simp: RecordSuccess_def Let_def store_window_def gomap_simps same_config_def)
  next
    case OutcomeFailure
    then show ?thesis
      using wl MarkBroken_declined [of b s d t True "[]"] Cons.prems(1)
      by (simp add: ev Let_def store_window_def gomap_simps same_config_def)
  qed
  moreover have "quiet_run ?b s d evs" and "run_outcomes b s d (ev # evs) = run_outcomes ?b s d evs"
    using Cons.prems(1) by (cases oc; simp add: ev)+
  ultimately show ?case using Cons.IH [of ?b] by (auto simp: same_config_def)
qed

lemma windowLocked_memory:
  assumes "get2 (stats b) s d = Some w"
  shows "lastEpisodeAt (windowLocked b s d t) = lastEpisodeAt w"
    "lastHitCount (windowLocked b s d t) = lastHitCount w"
  using assms by (simp_all add: windowLocked_def)

lemma stats_after_break:
  assumes "fst (MarkBroken io b s d r t)"
  shows "\<exists>w. get2 (stats (snd (MarkBroken io b s d r t))) s d = Some w \<and>
    lastEpisodeAt w = t \<and> lastHitCount w = episode b s d t \<and>
    escalationMemory (snd (MarkBroken io b s d r t)) = escalationMemory b"
proof -
  have open_gate: "\<not> live_break b s d t" "gate_open b s d t" using assms by (auto simp: fst_MarkBroken)
  obtain w where w: "snd (shouldBreak b s d t) = store_window b s d w"
    "(lastEpisodeAt w, lastHitCount w) = (t, episode b s d t)"
    using shouldBreak_fields [of b s d t] open_gate(2) by auto
  then show ?thesis
    using open_gate by (simp add: MarkBroken_unfold Let_def store_window_def gomap_simps)
qed

lemma escalateTTL_next: "1 \<le> h \<Longrightarrow> escalateTTL h = min (2 * escalateTTL (h - 1)) defaultMaxTTL"
proof (cases "h < 5")
  case True
  assume "1 \<le> h"
  with True escalateTTL_doubles [of "h - 1"] escalateTTL_bounds(2) [of h] show ?thesis by simp
next
  case False
  then consider "h = 5" | "5 \<le> h - 1" by linarith
  then show ?thesis
    by cases (simp add: escalateTTL_def breaker_defaults, simp add: escalateTTL_cap, simp add: breaker_defaults)
qed

section \<open>Properties\<close>

text \<open>C1. A failure report removes a domain exactly when no break of it is in force and,
  with this failure counted, its current window holds at least \<open>minFailures\<close> failures at
  a rate of at least the threshold (plus the re-break margin while an earlier episode is
  remembered). It then stores an expiry one escalated TTL away, and in every case leaves the
  break state of every other domain and service as it was.\<close>

theorem MarkBroken_gate:
  "let (broke, b') = MarkBroken io b s d reason now;
       w = windowLocked b s d now; f = failures w + 1; n = f + successes w;
       recent = (lastEpisodeAt w \<noteq> 0 \<and> time_sub now (lastEpisodeAt w) \<le> escalationMemory b);
       hit = (if recent then lastHitCount w + 1 else 1)
   in (broke \<longleftrightarrow> \<not> live_break b s d now \<and> minFailures b \<le> f \<and> n \<noteq> 0 \<and>
         failureRateThreshold b + (if recent then rebreakMargin b else 0) \<le> real_of_int f / real_of_int n) \<and>
      (\<forall>s' d'. get2 (broken b') s' d' =
         (if broke \<and> s' = s \<and> d' = d
          then Some \<lparr>Expiry = now + escalateTTL (hit - 1), HitCount = hit, Reason = reason\<rparr>
          else get2 (broken b) s' d'))"
proof -
  obtain broke b' where mb: "MarkBroken io b s d reason now = (broke, b')" by (cases "MarkBroken io b s d reason now")
  with fst_MarkBroken [of io b s d reason now] broken_MarkBroken [of io b s d reason now] show ?thesis
    by (simp add: gate_open_def episode_def recentlyBroken_def Let_def)
qed

text \<open>Over one failure window of a domain seen for the first time, the gate is a
  count over what was reported: after any sequence of outcomes that removed nothing, the next
  failure removes the domain exactly when the failures reported so far, with this one, reach
  \<open>minFailures\<close> and their share of everything reported reaches the threshold.\<close>

lemma MarkBroken_counts_outcomes:
  assumes first: "get2 (stats b) s d = None" "get2 (broken b) s d = None" "d \<noteq> []"
    and run: "evs = (t0, oc) # evs'" "quiet_run b s d evs"
    and within: "\<forall>(t, _) \<in> set evs. \<not> time_sub t t0 > failureWindow b" "\<not> time_sub now t0 > failureWindow b"
  shows "fst (MarkBroken io (run_outcomes b s d evs) s d reason now) \<longleftrightarrow>
    (let f = 1 + count_list (map snd evs) OutcomeFailure; n = 1 + length evs
     in minFailures b \<le> int f \<and> failureRateThreshold b \<le> real f / real n)"
proof -
  let ?b = "run_outcomes b s d [(t0, oc)]" and ?nf = "count_list (map snd evs) OutcomeFailure"
    and ?ns = "count_list (map snd evs) OutcomeSuccess"
  obtain w where b1: "get2 (stats ?b) s d = Some w" "same_config b ?b" "broken ?b = broken b"
    and q: "quiet_run ?b s d evs'" "run_outcomes b s d evs = run_outcomes ?b s d evs'"
    and w: "windowStart w = t0" "lastEpisodeAt w = 0"
      "failures w + int (count_list (map snd evs') OutcomeFailure) = int ?nf"
      "successes w + int (count_list (map snd evs') OutcomeSuccess) = int ?ns"
    using first_outcome [OF first run] by blast
  have win: "\<forall>(t, _) \<in> set evs'. \<not> time_sub t (windowStart w) > failureWindow ?b"
    using within(1) b1(2) by (auto simp: run(1) w same_config_def)
  define b2 where "b2 = run_outcomes b s d evs"
  from quiet_run_counts [OF q(1) first(3) b1(1) win]
  have b2: "get2 (stats b2) s d = Some (w\<lparr>failures := int ?nf, successes := int ?ns\<rparr>)"
      "same_config ?b b2" "broken b2 = broken b"
    using b1(3) by (simp_all add: b2_def q(2) w)
  have "windowLocked b2 s d now = w\<lparr>failures := int ?nf, successes := int ?ns\<rparr>"
    using within(2) b2(1,2) b1(2) by (simp add: windowLocked_def w same_config_def)
  moreover have "length evs = ?nf + ?ns" by (rule length_outcomes)
  ultimately show ?thesis
    using b2 b1 first(2)
    by (simp add: b2_def [symmetric] fst_MarkBroken live_break_def gate_open_def Let_def
        recentlyBroken_def w same_config_def algebra_simps)
qed

lemma MarkBroken_counts_outcomes_witness:
  "fst (MarkBroken True (run_outcomes (New_breaker []) ''eth'' ''a.com'' (replicate 4 (1, OutcomeFailure)))
     ''eth'' ''a.com'' [] 2)"
proof -
  let ?evs = "replicate 4 (1 :: time, OutcomeFailure)"
  have "fst (MarkBroken True (run_outcomes (New_breaker []) ''eth'' ''a.com'' ?evs) ''eth'' ''a.com'' [] 2) \<longleftrightarrow>
    (let f = 1 + count_list (map snd ?evs) OutcomeFailure; n = 1 + length ?evs
     in minFailures (New_breaker []) \<le> int f \<and> failureRateThreshold (New_breaker []) \<le> real f / real n)"
    by (rule MarkBroken_counts_outcomes [where ?t0.0 = 1 and oc = OutcomeFailure and evs' = "replicate 3 (1, OutcomeFailure)"])
      (code_simp)+
  then show ?thesis by (simp add: New_breaker_def breaker_defaults eval_nat_numeral)
qed

text \<open>A domain that is removed, let back in and removed again within the escalation
  memory is kept out twice as long as the time before, up to the cap of thirty minutes,
  whatever outcomes were reported in between.\<close>

lemma MarkBroken_escalates:
  assumes "MarkBroken io b s d r1 t1 = (True, b1)" and "quiet_run b1 s d evs"
    and "MarkBroken io (run_outcomes b1 s d evs) s d r2 t2 = (True, b2)"
    and "t1 \<noteq> 0" and "time_sub t2 t1 \<le> escalationMemory b" and "0 \<le> lastHitCount (windowLocked b s d t1)"
  shows "\<exists>st1 st2. get2 (broken b1) s d = Some st1 \<and> get2 (broken b2) s d = Some st2 \<and>
    HitCount st2 = HitCount st1 + 1 \<and>
    Expiry st2 - t2 = min (2 * (Expiry st1 - t1)) defaultMaxTTL"
proof -
  let ?b1 = "run_outcomes b1 s d evs"
  obtain w where w: "get2 (stats b1) s d = Some w" "lastEpisodeAt w = t1" "lastHitCount w = episode b s d t1"
      "escalationMemory b1 = escalationMemory b"
    using stats_after_break [of io b s d r1 t1] assms(1) by auto
  from quiet_run_memory [OF assms(2) w(1)] obtain w' where
    w': "get2 (stats ?b1) s d = Some w'" "lastEpisodeAt w' = t1" "lastHitCount w' = episode b s d t1"
      "escalationMemory ?b1 = escalationMemory b"
    using w by (auto simp: same_config_def)
  have ep: "episode ?b1 s d t2 = episode b s d t1 + 1"
    using w' assms(4,5) by (simp add: episode_def recentlyBroken_def windowLocked_memory)
  have "1 \<le> episode b s d t1" using assms(6) by (simp add: episode_def Let_def)
  with ep escalateTTL_next [of "episode b s d t1"]
    broken_MarkBroken [of io b s d r1 t1 s d] broken_MarkBroken [of io ?b1 s d r2 t2 s d] assms(1,3)
  show ?thesis by simp
qed

lemma MarkBroken_escalates_witness:
  "let b = New_breaker [WithFailureRateGate second 1 0];
       b1 = snd (MarkBroken True b ''eth'' ''a.com'' [] 1);
       b2 = snd (MarkBroken True b1 ''eth'' ''a.com'' [] (minute + 2))
   in \<exists>st1 st2. get2 (broken b1) ''eth'' ''a.com'' = Some st1 \<and> get2 (broken b2) ''eth'' ''a.com'' = Some st2 \<and>
    HitCount st2 = HitCount st1 + 1 \<and>
    Expiry st2 - (minute + 2) = min (2 * (Expiry st1 - 1)) defaultMaxTTL"
  unfolding Let_def
  by (rule MarkBroken_escalates [where io = True and evs = "[]" and ?r1.0 = "[]" and ?r2.0 = "[]" and
        b = "New_breaker [WithFailureRateGate second 1 0]"]) (code_simp)+



definition broken_example :: breaker where
  "broken_example = (New_breaker [])\<lparr>broken :=
     [(''eth'', [(''a.com'', \<lparr>Expiry = minute, HitCount = 1, Reason = []\<rparr>)])]\<rparr>"



text \<open>Clearing a service reports how many domains it held, leaves none of them broken,
  and forgets the outcomes and the episodes: the next failure of any of its domains starts a new
  window, and with the default gate does not remove it.\<close>

lemma Clear_breaker_forgets:
  assumes "1 < minFailures b"
  shows "fst (Clear_breaker b s) = length (inner (broken b) s) \<and>
    \<not> fst (IsBroken (snd (Clear_breaker b s)) s d now) \<and>
    \<not> fst (MarkBroken io (snd (Clear_breaker b s)) s d reason now) \<and>
    (s' \<noteq> s \<longrightarrow> fst (IsBroken (snd (Clear_breaker b s)) s' d now) = fst (IsBroken b s' d now))"
  using assms
  by (simp add: Clear_breaker_def IsBroken_now broken_now_def gomap_simps fst_MarkBroken gate_open_def
      windowLocked_def Let_def)

lemma Clear_breaker_forgets_witness:
  "fst (Clear_breaker broken_example ''eth'') = 1 \<and>
   \<not> fst (IsBroken (snd (Clear_breaker broken_example ''eth'')) ''eth'' ''a.com'' 7)"
proof -
  have "1 < minFailures broken_example" by code_simp
  from Clear_breaker_forgets [OF this, of "''eth''" "''a.com''" 7] show ?thesis
    by (simp add: broken_example_def inner_def)
qed

end
