(* ===== verification/Method_Block.thy ===== *)
theory Method_Block
  imports Interfaces
begin

text \<open>
  Method blocks (\<^verbatim>\<open>methodblock/store.go\<close>): marks that keep one method away from one host
  for a while, and their escalation to a block of the whole host. A mark is
  supplier-attributed (\<open>escalates\<close>) or client-attributed; only the former may count
  towards the host.
\<close>

section \<open>State and operations\<close>

definition DefaultTTL :: duration where "DefaultTTL = 5 * minute"
definition DefaultEscalation :: int where "DefaultEscalation = 3"
definition maxMethodsPerHost :: nat where "maxMethodsPerHost = 128"

record Block =
  block_host :: string
  block_method :: string
  block_expiry :: time

record methodMark =
  mark_expiry :: time
  mark_escalates :: bool

record hostState =
  hostUntil :: time
  host_methods :: "(string, methodMark) gomap"

record mb_store =
  mb_ttl :: duration
  mb_clientTTL :: duration
  mb_escalation :: int
  byService :: "(string, (string, hostState) gomap) gomap"

definition New_mb :: "(mb_store \<Rightarrow> mb_store) list \<Rightarrow> mb_store" where
  "New_mb opts = foldl (\<lambda>s opt. opt s)
     \<lparr>mb_ttl = DefaultTTL, mb_clientTTL = 0, mb_escalation = DefaultEscalation, byService = []\<rparr> opts"

text \<open>The options and the setters of a reload have the same effect.\<close>

definition SetTTL :: "duration \<Rightarrow> mb_store \<Rightarrow> mb_store" where
  "SetTTL d s = s\<lparr>mb_ttl := d\<rparr>"

definition SetClientTTL :: "duration \<Rightarrow> mb_store \<Rightarrow> mb_store" where
  "SetClientTTL d s = s\<lparr>mb_clientTTL := d\<rparr>"

definition SetEscalation :: "int \<Rightarrow> mb_store \<Rightarrow> mb_store" where
  "SetEscalation n s = s\<lparr>mb_escalation := n\<rparr>"

definition Blocked :: "mb_store \<Rightarrow> string \<Rightarrow> string \<Rightarrow> string \<Rightarrow> time \<Rightarrow> bool" where
  "Blocked s service host method now =
     (if mb_ttl s \<le> 0 then False
      else case get2 (byService s) service host of
        None \<Rightarrow> False
      | Some h \<Rightarrow>
          if now < hostUntil h then True
          else now < (case map_of (host_methods h) method of None \<Rightarrow> 0 | Some mk \<Rightarrow> mark_expiry mk))"

definition drop_expired :: "time \<Rightarrow> (string, methodMark) gomap \<Rightarrow> (string, methodMark) gomap" where
  "drop_expired now ms = keep_entries (\<lambda>_ mk. now < mark_expiry mk) ms"

definition host_of :: "mb_store \<Rightarrow> string \<Rightarrow> string \<Rightarrow> hostState" where
  "host_of s service host =
     (case get2 (byService s) service host of None \<Rightarrow> \<lparr>hostUntil = 0, host_methods = []\<rparr> | Some h \<Rightarrow> h)"

definition set_host :: "mb_store \<Rightarrow> string \<Rightarrow> string \<Rightarrow> hostState \<Rightarrow> mb_store" where
  "set_host s service host h = s\<lparr>byService := put2 (byService s) service host h\<rparr>"

definition mark_life :: "mb_store \<Rightarrow> bool \<Rightarrow> duration" where
  "mark_life s escalates = (if \<not> escalates \<and> mb_clientTTL s > 0 then mb_clientTTL s else mb_ttl s)"

text \<open>What a mark does to the state of its host: the flag is whether it escalated.\<close>

definition mark_host :: "mb_store \<Rightarrow> hostState \<Rightarrow> string \<Rightarrow> bool \<Rightarrow> time \<Rightarrow> bool \<times> hostState" where
  "mark_host s h method escalates now =
     (let expiry = now + mark_life s escalates in
      if now < hostUntil h then (False, h)
      else
        let full = (map_of (host_methods h) method = None \<and> maxMethodsPerHost \<le> length (host_methods h));
            h1 = (if full then h\<lparr>host_methods := drop_expired now (host_methods h)\<rparr> else h)
        in if full \<and> maxMethodsPerHost \<le> length (host_methods h1) then (False, h1)
        else
          let counts = (escalates \<or>
                (case map_of (host_methods h) method of None \<Rightarrow> False
                 | Some prev \<Rightarrow> now < mark_expiry prev \<and> mark_escalates prev));
              ms = drop_expired now (AList.update method
                     \<lparr>mark_expiry = expiry, mark_escalates = counts\<rparr> (host_methods h1));
              live = length (filter (\<lambda>(_, mk). mark_escalates mk) ms)
          in if escalates \<and> mb_escalation s > 0 \<and> int live \<ge> mb_escalation s
             then (True, h1\<lparr>hostUntil := expiry, host_methods := []\<rparr>)
             else (False, h1\<lparr>host_methods := ms\<rparr>))"

definition Mark :: "mb_store \<Rightarrow> string \<Rightarrow> string \<Rightarrow> string \<Rightarrow> bool \<Rightarrow> time \<Rightarrow> bool \<times> mb_store" where
  "Mark s service host method escalates now =
     (if host = [] \<or> method = [] then (False, s)
      else if mb_ttl s \<le> 0 then (False, s)
      else case mark_host s (host_of s service host) method escalates now of
        (escalated, h) \<Rightarrow> (escalated, set_host s service host h))"

definition live_blocks :: "hostState \<Rightarrow> time \<Rightarrow> nat" where
  "live_blocks h now = (if now < hostUntil h then 1 else 0) +
     length (filter (\<lambda>(_, mk). now < mark_expiry mk) (host_methods h))"

definition Clear_mb :: "mb_store \<Rightarrow> string \<Rightarrow> time \<Rightarrow> nat \<times> mb_store" where
  "Clear_mb s service now =
     (sum_list (map (\<lambda>(_, h). live_blocks h now) (inner (byService s) service)),
      s\<lparr>byService := AList.delete service (byService s)\<rparr>)"

definition active_host :: "time \<Rightarrow> string \<times> hostState \<Rightarrow> Block list" where
  "active_host now hh = (case hh of (host, h) \<Rightarrow>
     if now < hostUntil h then [\<lparr>block_host = host, block_method = [], block_expiry = hostUntil h\<rparr>]
     else map (\<lambda>(m, mk). \<lparr>block_host = host, block_method = m, block_expiry = mark_expiry mk\<rparr>)
            (drop_expired now (host_methods h)))"

definition Active_mb :: "mb_store \<Rightarrow> string \<Rightarrow> time \<Rightarrow> Block list" where
  "Active_mb s service now = concat (map (active_host now) (inner (byService s) service))"

definition sweep_host :: "time \<Rightarrow> hostState \<Rightarrow> hostState" where
  "sweep_host now h = h\<lparr>host_methods := drop_expired now (host_methods h)\<rparr>"

definition sweep_hosts :: "time \<Rightarrow> (string, hostState) gomap \<Rightarrow> (string, hostState) gomap" where
  "sweep_hosts now hosts =
     keep_entries (\<lambda>_ h. \<not> (host_methods h = [] \<and> \<not> now < hostUntil h))
       (map (\<lambda>(host, h). (host, sweep_host now h)) hosts)"

definition sweep :: "mb_store \<Rightarrow> time \<Rightarrow> mb_store" where
  "sweep s now = s\<lparr>byService :=
     keep_entries (\<lambda>_ hosts. hosts \<noteq> []) (map (\<lambda>(svc, hosts). (svc, sweep_hosts now hosts)) (byService s))\<rparr>"

section \<open>The invariant\<close>

definition host_ok :: "time \<Rightarrow> hostState \<Rightarrow> bool" where
  "host_ok now h \<longleftrightarrow> gomap_ok (host_methods h) \<and> length (host_methods h) \<le> maxMethodsPerHost \<and>
     (now < hostUntil h \<longrightarrow> host_methods h = [])"

definition mb_ok :: "time \<Rightarrow> mb_store \<Rightarrow> bool" where
  "mb_ok now s \<longleftrightarrow> gomap_ok (byService s) \<and> (\<forall>svc. gomap_ok (inner (byService s) svc)) \<and>
     (\<forall>svc host h. get2 (byService s) svc host = Some h \<longrightarrow> host_ok now h)"

inductive mb_step :: "time \<times> mb_store \<Rightarrow> time \<times> mb_store \<Rightarrow> bool" where
  tick: "now \<le> now' \<Longrightarrow> mb_step (now, s) (now', s)"
| mark: "mb_step (now, s) (now, snd (Mark s svc host m e now))"
| clear: "mb_step (now, s) (now, snd (Clear_mb s svc now))"
| sweep: "mb_step (now, s) (now, sweep s now)"
| reload: "mb_step (now, s) (now, SetEscalation n (SetClientTTL c (SetTTL t s)))"

inductive mb_reachable :: "time \<times> mb_store \<Rightarrow> bool" where
  init: "mb_reachable (now, New_mb [])"
| step: "mb_reachable st \<Longrightarrow> mb_step st st' \<Longrightarrow> mb_reachable st'"

lemma drop_expired_ok [simp]: "gomap_ok ms \<Longrightarrow> gomap_ok (drop_expired now ms)"
  by (simp add: drop_expired_def)

lemma drop_expired_length: "length (drop_expired now ms) \<le> length ms"
  by (simp add: drop_expired_def length_keep_entries)

lemma map_of_drop_expired [gomap_simps]:
  "gomap_ok ms \<Longrightarrow> map_of (drop_expired now ms) m =
     (case map_of ms m of None \<Rightarrow> None | Some mk \<Rightarrow> if now < mark_expiry mk then Some mk else None)"
  by (simp add: drop_expired_def gomap_simps)

lemma length_update_le:
  "length (AList.update k v m) \<le> (if map_of m k = None then Suc (length m) else length m)"
  by (auto simp: length_update map_of_eq_None_iff)

lemma mark_host_ok:
  assumes "host_ok now h"
  shows "host_ok now (snd (mark_host s h m e now))"
proof -
  have ins: "length (drop_expired now (AList.update m mk ms)) \<le> maxMethodsPerHost"
    if "length ms \<le> maxMethodsPerHost" "map_of ms m = None \<longrightarrow> length ms < maxMethodsPerHost" for mk ms
    using drop_expired_length [of now "AList.update m mk ms"] length_update_le [of m mk ms] that
    by (auto split: if_splits)
  have dl: "length (drop_expired now (host_methods h)) \<le> maxMethodsPerHost"
    using assms drop_expired_length [of now "host_methods h"] by (simp add: host_ok_def)
  show ?thesis
    using assms dl by (auto simp: mark_host_def Let_def host_ok_def intro!: ins)
qed

lemma host_of_ok: "mb_ok now s \<Longrightarrow> host_ok now (host_of s svc host)"
  by (auto simp: mb_ok_def host_of_def host_ok_def split: option.splits)

lemma set_host_ok: "mb_ok now s \<Longrightarrow> host_ok now h \<Longrightarrow> mb_ok now (set_host s svc host h)"
  by (auto simp: mb_ok_def set_host_def gomap_simps) (simp_all add: put2_def gomap_simps)

lemma Mark_ok: "mb_ok now s \<Longrightarrow> mb_ok now (snd (Mark s svc host m e now))"
  using mark_host_ok [OF host_of_ok [of now s svc host], of s m e]
  by (auto simp: Mark_def intro: set_host_ok split: prod.splits)

lemma Clear_mb_ok: "mb_ok now s \<Longrightarrow> mb_ok now (snd (Clear_mb s svc now))"
  by (auto simp: mb_ok_def Clear_mb_def gomap_simps split: if_splits)

lemma sweep_host_ok: "host_ok now h \<Longrightarrow> host_ok now (sweep_host now h)"
  using drop_expired_length [of now "host_methods h"]
  by (auto simp: host_ok_def sweep_host_def)

lemma drop_expired_Nil [simp]: "drop_expired now [] = []"
  by (simp add: drop_expired_def keep_entries_def)

lemma sweep_hosts_Nil [simp]: "sweep_hosts now [] = []"
  by (simp add: sweep_hosts_def keep_entries_def)

lemma map_of_sweep_hosts:
  assumes "gomap_ok hosts"
  shows "map_of (sweep_hosts now hosts) host =
    (case map_of hosts host of None \<Rightarrow> None
     | Some h \<Rightarrow> if host_methods (sweep_host now h) = [] \<and> \<not> now < hostUntil h then None
                 else Some (sweep_host now h))"
  using assms
  by (auto simp: sweep_hosts_def gomap_simps gomap_ok_map_snd map_of_map_snd sweep_host_def split: option.splits)

lemma inner_sweep:
  assumes "gomap_ok (byService s)"
  shows "inner (byService (sweep s now)) svc = sweep_hosts now (inner (byService s) svc)"
  using assms
  by (auto simp: sweep_def inner_def gomap_simps gomap_ok_map_snd map_of_map_snd
      split: option.splits)

lemma get2_sweep:
  assumes "mb_ok now s"
  shows "get2 (byService (sweep s now)) svc host =
    (case get2 (byService s) svc host of None \<Rightarrow> None
     | Some h \<Rightarrow> if host_methods (sweep_host now h) = [] \<and> \<not> now < hostUntil h then None
                 else Some (sweep_host now h))"
  using assms by (simp add: get2_def inner_sweep mb_ok_def map_of_sweep_hosts)

lemma sweep_ok:
  assumes "mb_ok now s"
  shows "mb_ok now (sweep s now)"
proof -
  have "gomap_ok (byService (sweep s now))"
    using assms by (simp add: sweep_def mb_ok_def gomap_ok_map_snd)
  moreover have "gomap_ok (inner (byService (sweep s now)) svc)" for svc
    using assms by (simp add: inner_sweep mb_ok_def sweep_hosts_def gomap_ok_map_snd)
  moreover have "get2 (byService (sweep s now)) svc host = Some h \<Longrightarrow> host_ok now h" for svc host h
    using assms sweep_host_ok
    by (auto simp: get2_sweep [OF assms] mb_ok_def split: option.splits if_splits)
  ultimately show ?thesis by (simp add: mb_ok_def)
qed

lemma mb_ok_later: "mb_ok now s \<Longrightarrow> now \<le> now' \<Longrightarrow> mb_ok now' s"
  unfolding mb_ok_def host_ok_def by (meson order.strict_trans1)

lemma reload_ok: "mb_ok now s \<Longrightarrow> mb_ok now (SetEscalation n (SetClientTTL c (SetTTL t s)))"
  by (simp add: mb_ok_def SetTTL_def SetClientTTL_def SetEscalation_def)

lemma mb_step_ok: "mb_step st st' \<Longrightarrow> mb_ok (fst st) (snd st) \<Longrightarrow> mb_ok (fst st') (snd st')"
  by (induction rule: mb_step.induct)
    (auto intro: mb_ok_later Mark_ok Clear_mb_ok sweep_ok reload_ok)

lemma mb_reachable_ok: "mb_reachable st \<Longrightarrow> mb_ok (fst st) (snd st)"
proof (induction rule: mb_reachable.induct)
  case init
  then show ?case by (simp add: mb_ok_def New_mb_def)
qed (rule mb_step_ok)

section \<open>Blocking\<close>

definition host_blocked :: "mb_store \<Rightarrow> string \<Rightarrow> string \<Rightarrow> time \<Rightarrow> bool" where
  "host_blocked s svc host now \<longleftrightarrow> now < hostUntil (host_of s svc host)"

definition marked_until :: "mb_store \<Rightarrow> string \<Rightarrow> string \<Rightarrow> string \<Rightarrow> time" where
  "marked_until s svc host m =
     (case map_of (host_methods (host_of s svc host)) m of None \<Rightarrow> 0 | Some mk \<Rightarrow> mark_expiry mk)"

lemma Blocked_alt:
  assumes "0 \<le> now"
  shows "Blocked s svc host m now \<longleftrightarrow>
    0 < mb_ttl s \<and> (host_blocked s svc host now \<or> now < marked_until s svc host m)"
  using assms by (auto simp: Blocked_def host_blocked_def marked_until_def host_of_def split: option.splits)

lemma Blocked_lapses: "\<not> Blocked s svc host m t \<Longrightarrow> t \<le> t' \<Longrightarrow> \<not> Blocked s svc host m t'"
  by (auto simp: Blocked_def split: option.splits if_splits)

interpretation blocks: expiring "\<lambda>s t (k :: string \<times> string \<times> string).
    Blocked s (fst k) (fst (snd k)) (snd (snd k)) t"
  by unfold_locales (rule Blocked_lapses)

lemma host_of_set_host:
  "host_of (set_host s svc host h) svc' host' = (if svc' = svc \<and> host' = host then h else host_of s svc' host')"
  by (simp add: host_of_def set_host_def gomap_simps)

lemma Mark_frame [simp]:
  "mb_ttl (snd (Mark s svc host m e now)) = mb_ttl s"
  "mb_clientTTL (snd (Mark s svc host m e now)) = mb_clientTTL s"
  "mb_escalation (snd (Mark s svc host m e now)) = mb_escalation s"
  by (auto simp: Mark_def set_host_def split: prod.splits)

lemma host_of_Mark:
  "host_of (snd (Mark s svc host m e now)) svc' host' =
     (if svc' = svc \<and> host' = host \<and> host \<noteq> [] \<and> m \<noteq> [] \<and> 0 < mb_ttl s
      then snd (mark_host s (host_of s svc host) m e now) else host_of s svc' host')"
  by (auto simp: Mark_def host_of_set_host split: prod.splits)

text \<open>A client-attributed mark leaves the host-level block alone, and of the marks only its own
  can come to last longer.\<close>

lemma mark_host_client_until: "hostUntil (snd (mark_host s h m False now)) = hostUntil h"
  by (auto simp: mark_host_def Let_def)

lemma mark_host_other:
  assumes "gomap_ok (host_methods h)" and "m' \<noteq> m" and "\<not> fst (mark_host s h m e now)"
  shows "map_of (host_methods (snd (mark_host s h m e now))) m' = map_of (host_methods h) m' \<or>
    map_of (host_methods (snd (mark_host s h m e now))) m' = None"
  using assms by (auto simp: mark_host_def Let_def gomap_simps split: option.splits if_splits)

lemma client_never_escalates: "\<not> fst (mark_host s h m False now)"
  by (auto simp: mark_host_def Let_def)

lemma marked_until_other:
  assumes "mb_ok now s" and "\<not> (svc' = svc \<and> host' = host \<and> m' = m)"
  shows "marked_until (snd (Mark s svc host m False now)) svc' host' m' \<le>
    max 0 (marked_until s svc' host' m')"
proof (cases "svc' = svc \<and> host' = host \<and> host \<noteq> [] \<and> m \<noteq> [] \<and> 0 < mb_ttl s")
  case True
  have "gomap_ok (host_methods (host_of s svc host))"
    using host_of_ok [OF assms(1)] by (simp add: host_ok_def)
  from mark_host_other [OF this, of m' m s False now] True assms(2) client_never_escalates show ?thesis
    by (auto simp: marked_until_def host_of_Mark split: option.splits)
next
  case False
  then have "host_of (snd (Mark s svc host m False now)) svc' host' = host_of s svc' host'"
    by (simp only: host_of_Mark if_False)
  then show ?thesis by (simp add: marked_until_def)
qed

text \<open>Runs of client-attributed marks.\<close>

fun run_client_marks :: "mb_store \<Rightarrow> string \<Rightarrow> (time \<times> string \<times> string) list \<Rightarrow> mb_store" where
  "run_client_marks s svc [] = s"
| "run_client_marks s svc ((t, host, m) # evs) = run_client_marks (snd (Mark s svc host m False t)) svc evs"

lemma run_client_marks_spec:
  assumes "sorted (map fst evs)" and "\<forall>(t, _) \<in> set evs. now \<le> t" and "mb_ok now s"
  shows "hostUntil (host_of (run_client_marks s svc evs) svc' host) = hostUntil (host_of s svc' host) \<and>
    ((\<forall>t. (t, host, m) \<notin> set evs) \<or> svc' \<noteq> svc \<longrightarrow>
      marked_until (run_client_marks s svc evs) svc' host m \<le> max 0 (marked_until s svc' host m)) \<and>
    mb_ttl (run_client_marks s svc evs) = mb_ttl s"
  using assms
proof (induction evs arbitrary: now s)
  case (Cons ev evs)
  obtain t h m0 where ev: "ev = (t, h, m0)" by (cases ev)
  let ?s = "snd (Mark s svc h m0 False t)"
  have ok: "mb_ok t s" using Cons.prems(2,3) mb_ok_later by (force simp: ev)
  have later: "\<forall>(t', _) \<in> set evs. t \<le> t'" and so: "sorted (map fst evs)"
    using Cons.prems(1) by (auto simp: ev)
  note IH = Cons.IH [OF so later Mark_ok [OF ok], of svc h m0 False]
  have until: "hostUntil (host_of ?s svc' host) = hostUntil (host_of s svc' host)"
    by (simp add: host_of_Mark mark_host_client_until)
  have one: "(\<forall>t'. (t', host, m) \<notin> set (ev # evs)) \<or> svc' \<noteq> svc \<Longrightarrow>
      marked_until ?s svc' host m \<le> max 0 (marked_until s svc' host m)"
    using marked_until_other [OF ok, of svc' svc host h m m0] by (auto simp: ev)
  show ?case using IH until one by (auto simp: ev)
qed simp

text \<open>A mark takes effect at once.\<close>

lemma mark_host_takes:
  assumes ok: "host_ok now h" and life: "0 < mark_life s e" and free: "\<not> now < hostUntil h"
    and room: "map_of (host_methods h) m = None \<longrightarrow> length (drop_expired now (host_methods h)) < maxMethodsPerHost"
    and h': "mark_host s h m e now = (esc, h')"
  shows "if esc then hostUntil h' = now + mark_life s e
    else \<exists>mk. map_of (host_methods h') m = Some mk \<and> mark_expiry mk = now + mark_life s e"
  using assms
  by (auto simp: mark_host_def Let_def gomap_simps host_ok_def split: if_splits option.splits)

section \<open>Clearing and listing\<close>

lemma active_host_length:
  assumes "host_ok now h"
  shows "length (active_host now (host, h)) = live_blocks h now"
  using assms by (auto simp: active_host_def live_blocks_def host_ok_def drop_expired_def keep_entries_def)

lemma Clear_counts_Active:
  assumes "mb_ok now s"
  shows "fst (Clear_mb s svc now) = length (Active_mb s svc now)"
proof -
  have "gomap_ok (inner (byService s) svc)" using assms by (simp add: mb_ok_def)
  then have "host_ok now h" if "(host, h) \<in> set (inner (byService s) svc)" for host h
    using that assms by (auto simp: gomap_in_set mb_ok_def get2_def)
  then have "map (\<lambda>x. length (active_host now x)) (inner (byService s) svc) =
      map (\<lambda>(_, h). live_blocks h now) (inner (byService s) svc)"
    by (auto simp: active_host_length)
  then show ?thesis by (simp only: Clear_mb_def Active_mb_def length_concat comp_def map_map fst_conv)
qed

section \<open>Escalation\<close>

definition suspects :: "hostState \<Rightarrow> string \<Rightarrow> time \<Rightarrow> string set" where
  "suspects h m now = {m'. m' \<noteq> m \<and>
     (\<exists>mk. map_of (host_methods h) m' = Some mk \<and> now < mark_expiry mk \<and> mark_escalates mk)}"

definition has_room :: "hostState \<Rightarrow> string \<Rightarrow> time \<Rightarrow> bool" where
  "has_room h m now \<longleftrightarrow> map_of (host_methods h) m \<noteq> None \<or>
     length (drop_expired now (host_methods h)) < maxMethodsPerHost"

lemma live_count:
  assumes "gomap_ok ms" and "now < expiry"
  shows "length (filter (\<lambda>(_, mk). mark_escalates mk)
      (drop_expired now (AList.update m \<lparr>mark_expiry = expiry, mark_escalates = True\<rparr> ms))) =
    Suc (card {m'. m' \<noteq> m \<and> (\<exists>mk. map_of ms m' = Some mk \<and> now < mark_expiry mk \<and> mark_escalates mk)})"
proof -
  let ?S = "{m'. m' \<noteq> m \<and> (\<exists>mk. map_of ms m' = Some mk \<and> now < mark_expiry mk \<and> mark_escalates mk)}"
  let ?ms = "drop_expired now (AList.update m \<lparr>mark_expiry = expiry, mark_escalates = True\<rparr> ms)"
  have "finite ?S" by (rule finite_subset [OF _ finite_dom_map_of [of ms]]) auto
  moreover have "{k. \<exists>mk. map_of ?ms k = Some mk \<and> mark_escalates mk} = insert m ?S"
    using assms by (auto simp: gomap_simps split: option.splits if_splits)
  ultimately show ?thesis using assms length_filter_gomap [of ?ms] by simp
qed

lemma mark_host_escalates:
  assumes "gomap_ok (host_methods h)" and "0 < mb_ttl s"
  shows "fst (mark_host s h m e now) \<longleftrightarrow> e \<and> \<not> now < hostUntil h \<and> has_room h m now \<and>
    0 < mb_escalation s \<and> mb_escalation s \<le> 1 + int (card (suspects h m now))"
proof -
  have drop: "suspects h m now = {m'. m' \<noteq> m \<and>
     (\<exists>mk. map_of (drop_expired now (host_methods h)) m' = Some mk \<and> now < mark_expiry mk \<and> mark_escalates mk)}"
    using assms(1) by (auto simp: suspects_def gomap_simps split: option.splits if_splits)
  have len: "length (drop_expired now (host_methods h)) \<le> length (host_methods h)" by (rule drop_expired_length)
  note counts = live_count [OF assms(1), of now "now + mb_ttl s" m, folded suspects_def]
    live_count [OF drop_expired_ok [OF assms(1), of now], of now "now + mb_ttl s" m, folded drop]
  show ?thesis
    using assms len counts
    by (auto simp: mark_host_def Let_def has_room_def mark_life_def)
qed

section \<open>Properties\<close>

text \<open>C4. Whatever sequence of client-attributed marks is recorded, on any hosts and
  methods, a host comes to refuse only methods it was marked on: a method no mark named is
  blocked afterwards only where it was blocked before, and no host-level block starts.\<close>

theorem client_marks_block_only_their_methods:
  assumes "mb_reachable (now, s)" and "sorted (map fst evs)" and "\<forall>(t, _) \<in> set evs. now \<le> t"
    and "\<forall>t. (t, host, m) \<notin> set evs" and "0 \<le> t'"
  shows "(Blocked (run_client_marks s svc evs) svc host m t' \<longrightarrow> Blocked s svc host m t') \<and>
    (\<forall>host' t. host_blocked (run_client_marks s svc evs) svc host' t \<longleftrightarrow> host_blocked s svc host' t)"
proof -
  have ok: "mb_ok now s" using mb_reachable_ok [OF assms(1)] by simp
  note spec = run_client_marks_spec [OF assms(2,3) ok]
  from spec [of svc svc _ m] have hb:
    "\<forall>host' t. host_blocked (run_client_marks s svc evs) svc host' t \<longleftrightarrow> host_blocked s svc host' t"
    by (simp add: host_blocked_def)
  with spec [of svc svc host m] assms(4,5) show ?thesis
    by (auto simp: Blocked_alt)
qed

theorem client_marks_block_only_their_methods_witness:
  "\<not> Blocked (run_client_marks (New_mb []) ''eth'' (map (\<lambda>m. (1, ''a.com'', [m])) ''abcd''))
     ''eth'' ''a.com'' ''eth_call'' 2"
proof -
  let ?evs = "map (\<lambda>m. (1 :: time, ''a.com'', [m])) ''abcd''"
  have "Blocked (run_client_marks (New_mb []) ''eth'' ?evs) ''eth'' ''a.com'' ''eth_call'' 2 \<longrightarrow>
      Blocked (New_mb []) ''eth'' ''a.com'' ''eth_call'' 2"
    using client_marks_block_only_their_methods [OF mb_reachable.init [of 0], of ?evs "''a.com''" "''eth_call''" 2 "''eth''"]
    by auto
  moreover have "\<not> Blocked (New_mb []) ''eth'' ''a.com'' ''eth_call'' 2" by code_simp
  ultimately show ?thesis by blast
qed

text \<open>A mark takes effect at once: unless the host already holds the maximal number
  of live marks on other methods, the host refuses the method from now until one mark lifetime
  later (until the host-level block ends, when one is in force), and no other host or service is
  affected.\<close>

lemma Mark_blocks_method:
  assumes "mb_reachable (now, s)" and "0 \<le> now" and "host \<noteq> []" and "m \<noteq> []" and "0 < mb_ttl s"
    and "has_room (host_of s svc host) m now"
    and "now \<le> t" and "t < (if host_blocked s svc host now then hostUntil (host_of s svc host) else now + mark_life s e)"
  shows "Blocked (snd (Mark s svc host m e now)) svc host m t \<and>
    (svc' \<noteq> svc \<or> host' \<noteq> host \<longrightarrow>
      Blocked (snd (Mark s svc host m e now)) svc' host' m' t = Blocked s svc' host' m' t)"
proof -
  let ?h = "host_of s svc host"
  have ok: "mb_ok now s" using mb_reachable_ok [OF assms(1)] by simp
  have life: "0 < mark_life s e" using assms(5) by (simp add: mark_life_def)
  have h: "host_of (snd (Mark s svc host m e now)) svc host = snd (mark_host s ?h m e now)"
    using assms(3-5) by (simp add: host_of_Mark)
  have "host_blocked (snd (Mark s svc host m e now)) svc host t \<or>
      t < marked_until (snd (Mark s svc host m e now)) svc host m"
  proof (cases "now < hostUntil ?h")
    case True
    then show ?thesis using assms(8) by (simp add: host_blocked_def h mark_host_def)
  next
    case False
    have "map_of (host_methods ?h) m = None \<longrightarrow> length (drop_expired now (host_methods ?h)) < maxMethodsPerHost"
      using assms(6) by (auto simp: has_room_def)
    from mark_host_takes [OF host_of_ok [OF ok] life False this, OF prod.collapse [symmetric]]
    show ?thesis using False assms(8)
      by (auto simp: host_blocked_def marked_until_def h split: if_splits)
  qed
  then show ?thesis
    using assms(2,5,7) by (auto simp: Blocked_alt host_blocked_def marked_until_def host_of_Mark)
qed

lemma Mark_blocks_method_witness:
  "Blocked (snd (Mark (New_mb []) ''eth'' ''a.com'' ''eth_call'' True 7)) ''eth'' ''a.com'' ''eth_call'' minute"
proof -
  have "Blocked (snd (Mark (New_mb []) ''eth'' ''a.com'' ''eth_call'' True 7)) ''eth'' ''a.com'' ''eth_call'' minute \<and>
    (''eth'' \<noteq> ''eth'' \<or> ''b.com'' \<noteq> ''a.com'' \<longrightarrow>
      Blocked (snd (Mark (New_mb []) ''eth'' ''a.com'' ''eth_call'' True 7)) ''eth'' ''b.com'' [] minute =
      Blocked (New_mb []) ''eth'' ''b.com'' [] minute)"
    by (rule Mark_blocks_method [OF mb_reachable.init]) (code_simp)+
  then show ?thesis by simp
qed

text \<open>A mark blocks the whole host exactly when it is supplier-attributed, the host is
  not blocked already and has room for it, escalation is on, and this method together with the
  other methods that carry a live supplier-attributed mark reaches the threshold. Then every
  method of the host is refused for one TTL.\<close>

lemma Mark_escalates_iff:
  assumes "mb_reachable (now, s)" and "0 \<le> now"
  shows "(fst (Mark s svc host m e now) \<longleftrightarrow> host \<noteq> [] \<and> m \<noteq> [] \<and> 0 < mb_ttl s \<and> e \<and>
      \<not> host_blocked s svc host now \<and> has_room (host_of s svc host) m now \<and>
      0 < mb_escalation s \<and> mb_escalation s \<le> 1 + int (card (suspects (host_of s svc host) m now))) \<and>
    (fst (Mark s svc host m e now) \<longrightarrow> (\<forall>m' t. now \<le> t \<and> t < now + mb_ttl s \<longrightarrow>
      Blocked (snd (Mark s svc host m e now)) svc host m' t))"
proof -
  let ?h = "host_of s svc host"
  have ok: "gomap_ok (host_methods ?h)"
    using host_of_ok mb_reachable_ok [OF assms(1)] by (fastforce simp: host_ok_def)
  have fst_Mark: "fst (Mark s svc host m e now) \<longleftrightarrow> host \<noteq> [] \<and> m \<noteq> [] \<and> 0 < mb_ttl s \<and> fst (mark_host s ?h m e now)"
    by (auto simp: Mark_def split: prod.splits)
  have until: "fst (mark_host s ?h m e now) \<Longrightarrow> hostUntil (snd (mark_host s ?h m e now)) = now + mb_ttl s"
    by (auto simp: mark_host_def Let_def mark_life_def split: if_splits)
  show ?thesis
    using assms(2) mark_host_escalates [OF ok, of s m e now] until
    by (auto simp: fst_Mark host_blocked_def Blocked_alt host_of_Mark)
qed

lemma Mark_escalates_iff_witness:
  "let s = snd (Mark (New_mb [SetEscalation 1]) ''eth'' ''a.com'' ''eth_call'' True 7)
   in Blocked s ''eth'' ''a.com'' ''eth_getLogs'' minute"
proof -
  have init: "mb_reachable (7, New_mb [SetEscalation 1])"
    using mb_reachable.step [OF mb_reachable.init mb_step.reload [of 7 "New_mb []" 1 0 DefaultTTL]]
    by (simp add: New_mb_def SetEscalation_def SetTTL_def SetClientTTL_def)
  have "fst (Mark (New_mb [SetEscalation 1]) ''eth'' ''a.com'' ''eth_call'' True 7)" by code_simp
  with Mark_escalates_iff [OF init, of "''eth''" "''a.com''" "''eth_call''" True] show ?thesis
    by (simp add: New_mb_def SetEscalation_def DefaultTTL_def)
qed

text \<open>In every reachable state a host holds at most 128 method marks, however many method
  names clients make up, and none beside a live host-level block; so the count that clearing a
  service reports is the number of blocks the listing shows, and afterwards nothing of the
  service is blocked.\<close>

lemma mb_reachable_bounded:
  assumes "mb_reachable (now, s)"
  shows "(\<forall>svc host. length (host_methods (host_of s svc host)) \<le> maxMethodsPerHost) \<and>
    (\<forall>svc. fst (Clear_mb s svc now) = length (Active_mb s svc now)) \<and>
    (\<forall>svc host m t. \<not> Blocked (snd (Clear_mb s svc now)) svc host m t)"
proof -
  have ok: "mb_ok now s" using mb_reachable_ok [OF assms] by simp
  then show ?thesis
    using host_of_ok [OF ok] Clear_counts_Active [OF ok]
    by (auto simp: host_ok_def Blocked_def Clear_mb_def gomap_simps)
qed

lemma mb_reachable_bounded_witness:
  "fst (Clear_mb (snd (Mark (New_mb []) ''eth'' ''a.com'' ''eth_call'' True 7)) ''eth'' 7) =
   length (Active_mb (snd (Mark (New_mb []) ''eth'' ''a.com'' ''eth_call'' True 7)) ''eth'' 7)"
  using mb_reachable_bounded [OF mb_reachable.step [OF mb_reachable.init mb_step.mark]] by blast

text \<open>The background sweep is memory hygiene only: from the instant it runs on, every
  host refuses exactly the methods it would have refused without it.\<close>

lemma sweep_unobservable:
  assumes "mb_reachable (now, s)" and "0 \<le> now" and "now \<le> t"
  shows "Blocked (sweep s now) svc host m t = Blocked s svc host m t"
proof -
  have ok: "mb_ok now s" using mb_reachable_ok [OF assms(1)] by simp
  have ttl: "mb_ttl (sweep s now) = mb_ttl s" by (simp add: sweep_def)
  show ?thesis
  proof (cases "get2 (byService s) svc host")
    case None
    then show ?thesis by (simp add: Blocked_def get2_sweep [OF ok] ttl)
  next
    case (Some h)
    then have gm: "gomap_ok (host_methods h)" using ok by (auto simp: mb_ok_def host_ok_def)
    have dead: "\<not> t < mark_expiry mk" if "drop_expired now (host_methods h) = []"
        "map_of (host_methods h) m = Some mk" for mk
      using map_of_drop_expired [OF gm, of now m] that assms(3) by (auto split: if_splits)
    show ?thesis
      using assms(2,3) Some gm dead
      by (auto simp: Blocked_def get2_sweep [OF ok] ttl sweep_host_def gomap_simps split: option.splits)
  qed
qed

lemma sweep_unobservable_witness:
  "Blocked (sweep (snd (Mark (New_mb []) ''eth'' ''a.com'' ''eth_call'' True 7)) 7) ''eth'' ''a.com'' ''eth_call'' minute"
proof -
  have "Blocked (snd (Mark (New_mb []) ''eth'' ''a.com'' ''eth_call'' True 7)) ''eth'' ''a.com'' ''eth_call'' minute"
    by code_simp
  then show ?thesis
    by (subst sweep_unobservable [OF mb_reachable.step [OF mb_reachable.init mb_step.mark]]) simp_all
qed

section \<open>Evidence older than one TTL\<close>

text \<open>The options say that the marks of an escalation fall inside one TTL. A client-attributed
  re-mark keeps the supplier's flag and gives the mark the longer client lifetime, so a
  supplier failure of twenty minutes ago still counts, with a TTL of five.\<close>

lemma stale_evidence_escalates:
  "let s0 = New_mb [SetClientTTL (30 * minute)];
       s1 = snd (Mark s0 ''eth'' ''a.com'' ''m1'' True minute);
       s2 = snd (Mark s1 ''eth'' ''a.com'' ''m1'' False (2 * minute));
       s3 = snd (Mark s2 ''eth'' ''a.com'' ''m2'' True (21 * minute))
   in mb_ttl s3 = 5 * minute \<and> fst (Mark s3 ''eth'' ''a.com'' ''m3'' True (21 * minute))"
  by code_simp

end
