(* ===== verification/Domain_Types.thy ===== *)
theory Domain_Types
  imports Interfaces
begin

text \<open>
  The package \<^verbatim>\<open>domain\<close>: endpoint addresses and the operator behind them
  (\<^verbatim>\<open>endpoint.go\<close>), RPC types (\<^verbatim>\<open>rpctype.go\<close>), the relay error and what of it a
  client may see (\<^verbatim>\<open>errors.go\<close>), and the owner table with the affiliation it defines
  (\<^verbatim>\<open>owner.go\<close>).

  The public-suffix list is a third-party package: the registrable domain of a host is the
  parameter \<open>psl\<close> (\<open>None\<close> is the error of \<^verbatim>\<open>EffectiveTLDPlusOne\<close>).
\<close>

section \<open>Endpoint addresses\<close>

type_synonym service_id = string
type_synonym endpoint_addr = string
type_synonym rpc_type = string
type_synonym psl = "string \<Rightarrow> string option"

definition Supplier :: "endpoint_addr \<Rightarrow> string" where
  "Supplier e = fst (str_cut CHR ''-'' e)"

definition URL :: "endpoint_addr \<Rightarrow> string option" where
  "URL e = (case str_cut CHR ''-'' e of (_, url, ok) \<Rightarrow>
     if \<not> ok \<or> url = [] then None else Some url)"

definition hostOfURL :: "string \<Rightarrow> string" where
  "hostOfURL url =
     (let noScheme = (case str_after ''://'' url of Some rest \<Rightarrow> rest | None \<Rightarrow> url);
          noPath = takeWhile (\<lambda>c. c \<noteq> CHR ''/'') noScheme
      in case str_before_last CHR '':'' noPath of Some host \<Rightarrow> host | None \<Rightarrow> noPath)"

definition Domain_addr :: "endpoint_addr \<Rightarrow> string" where
  "Domain_addr e = (case URL e of None \<Rightarrow> [] | Some url \<Rightarrow> hostOfURL url)"

definition computeOperator :: "psl \<Rightarrow> string \<Rightarrow> string" where
  "computeOperator psl host =
     (if host = [] then []
      else case psl host of None \<Rightarrow> host | Some op \<Rightarrow> if op = [] then host else op)"

definition OperatorOfURL :: "psl \<Rightarrow> string \<Rightarrow> string" where
  "OperatorOfURL psl url = computeOperator psl (hostOfURL url)"

text \<open>The memo table behind \<^verbatim>\<open>EndpointAddr.Operator\<close>, and the lookup with its
  wholesale eviction.\<close>

record operator_cache =
  operatorCache :: "(endpoint_addr, string) gomap"
  operatorCacheLen :: int

definition operatorCacheMax :: int where
  "operatorCacheMax = 16384"

definition Operator :: "psl \<Rightarrow> operator_cache \<Rightarrow> endpoint_addr \<Rightarrow> string \<times> operator_cache" where
  "Operator psl c e =
     (if e = [] then ([], c)
      else case map_of (operatorCache c) e of
        Some v \<Rightarrow> (v, c)
      | None \<Rightarrow>
          (let op = computeOperator psl (Domain_addr e);
               n = operatorCacheLen c + 1;
               c' = (if n > operatorCacheMax
                     then c\<lparr>operatorCache := [], operatorCacheLen := 1\<rparr>
                     else c\<lparr>operatorCacheLen := n\<rparr>)
           in (op, c'\<lparr>operatorCache := AList.update e op (operatorCache c')\<rparr>)))"

text \<open>What the memo table computes, as a function: the operator of an address. The lookups
  below are written with it; that the table never changes an answer is a theorem at the end of
  this theory.\<close>

definition operator_of :: "psl \<Rightarrow> endpoint_addr \<Rightarrow> string" where
  "operator_of psl e = computeOperator psl (Domain_addr e)"

definition operator_cache_ok :: "psl \<Rightarrow> operator_cache \<Rightarrow> bool" where
  "operator_cache_ok psl c \<longleftrightarrow>
     gomap_ok (operatorCache c) \<and>
     (\<forall>e v. map_of (operatorCache c) e = Some v \<longrightarrow> v = operator_of psl e) \<and>
     operatorCacheLen c = int (length (operatorCache c)) \<and>
     operatorCacheLen c \<le> operatorCacheMax"

fun Operators :: "psl \<Rightarrow> endpoint_addr list \<Rightarrow> string list \<Rightarrow> string list" where
  "Operators psl [] seen = []"
| "Operators psl (a # l) seen =
     (let op = operator_of psl a in
      if op \<in> set seen then Operators psl l seen else op # Operators psl l (op # seen))"

definition Exclude :: "endpoint_addr list \<Rightarrow> (endpoint_addr, bool) gomap \<Rightarrow> endpoint_addr list" where
  "Exclude l addrs = (if addrs = [] then l else filter (\<lambda>a. map_of addrs a \<noteq> Some True) l)"

definition Contains_addr :: "endpoint_addr list \<Rightarrow> endpoint_addr \<Rightarrow> bool" where
  "Contains_addr l addr = List.member l addr"

section \<open>RPC types\<close>

definition RPCTypeJSONRPC :: rpc_type where "RPCTypeJSONRPC = ''json_rpc''"
definition RPCTypeREST :: rpc_type where "RPCTypeREST = ''rest''"
definition RPCTypeCometBFT :: rpc_type where "RPCTypeCometBFT = ''comet_bft''"
definition RPCTypeWebSocket :: rpc_type where "RPCTypeWebSocket = ''websocket''"
definition RPCTypeGRPC :: rpc_type where "RPCTypeGRPC = ''grpc''"
definition RPCTypeUnknown :: rpc_type where "RPCTypeUnknown = ''unknown''"

lemmas rpc_type_defs = RPCTypeJSONRPC_def RPCTypeREST_def RPCTypeCometBFT_def
  RPCTypeWebSocket_def RPCTypeGRPC_def RPCTypeUnknown_def

definition AllRPCTypes :: "rpc_type list" where
  "AllRPCTypes = [RPCTypeJSONRPC, RPCTypeREST, RPCTypeCometBFT, RPCTypeWebSocket, RPCTypeGRPC]"

definition ParseRPCType :: "string \<Rightarrow> rpc_type \<times> bool" where
  "ParseRPCType s = (case find (\<lambda>t. equal_fold s t) AllRPCTypes of
     Some t \<Rightarrow> (t, True) | None \<Rightarrow> (RPCTypeUnknown, False))"

section \<open>Relay errors\<close>

datatype error_kind =
    ErrTransport | ErrProtocol | ErrEndpoint | ErrRateLimit | ErrValidation | ErrCapability
  | ErrKindOther int

fun kind_string :: "error_kind \<Rightarrow> string" where
  "kind_string ErrTransport = ''transport error''"
| "kind_string ErrProtocol = ''protocol error''"
| "kind_string ErrEndpoint = ''endpoint error''"
| "kind_string ErrRateLimit = ''rate limited''"
| "kind_string ErrValidation = ''invalid request''"
| "kind_string ErrCapability = ''unsupported capability''"
| "kind_string (ErrKindOther _) = ''relay error''"

text \<open>The errors a relay can end with: the typed relay error with its cause, the sentinel
  values, the wrapped transport error, and anything a library or the network produced.\<close>

datatype go_error =
    RelayError error_kind string "go_error option" bool
  | ErrRetryVerdict | ErrEndpointsStale | ErrResponseTooLarge | ErrRPCTypeUnsupported
  | ConnectError go_error
  | UpstreamStatusError int string
  | MinerError string nat string
  | OtherError string

fun unwrap :: "go_error \<Rightarrow> go_error option" where
  "unwrap (RelayError _ _ cause _) = cause"
| "unwrap (ConnectError cause) = Some cause"
| "unwrap _ = None"

text \<open>\<^verbatim>\<open>errors.Is\<close> and \<^verbatim>\<open>errors.As\<close> walk the chain \<^verbatim>\<open>Unwrap\<close> gives.\<close>

fun error_is :: "go_error \<Rightarrow> go_error \<Rightarrow> bool" where
  "error_is (RelayError k m (Some c) r) target \<longleftrightarrow> RelayError k m (Some c) r = target \<or> error_is c target"
| "error_is (ConnectError c) target \<longleftrightarrow> ConnectError c = target \<or> error_is c target"
| "error_is e target \<longleftrightarrow> e = target"

fun as_relay_error :: "go_error \<Rightarrow> (error_kind \<times> string) option" where
  "as_relay_error (RelayError k m _ _) = Some (k, m)"
| "as_relay_error (ConnectError c) = as_relay_error c"
| "as_relay_error _ = None"

definition ClientMessage :: "go_error option \<Rightarrow> string" where
  "ClientMessage err =
     (case err of None \<Rightarrow> []
      | Some e \<Rightarrow>
          (case as_relay_error e of
             Some (k, m) \<Rightarrow> if m \<noteq> [] then kind_string k @ '': '' @ m else ''relay failed''
           | None \<Rightarrow> ''relay failed''))"

fun IsRetryable :: "go_error \<Rightarrow> bool" where
  "IsRetryable (RelayError _ _ _ r) = r"
| "IsRetryable _ = False"

section \<open>Owners\<close>

record owner_table =
  ownerBySupplier :: "(string, string) gomap"
  ownerBySupplierLen :: int
  tenancy :: "(string, (string, string) gomap) gomap"
  tenancyLen :: int
  dedicatedTo :: "(string, string) gomap"

definition empty_owner_table :: owner_table where
  "empty_owner_table = \<lparr>ownerBySupplier = [], ownerBySupplierLen = 0, tenancy = [],
     tenancyLen = 0, dedicatedTo = []\<rparr>"

definition ownerCacheMax :: int where
  "ownerCacheMax = 16384"

definition dedicatedShare :: real where
  "dedicatedShare = 0.9"

definition dedicatedMinSeen :: nat where
  "dedicatedMinSeen = 5"

definition owner_counts :: "(string, string) gomap \<Rightarrow> (string, nat) gomap" where
  "owner_counts sups =
     fold (\<lambda>(_, owner) c. AList.update owner (Suc (case map_of c owner of None \<Rightarrow> 0 | Some n \<Rightarrow> n)) c)
       sups []"

definition refreshDedicated :: "owner_table \<Rightarrow> string \<Rightarrow> (string, string) gomap \<Rightarrow> owner_table" where
  "refreshDedicated t operator sups =
     (case find (\<lambda>(owner, n). dedicatedMinSeen \<le> length sups \<and>
                   real n \<ge> dedicatedShare * real (length sups)) (owner_counts sups) of
        Some (owner, _) \<Rightarrow> t\<lparr>dedicatedTo := AList.update operator owner (dedicatedTo t)\<rparr>
      | None \<Rightarrow> t\<lparr>dedicatedTo := AList.delete operator (dedicatedTo t)\<rparr>)"

definition store_tenant :: "owner_table \<Rightarrow> string \<Rightarrow> (string, string) gomap \<Rightarrow> string \<Rightarrow> string \<Rightarrow> owner_table" where
  "store_tenant t operator sups supplier owner =
     (let sups' = AList.update supplier owner sups
      in refreshDedicated (t\<lparr>tenancy := AList.update operator sups' (tenancy t)\<rparr>) operator sups')"

definition RecordOwner :: "owner_table \<Rightarrow> string \<Rightarrow> string \<Rightarrow> string \<Rightarrow> owner_table" where
  "RecordOwner t supplier owner operator =
     (if supplier = [] \<or> owner = [] then t
      else
       let loaded = (map_of (ownerBySupplier t) supplier \<noteq> None);
           t1 = t\<lparr>ownerBySupplier := AList.update supplier owner (ownerBySupplier t)\<rparr>;
           t2 = (if loaded then t1
                 else if ownerBySupplierLen t1 + 1 > ownerCacheMax
                 then t1\<lparr>ownerBySupplier := [], ownerBySupplierLen := 0\<rparr>
                 else t1\<lparr>ownerBySupplierLen := ownerBySupplierLen t1 + 1\<rparr>)
       in if operator = [] then t2
       else
        let sups = inner (tenancy t2) operator;
            t3 = (if map_of (tenancy t2) operator = None
                  then t2\<lparr>tenancy := AList.update operator [] (tenancy t2)\<rparr> else t2)
        in case map_of sups supplier of
             Some prev \<Rightarrow> if prev = owner then t3 else store_tenant t3 operator sups supplier owner
           | None \<Rightarrow>
               if tenancyLen t3 + 1 > ownerCacheMax
               then store_tenant (t3\<lparr>tenancy := [(operator, [])], dedicatedTo := [], tenancyLen := 1\<rparr>)
                      operator [] supplier owner
               else store_tenant (t3\<lparr>tenancyLen := tenancyLen t3 + 1\<rparr>) operator sups supplier owner)"

definition dedicatedOwner :: "owner_table \<Rightarrow> string \<Rightarrow> string" where
  "dedicatedOwner t operator = (case map_of (dedicatedTo t) operator of Some o' \<Rightarrow> o' | None \<Rightarrow> [])"

definition Owner :: "owner_table \<Rightarrow> endpoint_addr \<Rightarrow> string" where
  "Owner t e = (case map_of (ownerBySupplier t) (Supplier e) of Some o' \<Rightarrow> o' | None \<Rightarrow> [])"

text \<open>The owner an endpoint stands for, when its domain is that owner's own.\<close>

definition own_brand :: "psl \<Rightarrow> owner_table \<Rightarrow> endpoint_addr \<Rightarrow> string option" where
  "own_brand psl t e =
     (let owner = dedicatedOwner t (operator_of psl e)
      in if owner \<noteq> [] \<and> owner = Owner t e then Some owner else None)"

definition Party :: "psl \<Rightarrow> owner_table \<Rightarrow> endpoint_addr \<Rightarrow> string" where
  "Party psl t e =
     (let op = operator_of psl e; owner = dedicatedOwner t op
      in if owner \<noteq> [] \<and> owner = Owner t e then owner else op)"

definition PartyOfOperator :: "owner_table \<Rightarrow> string \<Rightarrow> string" where
  "PartyOfOperator t operator =
     (let owner = dedicatedOwner t operator in if owner \<noteq> [] then owner else operator)"

record affiliates =
  operators :: "string set"
  owners :: "string set"

definition Affiliates_empty :: affiliates where
  "Affiliates_empty = \<lparr>operators = {}, owners = {}\<rparr>"

definition Affiliates_Add :: "psl \<Rightarrow> owner_table \<Rightarrow> affiliates \<Rightarrow> endpoint_addr \<Rightarrow> affiliates" where
  "Affiliates_Add psl t a ep =
     (let op = operator_of psl ep;
          a1 = (if op \<noteq> [] then a\<lparr>operators := insert op (operators a)\<rparr> else a);
          owner = dedicatedOwner t op
      in if owner \<noteq> [] \<and> owner = Owner t ep then a1\<lparr>owners := insert owner (owners a1)\<rparr> else a1)"

definition AffiliatesOf :: "psl \<Rightarrow> owner_table \<Rightarrow> endpoint_addr list \<Rightarrow> affiliates" where
  "AffiliatesOf psl t eps = foldl (Affiliates_Add psl t) Affiliates_empty eps"

definition Affiliates_Contains :: "psl \<Rightarrow> owner_table \<Rightarrow> affiliates \<Rightarrow> endpoint_addr \<Rightarrow> bool" where
  "Affiliates_Contains psl t a ep =
     (let op = operator_of psl ep in
      if op \<in> operators a then True
      else let owner = dedicatedOwner t op
           in owner \<noteq> [] \<and> owner \<in> owners a \<and> owner = Owner t ep)"

definition ExcludeAffiliates :: "psl \<Rightarrow> owner_table \<Rightarrow> affiliates \<Rightarrow> endpoint_addr list \<Rightarrow> endpoint_addr list" where
  "ExcludeAffiliates psl t a l =
     (if l = [] \<or> (operators a = {} \<and> owners a = {}) then l
      else let out = filter (\<lambda>ep. \<not> Affiliates_Contains psl t a ep) l
           in if out = [] then l else out)"

section \<open>Lemmas: addresses and the operator memo\<close>

definition mk_addr :: "string \<Rightarrow> string \<Rightarrow> endpoint_addr" where
  "mk_addr supplier url = supplier @ CHR ''-'' # url"

lemma Supplier_mk_addr: "CHR ''-'' \<notin> set s \<Longrightarrow> Supplier (mk_addr s u) = s"
  by (simp add: Supplier_def mk_addr_def str_cut_found)

lemma URL_mk_addr: "CHR ''-'' \<notin> set s \<Longrightarrow> URL (mk_addr s u) = (if u = [] then None else Some u)"
  by (simp add: URL_def mk_addr_def str_cut_found)

lemma URL_empty [simp]: "URL [] = None"
  by (simp add: URL_def str_cut_def)

lemma Domain_addr_empty [simp]: "Domain_addr [] = []"
  by (simp add: Domain_addr_def)

lemma operator_of_empty [simp]: "operator_of psl [] = []"
  by (simp add: operator_of_def computeOperator_def)

lemma computeOperator_Nil [simp]: "computeOperator psl [] = []"
  by (simp add: computeOperator_def)

lemma computeOperator_empty_iff [simp]: "computeOperator psl h = [] \<longleftrightarrow> h = []"
  by (auto simp: computeOperator_def split: option.splits)

lemma Operator_hit:
  "operator_cache_ok psl c \<Longrightarrow> fst (Operator psl c e) = operator_of psl e"
  by (auto simp: Operator_def operator_cache_ok_def operator_of_def Let_def split: option.splits)

lemma Operator_keeps:
  assumes ok: "operator_cache_ok psl c"
  shows "operator_cache_ok psl (snd (Operator psl c e))"
proof (cases "e = [] \<or> map_of (operatorCache c) e \<noteq> None")
  case True
  with ok show ?thesis by (auto simp: Operator_def)
next
  case False
  then have new: "e \<notin> fst ` set (operatorCache c)" by (auto simp: map_of_eq_None_iff)
  from False ok new show ?thesis
    by (auto simp: Operator_def operator_cache_ok_def Let_def gomap_simps length_update
        operator_of_def operatorCacheMax_def)
qed

lemma Operators_set:
  "set (Operators psl l seen) = operator_of psl ` set l - set seen"
  by (induction l arbitrary: seen) (auto simp: Let_def)

lemma Operators_distinct: "distinct (Operators psl l seen)"
  by (induction l arbitrary: seen) (auto simp: Let_def Operators_set)

section \<open>Lemmas: the owner table\<close>

definition dedicated :: "(string, string) gomap \<Rightarrow> string \<Rightarrow> bool" where
  "dedicated sups owner \<longleftrightarrow> dedicatedMinSeen \<le> length sups \<and>
     real (count_list (map snd sups) owner) \<ge> dedicatedShare * real (length sups)"

lemma map_of_counts_fold:
  "map_of (fold (\<lambda>(_, owner) c. AList.update owner (Suc (case map_of c owner of None \<Rightarrow> 0 | Some n \<Rightarrow> n)) c) sups c) o' =
     (let n = count_list (map snd sups) o' in
      case map_of c o' of None \<Rightarrow> if n = 0 then None else Some n | Some m \<Rightarrow> Some (m + n))"
proof (induction sups arbitrary: c)
  case Nil
  then show ?case by (simp split: option.splits)
next
  case (Cons so sups)
  obtain s w where so: "so = (s, w)" by (cases so)
  show ?case
    by (simp add: so Cons gomap_simps Let_def split: option.splits)
qed

lemma map_of_owner_counts:
  "map_of (owner_counts sups) o' = (let n = count_list (map snd sups) o' in if n = 0 then None else Some n)"
  by (simp add: owner_counts_def map_of_counts_fold)

lemma gomap_ok_counts_fold:
  "gomap_ok c \<Longrightarrow> gomap_ok (fold (\<lambda>(_, owner) c. AList.update owner (Suc (case map_of c owner of None \<Rightarrow> 0 | Some n \<Rightarrow> n)) c) sups c)"
  by (induction sups arbitrary: c) auto

lemma owner_counts_in:
  "(o', n) \<in> set (owner_counts sups) \<longleftrightarrow> n = count_list (map snd sups) o' \<and> n \<noteq> 0"
proof -
  have "gomap_ok (owner_counts sups)"
    unfolding owner_counts_def by (rule gomap_ok_counts_fold) simp
  then show ?thesis by (auto simp: gomap_in_set map_of_owner_counts Let_def split: if_splits)
qed

text \<open>No two owners can both hold nine tenths of a domain, so the order in which the counts
  are visited does not matter.\<close>

lemma count_list_two_le:
  "a \<noteq> b \<Longrightarrow> count_list xs a + count_list xs b \<le> length xs"
  by (induction xs) auto

lemma dedicated_unique:
  assumes "dedicated sups a" and "dedicated sups b"
  shows "a = b"
proof (rule ccontr)
  assume "a \<noteq> b"
  then have "count_list (map snd sups) a + count_list (map snd sups) b \<le> length sups"
    using count_list_two_le [of a b "map snd sups"] by simp
  then have "real (count_list (map snd sups) a) + real (count_list (map snd sups) b) \<le> real (length sups)"
    using of_nat_mono [where 'a = real] by fastforce
  with assms show False
    by (auto simp: dedicated_def dedicatedShare_def dedicatedMinSeen_def)
qed

lemma dedicated_count_pos: "dedicated sups a \<Longrightarrow> count_list (map snd sups) a \<noteq> 0"
  by (auto simp: dedicated_def dedicatedShare_def dedicatedMinSeen_def)

lemma map_of_refreshDedicated:
  "map_of (dedicatedTo (refreshDedicated t op sups)) op' =
     (if op' = op then (if \<exists>o'. dedicated sups o' then Some (THE o'. dedicated sups o') else None)
      else map_of (dedicatedTo t) op')"
proof (cases "find (\<lambda>(owner, n). dedicatedMinSeen \<le> length sups \<and>
                   real n \<ge> dedicatedShare * real (length sups)) (owner_counts sups)")
  case None
  have "\<not> dedicated sups o'" for o'
  proof
    assume d: "dedicated sups o'"
    then have "(o', count_list (map snd sups) o') \<in> set (owner_counts sups)"
      using dedicated_count_pos by (simp add: owner_counts_in)
    with None d show False
      by (fastforce simp: find_None_iff dedicated_def)
  qed
  with None show ?thesis by (simp add: refreshDedicated_def gomap_simps)
next
  case (Some on)
  obtain o' n where on: "on = (o', n)" by (cases on)
  from Some have "(o', n) \<in> set (owner_counts sups)" and
    "dedicatedMinSeen \<le> length sups" and "real n \<ge> dedicatedShare * real (length sups)"
    by (auto simp: on dest: find_SomeD)
  then have d: "dedicated sups o'" by (simp add: dedicated_def owner_counts_in)
  then have "(THE o'. dedicated sups o') = o'"
    by (blast intro: the_equality dedicated_unique)
  with Some d on show ?thesis by (auto simp: refreshDedicated_def gomap_simps)
qed

lemma refreshDedicated_iff:
  "map_of (dedicatedTo (refreshDedicated t op sups)) op' = Some o' \<longleftrightarrow>
     (if op' = op then dedicated sups o' else map_of (dedicatedTo t) op' = Some o')"
proof -
  have "dedicated sups o' \<Longrightarrow> (THE o'. dedicated sups o') = o'"
    by (blast intro: the_equality dedicated_unique)
  moreover have "dedicated sups a \<Longrightarrow> dedicated sups (THE o'. dedicated sups o')" for a
    by (rule theI [of _ a]) (auto intro: dedicated_unique)
  ultimately show ?thesis by (auto simp: map_of_refreshDedicated)
qed

lemma refreshDedicated_fields [simp]:
  "ownerBySupplier (refreshDedicated t op sups) = ownerBySupplier t"
  "ownerBySupplierLen (refreshDedicated t op sups) = ownerBySupplierLen t"
  "tenancy (refreshDedicated t op sups) = tenancy t"
  "tenancyLen (refreshDedicated t op sups) = tenancyLen t"
  by (auto simp: refreshDedicated_def split: option.splits)

lemma gomap_ok_refreshDedicated:
  "gomap_ok (dedicatedTo t) \<Longrightarrow> gomap_ok (dedicatedTo (refreshDedicated t op sups))"
  by (auto simp: refreshDedicated_def split: option.splits)

definition tenants :: "owner_table \<Rightarrow> nat" where
  "tenants t = sum_list (map (\<lambda>(_, sups). length sups) (tenancy t))"

definition owner_table_ok :: "owner_table \<Rightarrow> bool" where
  "owner_table_ok t \<longleftrightarrow>
     gomap_ok (ownerBySupplier t) \<and> ownerBySupplierLen t = int (length (ownerBySupplier t)) \<and>
     ownerBySupplierLen t \<le> ownerCacheMax \<and>
     gomap_ok (tenancy t) \<and> (\<forall>op. gomap_ok (inner (tenancy t) op)) \<and>
     tenancyLen t = int (tenants t) \<and> tenancyLen t \<le> ownerCacheMax \<and>
     gomap_ok (dedicatedTo t) \<and>
     (\<forall>op o'. map_of (dedicatedTo t) op = Some o' \<longleftrightarrow> dedicated (inner (tenancy t) op) o')"

lemma not_dedicated_Nil [simp]: "\<not> dedicated [] o'"
  by (simp add: dedicated_def dedicatedMinSeen_def)

lemma owner_table_ok_empty: "owner_table_ok empty_owner_table"
  by (simp add: owner_table_ok_def empty_owner_table_def tenants_def ownerCacheMax_def)

text \<open>Storing one tenant keeps everything but the count, which the caller has adjusted.\<close>

lemma store_tenant_ok:
  assumes sup: "gomap_ok (ownerBySupplier t)" "ownerBySupplierLen t = int (length (ownerBySupplier t))"
      "ownerBySupplierLen t \<le> ownerCacheMax"
    and ten: "gomap_ok (tenancy t)" "\<forall>op. gomap_ok (inner (tenancy t) op)"
    and sups: "inner (tenancy t) operator = sups" "map_of (tenancy t) operator \<noteq> None"
    and len: "tenancyLen t = int (tenants t) + (if map_of sups supplier = None then 1 else 0)"
      "tenancyLen t \<le> ownerCacheMax"
    and ded: "gomap_ok (dedicatedTo t)"
      "\<forall>op o'. op \<noteq> operator \<longrightarrow> map_of (dedicatedTo t) op = Some o' \<longleftrightarrow> dedicated (inner (tenancy t) op) o'"
  shows "owner_table_ok (store_tenant t operator sups supplier owner)"
proof -
  define sups' where "sups' = AList.update supplier owner sups"
  define t' where "t' = t\<lparr>tenancy := AList.update operator sups' (tenancy t)\<rparr>"
  have st: "store_tenant t operator sups supplier owner = refreshDedicated t' operator sups'"
    by (simp add: store_tenant_def sups'_def t'_def Let_def)
  have len': "length sups' = length sups + (if map_of sups supplier = None then 1 else 0)"
    by (simp add: sups'_def length_update map_of_eq_None_iff)
  obtain old where old: "map_of (tenancy t) operator = Some old" using sups(2) by auto
  with sups(1) have "old = sups" by (simp add: inner_def)
  with sum_update [OF ten(1), of length operator sups'] old
  have "tenants t' + length sups = tenants t + length sups'"
    by (simp add: tenants_def t'_def)
  with len len' have "tenancyLen t' = int (tenants t')" by (simp add: t'_def)
  moreover have "gomap_ok sups'" using ten(2) sups(1) by (auto simp: sups'_def)
  ultimately show ?thesis
    using sup ten len ded
    by (auto simp: st owner_table_ok_def t'_def gomap_simps refreshDedicated_iff
        gomap_ok_refreshDedicated tenants_def)
qed

lemma RecordOwner_ok:
  assumes ok: "owner_table_ok t"
  shows "owner_table_ok (RecordOwner t supplier owner operator)"
proof (cases "supplier = [] \<or> owner = []")
  case True
  with ok show ?thesis by (simp add: RecordOwner_def)
next
  case False
  define t1 where "t1 = t\<lparr>ownerBySupplier := AList.update supplier owner (ownerBySupplier t)\<rparr>"
  define t2 where "t2 = (if map_of (ownerBySupplier t) supplier \<noteq> None then t1
                 else if ownerBySupplierLen t1 + 1 > ownerCacheMax
                 then t1\<lparr>ownerBySupplier := [], ownerBySupplierLen := 0\<rparr>
                 else t1\<lparr>ownerBySupplierLen := ownerBySupplierLen t1 + 1\<rparr>)"
  have ok2: "owner_table_ok t2"
    using ok by (auto simp: owner_table_ok_def t2_def t1_def length_update map_of_eq_None_iff
        tenants_def ownerCacheMax_def)
  define sups where "sups = inner (tenancy t2) operator"
  define t3 where "t3 = (if map_of (tenancy t2) operator = None
                  then t2\<lparr>tenancy := AList.update operator [] (tenancy t2)\<rparr> else t2)"
  have inner3: "inner (tenancy t3) op = inner (tenancy t2) op" for op
    by (simp add: t3_def inner_def gomap_simps)
  have ten3: "tenants t3 = tenants t2"
    using sum_update [of "tenancy t2" length operator "[]"] ok2
    by (auto simp: t3_def tenants_def owner_table_ok_def)
  have ok3: "owner_table_ok t3"
    using ok2 inner3 ten3 by (auto simp: owner_table_ok_def t3_def)
  have there: "map_of (tenancy t3) operator \<noteq> None"
    by (simp add: t3_def gomap_simps)
  have room: "owner_table_ok (store_tenant (t3\<lparr>tenancyLen := n\<rparr>) operator sups supplier owner)"
    if "n = int (tenants t3) + (if map_of sups supplier = None then 1 else 0)" "n \<le> ownerCacheMax" for n
    using ok3 there that inner3
    by (intro store_tenant_ok) (auto simp: owner_table_ok_def sups_def tenants_def)
  have rewrite: "owner_table_ok (store_tenant t3 operator sups supplier owner)" if "map_of sups supplier \<noteq> None"
    using ok3 there that inner3
    by (intro store_tenant_ok) (auto simp: owner_table_ok_def sups_def tenants_def)
  have full: "owner_table_ok (store_tenant (t3\<lparr>tenancy := [(operator, [])], dedicatedTo := [], tenancyLen := 1\<rparr>)
                      operator [] supplier owner)"
    using ok3 by (intro store_tenant_ok) (auto simp: owner_table_ok_def tenants_def inner_def ownerCacheMax_def
        gomap_ok_def)
  have step: "RecordOwner t supplier owner operator =
       (if operator = [] then t2
        else case map_of sups supplier of
             Some prev \<Rightarrow> if prev = owner then t3 else store_tenant t3 operator sups supplier owner
           | None \<Rightarrow>
               if tenancyLen t3 + 1 > ownerCacheMax
               then store_tenant (t3\<lparr>tenancy := [(operator, [])], dedicatedTo := [], tenancyLen := 1\<rparr>)
                      operator [] supplier owner
               else store_tenant (t3\<lparr>tenancyLen := tenancyLen t3 + 1\<rparr>) operator sups supplier owner)"
    by (simp only: RecordOwner_def Let_def t1_def t2_def t3_def sups_def False if_False)
  show ?thesis
    using ok2 ok3 full room [of "tenancyLen t3 + 1"] rewrite
    by (auto simp: step owner_table_ok_def [of t3] split: option.splits)
qed

section \<open>Lemmas: affiliation\<close>

lemma Affiliates_Add_Contains_mono:
  "Affiliates_Contains psl t a e \<Longrightarrow> Affiliates_Contains psl t (Affiliates_Add psl t a ep) e"
  by (auto simp: Affiliates_Contains_def Affiliates_Add_def Let_def split: if_splits)

lemma Affiliates_Add_Contains_self:
  "operator_of psl e \<noteq> [] \<Longrightarrow> Affiliates_Contains psl t (Affiliates_Add psl t a e) e"
  by (auto simp: Affiliates_Contains_def Affiliates_Add_def Let_def)

lemma foldl_Add_Contains_mono:
  "Affiliates_Contains psl t a e \<Longrightarrow> Affiliates_Contains psl t (foldl (Affiliates_Add psl t) a eps) e"
  by (induction eps arbitrary: a) (auto intro: Affiliates_Add_Contains_mono)

text \<open>Who the affiliates of a list are: the endpoints on one of its operators, and the
  endpoints on a domain of their own owner that the list already names.\<close>

lemma AffiliatesOf_operators:
  "operators (foldl (Affiliates_Add psl t) a eps) = operators a \<union> (operator_of psl ` set eps - {[]})"
  by (induction eps arbitrary: a) (auto simp: Affiliates_Add_def Let_def)

lemma AffiliatesOf_owners:
  "owners (foldl (Affiliates_Add psl t) a eps) = owners a \<union> {w. \<exists>e \<in> set eps. own_brand psl t e = Some w}"
  by (induction eps arbitrary: a) (auto simp: Affiliates_Add_def own_brand_def Let_def split: if_splits)

lemma AffiliatesOf_Contains:
  "Affiliates_Contains psl t (AffiliatesOf psl t eps) e \<longleftrightarrow>
     (operator_of psl e \<noteq> [] \<and> (\<exists>f \<in> set eps. operator_of psl f = operator_of psl e)) \<or>
     (\<exists>w. own_brand psl t e = Some w \<and> (\<exists>f \<in> set eps. own_brand psl t f = Some w))"
proof -
  have ops: "operator_of psl e \<in> operators (AffiliatesOf psl t eps) \<longleftrightarrow>
      operator_of psl e \<noteq> [] \<and> (\<exists>f \<in> set eps. operator_of psl f = operator_of psl e)"
    by (simp add: AffiliatesOf_def AffiliatesOf_operators Affiliates_empty_def image_iff) (metis (full_types))
  have own: "owners (AffiliatesOf psl t eps) = {w. \<exists>f \<in> set eps. own_brand psl t f = Some w}"
    by (simp add: AffiliatesOf_def AffiliatesOf_owners Affiliates_empty_def)
  show ?thesis
    by (auto simp: Affiliates_Contains_def Let_def ops own own_brand_def [of psl t e])
qed

interpretation excl_aff: soft_filter "ExcludeAffiliates psl t a" for psl t a
  by unfold_locales (auto simp: ExcludeAffiliates_def Let_def)

lemma ExcludeAffiliates_independent:
  assumes "e \<in> set l" and "\<not> Affiliates_Contains psl t a e"
  shows "set (ExcludeAffiliates psl t a l) = {f \<in> set l. \<not> Affiliates_Contains psl t a f}"
proof -
  have none: "operators a = {} \<Longrightarrow> owners a = {} \<Longrightarrow> \<not> Affiliates_Contains psl t a f" for f
    by (simp add: Affiliates_Contains_def)
  from assms have "filter (\<lambda>ep. \<not> Affiliates_Contains psl t a ep) l \<noteq> []"
    by (auto simp: filter_empty_conv)
  with none assms show ?thesis by (auto simp: ExcludeAffiliates_def Let_def)
qed

lemma ExcludeAffiliates_all:
  "\<forall>e \<in> set l. Affiliates_Contains psl t a e \<Longrightarrow> ExcludeAffiliates psl t a l = l"
  by (auto simp: ExcludeAffiliates_def Let_def filter_empty_conv)

section \<open>Lemmas: errors and RPC types\<close>

text \<open>Two errors whose typed error agrees, whatever caused them, read the same to a client.\<close>

lemma ClientMessage_cause:
  "ClientMessage (Some (RelayError k m cause r)) = ClientMessage (Some (RelayError k m cause' r'))"
  by (simp add: ClientMessage_def)

fun strip_causes :: "go_error \<Rightarrow> go_error" where
  "strip_causes (RelayError k m _ r) = RelayError k m None r"
| "strip_causes (ConnectError c) = ConnectError (strip_causes c)"
| "strip_causes (OtherError _) = OtherError []"
| "strip_causes (UpstreamStatusError _ _) = OtherError []"
| "strip_causes (MinerError _ _ _) = OtherError []"
| "strip_causes e = e"

lemma as_relay_error_strip: "as_relay_error (strip_causes e) = as_relay_error e"
  by (induction e rule: strip_causes.induct) auto

lemma error_is_sentinel_RelayError:
  "error_is (RelayError k m (Some c) r) ErrRetryVerdict = error_is c ErrRetryVerdict"
  by simp

lemma AllRPCTypes_distinct: "distinct (map to_lower AllRPCTypes)"
  by (simp add: AllRPCTypes_def rpc_type_defs) code_simp

lemma ParseRPCType_found:
  assumes t: "t \<in> set AllRPCTypes" and eq: "equal_fold s t"
  shows "ParseRPCType s = (t, True)"
proof -
  obtain t' where f: "find (\<lambda>t. equal_fold s t) AllRPCTypes = Some t'"
    using t eq by (cases "find (\<lambda>t. equal_fold s t) AllRPCTypes") (auto simp: find_None_iff)
  then have "t' \<in> set AllRPCTypes" and "equal_fold s t'" by (auto dest: find_SomeD)
  with t eq AllRPCTypes_distinct have "t' = t"
    by (auto simp: equal_fold_def distinct_map inj_on_def)
  with f show ?thesis by (simp add: ParseRPCType_def)
qed

section \<open>Runs\<close>

fun run_lookups :: "psl \<Rightarrow> operator_cache \<Rightarrow> endpoint_addr list \<Rightarrow> string list \<times> operator_cache" where
  "run_lookups psl c [] = ([], c)"
| "run_lookups psl c (e # es) =
     (case Operator psl c e of (op, c1) \<Rightarrow> case run_lookups psl c1 es of (ops, c2) \<Rightarrow> (op # ops, c2))"

definition empty_cache :: operator_cache where
  "empty_cache = \<lparr>operatorCache = [], operatorCacheLen = 0\<rparr>"

lemma run_lookups_ok:
  "operator_cache_ok psl c \<Longrightarrow> fst (run_lookups psl c es) = map (operator_of psl) es \<and>
     operator_cache_ok psl (snd (run_lookups psl c es))"
proof (induction es arbitrary: c)
  case (Cons e es)
  obtain op c1 where o: "Operator psl c e = (op, c1)" by (cases "Operator psl c e")
  with Operator_hit [OF Cons.prems, of e] Operator_keeps [OF Cons.prems, of e] Cons.IH [of c1] show ?case
    by (auto split: prod.splits)
qed simp

definition record_owners :: "(string \<times> string \<times> string) list \<Rightarrow> owner_table" where
  "record_owners rs = foldl (\<lambda>t (supplier, owner, operator). RecordOwner t supplier owner operator) empty_owner_table rs"

lemma record_owners_ok: "owner_table_ok (record_owners rs)"
proof -
  have "owner_table_ok t \<Longrightarrow>
      owner_table_ok (foldl (\<lambda>t (supplier, owner, operator). RecordOwner t supplier owner operator) t rs)" for t
    by (induction rs arbitrary: t) (auto simp: RecordOwner_ok)
  then show ?thesis using owner_table_ok_empty by (simp add: record_owners_def)
qed

section \<open>Properties\<close>

text \<open>C12. Asking for a provider other than those already used never leaves nothing to ask: the
  candidates affiliated with none of them are returned when there are any, and otherwise the list
  as it was. A candidate is affiliated when it runs on one of their operators, or when it stands
  on its own owner's domain and so did one of them.\<close>

theorem ExcludeAffiliates_spec:
  "let aff = (\<lambda>e. (operator_of psl e \<noteq> [] \<and> (\<exists>f \<in> set used. operator_of psl f = operator_of psl e)) \<or>
       (\<exists>w. own_brand psl t e = Some w \<and> (\<exists>f \<in> set used. own_brand psl t f = Some w)));
       out = ExcludeAffiliates psl t (AffiliatesOf psl t used) l
   in (l \<noteq> [] \<longrightarrow> out \<noteq> []) \<and> out = (if \<exists>e \<in> set l. \<not> aff e then filter (\<lambda>e. \<not> aff e) l else l)"
proof -
  let ?A = "AffiliatesOf psl t used"
  have none: "operators ?A = {} \<Longrightarrow> owners ?A = {} \<Longrightarrow> \<not> Affiliates_Contains psl t ?A e" for e
    by (simp add: Affiliates_Contains_def)
  have eq: "ExcludeAffiliates psl t ?A l =
      (if \<exists>e \<in> set l. \<not> Affiliates_Contains psl t ?A e then filter (\<lambda>e. \<not> Affiliates_Contains psl t ?A e) l else l)"
    using none by (auto simp: ExcludeAffiliates_def Let_def filter_empty_conv)
  have ne: "l \<noteq> [] \<longrightarrow> ExcludeAffiliates psl t ?A l \<noteq> []"
    using excl_aff.narrow_nonempty by blast
  show ?thesis
    using eq ne unfolding Let_def AffiliatesOf_Contains [symmetric] by blast
qed

theorem ExcludeAffiliates_spec_witness:
  "ExcludeAffiliates (\<lambda>_. None) empty_owner_table
     (AffiliatesOf (\<lambda>_. None) empty_owner_table [''s1-https://a.io'']) [''s2-https://a.io'', ''s3-https://b.io''] =
   [''s3-https://b.io'']"
proof -
  have ops: "operator_of (\<lambda>_. None) ''s1-https://a.io'' = ''a.io''"
    "operator_of (\<lambda>_. None) ''s2-https://a.io'' = ''a.io''" "operator_of (\<lambda>_. None) ''s3-https://b.io'' = ''b.io''"
    by code_simp+
  have brand: "own_brand (\<lambda>_. None) empty_owner_table e = None" for e
    by (simp add: own_brand_def dedicatedOwner_def empty_owner_table_def Let_def)
  from ExcludeAffiliates_spec [of "\<lambda>_. None" "[''s1-https://a.io'']" empty_owner_table "[''s2-https://a.io'', ''s3-https://b.io'']"]
  show ?thesis by (simp add: ops brand Let_def)
qed

text \<open>C13. After any sequence of session reads, the owner table stays within its bound and its
  verdicts are those of the counts: a domain is dedicated to an owner exactly when at least five
  of its suppliers are known and at least nine tenths of them are that owner's. The order in
  which the counts are visited does not matter.\<close>

theorem dedicatedOwner_counts:
  "let t = record_owners rs; sups = inner (tenancy t) op
   in int (length (ownerBySupplier t)) \<le> ownerCacheMax \<and> int (tenants t) \<le> ownerCacheMax \<and>
      (owner \<noteq> [] \<longrightarrow> (dedicatedOwner t op = owner \<longleftrightarrow>
        5 \<le> length sups \<and> real (count_list (map snd sups) owner) \<ge> 0.9 * real (length sups)))"
proof -
  have ok: "owner_table_ok (record_owners rs)" by (rule record_owners_ok)
  then have "map_of (dedicatedTo (record_owners rs)) op = Some owner \<longleftrightarrow> dedicated (inner (tenancy (record_owners rs)) op) owner"
    by (simp add: owner_table_ok_def)
  moreover have "owner \<noteq> [] \<Longrightarrow> dedicatedOwner (record_owners rs) op = owner \<longleftrightarrow>
      map_of (dedicatedTo (record_owners rs)) op = Some owner"
    by (auto simp: dedicatedOwner_def split: option.splits)
  moreover have "int (length (ownerBySupplier (record_owners rs))) \<le> ownerCacheMax"
    "int (tenants (record_owners rs)) \<le> ownerCacheMax"
    using ok by (auto simp: owner_table_ok_def)
  ultimately show ?thesis
    by (simp add: dedicated_def dedicatedMinSeen_def dedicatedShare_def Let_def)
qed

theorem dedicatedOwner_counts_witness:
  "dedicatedOwner (record_owners (map (\<lambda>c. ([c], ''alice'', ''nodes.io'')) ''abcde'')) ''nodes.io'' = ''alice''"
proof -
  let ?rs = "map (\<lambda>c. ([c], ''alice'', ''nodes.io'')) ''abcde''"
  have "length (inner (tenancy (record_owners ?rs)) ''nodes.io'') = 5"
    "count_list (map snd (inner (tenancy (record_owners ?rs)) ''nodes.io'')) ''alice'' = 5"
    by code_simp+
  with dedicatedOwner_counts [of ?rs "''nodes.io''" "''alice''"] show ?thesis by (simp add: Let_def)
qed

text \<open>The memo table in front of the operator of an address is invisible: over any sequence
  of lookups every answer is the registrable domain of the address's host (the host itself when
  it has none), and the table never holds more than its bound.\<close>

lemma Operator_memo_transparent:
  "let (answers, c) = run_lookups psl empty_cache es
   in answers = map (\<lambda>e. computeOperator psl (Domain_addr e)) es \<and>
      int (length (operatorCache c)) \<le> operatorCacheMax"
proof -
  have "operator_cache_ok psl empty_cache"
    by (simp add: operator_cache_ok_def empty_cache_def operatorCacheMax_def)
  from run_lookups_ok [OF this, of es] show ?thesis
    by (auto simp: operator_cache_ok_def operator_of_def split: prod.splits)
qed

text \<open>What a client is told of an error is independent of its causes: two errors with the
  same kinds and messages, whatever the network, a library or an upstream put below them, give
  the same message, and the message is the fixed one unless SAGE itself wrote one.\<close>

lemma ClientMessage_hides_causes:
  "ClientMessage (Some e) = ClientMessage (Some (strip_causes e)) \<and>
   (as_relay_error e = None \<longrightarrow> ClientMessage (Some e) = ''relay failed'') \<and>
   ClientMessage (Some (RelayError k m cause r)) = (if m = [] then ''relay failed'' else kind_string k @ '': '' @ m)"
  by (simp add: ClientMessage_def as_relay_error_strip)

lemma ClientMessage_hides_causes_witness:
  "ClientMessage (Some (RelayError ErrTransport ''upstream unreachable'' (Some (OtherError ''dial 10.0.0.7'')) True)) =
   ''transport error: upstream unreachable'' \<and>
   ClientMessage (Some (OtherError ''dial 10.0.0.7'')) = ''relay failed''"
  using ClientMessage_hides_causes [of "OtherError ''dial 10.0.0.7''" ErrTransport "''upstream unreachable''"
      "Some (OtherError ''dial 10.0.0.7'')" True]
  by (auto simp del: strip_causes.simps)

end
