(* ===== verification/Drain_Store.thy ===== *)
theory Drain_Store
  imports Domain_Types "HOL-Library.Char_ord" "HOL-Library.List_Lexorder" "HOL-Library.Product_Lexorder"
begin

text \<open>
  Operator drains (\<^verbatim>\<open>drain/store.go\<close>, \<^verbatim>\<open>memory.go\<close>, \<^verbatim>\<open>merge.go\<close>,
  \<^verbatim>\<open>watch.go\<close>): the interface of a drain store, the in-memory store with the swap that a
  refresh performs on it, the union of two stores, and the watch that reports ended drains.

  The interface is the locales \<open>drain_view\<close> (what a reader may rely on) and
  \<open>drain_store\<close> (what a writer may); the in-memory store is interpreted as both, and the
  union of any two views is a view. \<^verbatim>\<open>slices.SortFunc\<close> is the stable sort: within one
  service of one store no two entries compare equal.
\<close>

section \<open>Entries\<close>

record drain_key =
  ServiceID :: service_id
  Operator_key :: string
  RPCType :: rpc_type

record drain_entry =
  Key :: drain_key
  Until :: time
  Reason_text :: string

definition lower_key :: "drain_key \<Rightarrow> drain_key" where
  "lower_key k = k\<lparr>Operator_key := to_lower (Operator_key k)\<rparr>"

definition cmpEntry :: "drain_entry \<Rightarrow> string \<times> string" where
  "cmpEntry e = (Operator_key (Key e), RPCType (Key e))"

definition covers :: "drain_entry \<Rightarrow> service_id \<Rightarrow> string \<Rightarrow> rpc_type \<Rightarrow> bool" where
  "covers e svc op rpc \<longleftrightarrow> ServiceID (Key e) = svc \<and> Operator_key (Key e) = op \<and>
     (RPCType (Key e) = rpc \<or> RPCType (Key e) = [])"

section \<open>The interface\<close>

locale drain_view =
  fixes view_ok :: "'s \<Rightarrow> bool"
    and content :: "'s \<Rightarrow> drain_entry set"
    and active :: "'s \<Rightarrow> service_id \<Rightarrow> time \<Rightarrow> drain_entry list"
    and drained :: "'s \<Rightarrow> service_id \<Rightarrow> string \<Rightarrow> rpc_type \<Rightarrow> time \<Rightarrow> bool"
  assumes active_set: "view_ok s \<Longrightarrow> set (active s svc now) = {e \<in> content s. ServiceID (Key e) = svc \<and> now < Until e}"
    and active_sorted: "sorted (map cmpEntry (active s svc now))"
    and drained_iff: "view_ok s \<Longrightarrow> drained s svc op rpc now \<longleftrightarrow> (\<exists>e \<in> content s. covers e svc op rpc \<and> now < Until e)"
begin

text \<open>The hot-path check and the listing agree.\<close>

lemma drained_active:
  "view_ok s \<Longrightarrow> drained s svc op rpc now \<longleftrightarrow> (\<exists>e \<in> set (active s svc now). covers e svc op rpc)"
  by (auto simp: drained_iff active_set covers_def)

lemma drained_lapses:
  "view_ok s \<Longrightarrow> \<not> drained s svc op rpc t \<Longrightarrow> t \<le> t' \<Longrightarrow> \<not> drained s svc op rpc t'"
  by (auto simp: drained_iff dest: order.strict_trans1)

lemma unscoped_drains_all:
  "view_ok s \<Longrightarrow> drained s svc op [] now \<Longrightarrow> drained s svc op rpc now"
  by (auto simp: drained_iff covers_def)

end

locale drain_store = drain_view view_ok content active drained
  for view_ok :: "'s \<Rightarrow> bool" and content active drained +
  fixes put :: "'s \<Rightarrow> drain_entry \<Rightarrow> time \<Rightarrow> 's"
    and release :: "'s \<Rightarrow> drain_key \<Rightarrow> time \<Rightarrow> 's"
  assumes put_ok: "view_ok s \<Longrightarrow> view_ok (put s e now)"
    and release_ok: "view_ok s \<Longrightarrow> view_ok (release s k now)"
    and put_content: "view_ok s \<Longrightarrow> content (put s e now) =
      {f \<in> content s. Key f \<noteq> lower_key (Key e)} \<union>
      (if now < Until e then {e\<lparr>Key := lower_key (Key e)\<rparr>} else {})"
    and release_content: "view_ok s \<Longrightarrow> content (release s k now) = {f \<in> content s. Key f \<noteq> lower_key k}"
begin

lemma put_drains:
  "view_ok s \<Longrightarrow> now < Until e \<Longrightarrow> t < Until e \<Longrightarrow>
     drained (put s e now) (ServiceID (Key e)) (to_lower (Operator_key (Key e))) (RPCType (Key e)) t"
  by (auto simp: drained_iff put_ok put_content covers_def lower_key_def)

lemma release_ends:
  assumes "view_ok s" and "RPCType k = []"
  shows "drained (release s k now) (ServiceID k) (to_lower (Operator_key k)) rpc t \<longleftrightarrow>
    (\<exists>e \<in> content s. covers e (ServiceID k) (to_lower (Operator_key k)) rpc \<and> RPCType (Key e) \<noteq> [] \<and> t < Until e)"
proof -
  have scoped: "Key e \<noteq> lower_key k \<longleftrightarrow> RPCType (Key e) \<noteq> []"
    if "covers e (ServiceID k) (to_lower (Operator_key k)) rpc" for e
    using that assms(2) by (auto simp: covers_def lower_key_def)
  show ?thesis
    using assms(1) scoped by (auto simp: drained_iff release_ok release_content)
qed

text \<open>An entry whose end has passed is a release.\<close>

lemma put_expired_is_release:
  "view_ok s \<Longrightarrow> \<not> now < Until e \<Longrightarrow> content (put s e now) = content (release s (Key e) now)"
  by (simp add: put_content release_content)

end

section \<open>The in-memory store\<close>

record mem_store =
  entries :: "(drain_key, drain_entry) gomap"
  setAt :: "(drain_key, time) gomap"
  releasedAt :: "(drain_key, time) gomap"

definition NewMemoryStore :: mem_store where
  "NewMemoryStore = \<lparr>entries = [], setAt = [], releasedAt = []\<rparr>"

definition Set_mem :: "mem_store \<Rightarrow> drain_entry \<Rightarrow> time \<Rightarrow> mem_store" where
  "Set_mem s e now =
     (let e = e\<lparr>Key := lower_key (Key e)\<rparr>; k = Key e in
      if \<not> Until e > now
      then s\<lparr>entries := AList.delete k (entries s), setAt := AList.delete k (setAt s),
             releasedAt := AList.update k now (releasedAt s)\<rparr>
      else s\<lparr>entries := AList.update k e (entries s), setAt := AList.update k now (setAt s),
             releasedAt := AList.delete k (releasedAt s)\<rparr>)"

definition Release_mem :: "mem_store \<Rightarrow> drain_key \<Rightarrow> time \<Rightarrow> mem_store" where
  "Release_mem s k now =
     (let k = lower_key k in
      s\<lparr>entries := AList.delete k (entries s), setAt := AList.delete k (setAt s),
        releasedAt := AList.update k now (releasedAt s)\<rparr>)"

definition Drained_mem :: "mem_store \<Rightarrow> service_id \<Rightarrow> string \<Rightarrow> rpc_type \<Rightarrow> time \<Rightarrow> bool" where
  "Drained_mem s svc op rpc now =
     (if (case map_of (entries s) \<lparr>ServiceID = svc, Operator_key = op, RPCType = rpc\<rparr> of
            None \<Rightarrow> False | Some e \<Rightarrow> Until e > now) then True
      else case map_of (entries s) \<lparr>ServiceID = svc, Operator_key = op, RPCType = []\<rparr> of
            None \<Rightarrow> False | Some e \<Rightarrow> Until e > now)"

definition Active_mem :: "mem_store \<Rightarrow> service_id \<Rightarrow> time \<Rightarrow> drain_entry list" where
  "Active_mem s svc now =
     sort_key cmpEntry (filter (\<lambda>e. ServiceID (Key e) = svc \<and> Until e > now) (map snd (entries s)))"

definition carry_over :: "mem_store \<Rightarrow> time \<Rightarrow> time \<Rightarrow> drain_key \<times> time \<Rightarrow>
    (drain_key, drain_entry) gomap \<Rightarrow> (drain_key, drain_entry) gomap" where
  "carry_over s since now kt nxt =
     (case kt of (k, t) \<Rightarrow>
       if \<not> t > since then nxt
       else case map_of (entries s) k of
         Some e \<Rightarrow> if Until e > now \<and> map_of nxt k = None then AList.update k e nxt else nxt
       | None \<Rightarrow> nxt)"

definition replaceAll :: "mem_store \<Rightarrow> (drain_key, drain_entry) gomap \<Rightarrow> time \<Rightarrow> time \<Rightarrow> mem_store" where
  "replaceAll s nxt since now =
     (let n1 = keep_entries (\<lambda>k _. \<not> (case map_of (releasedAt s) k of None \<Rightarrow> False | Some t \<Rightarrow> t > since)) nxt;
          n2 = fold (carry_over s since now) (setAt s) n1
      in \<lparr>entries = n2, setAt = keep_entries (\<lambda>k _. map_of n2 k \<noteq> None) (setAt s), releasedAt = []\<rparr>)"

definition keyed :: "(drain_key, drain_entry) gomap \<Rightarrow> bool" where
  "keyed m \<longleftrightarrow> (\<forall>k e. map_of m k = Some e \<longrightarrow> Key e = k)"

definition mem_ok :: "mem_store \<Rightarrow> bool" where
  "mem_ok s \<longleftrightarrow> gomap_ok (entries s) \<and> gomap_ok (setAt s) \<and> gomap_ok (releasedAt s) \<and>
     keyed (entries s) \<and>
     (\<forall>k. map_of (setAt s) k \<noteq> None \<longrightarrow> map_of (entries s) k \<noteq> None \<and> map_of (releasedAt s) k = None)"

definition mem_content :: "mem_store \<Rightarrow> drain_entry set" where
  "mem_content s = {e. map_of (entries s) (Key e) = Some e}"

lemma keyedD: "keyed m \<Longrightarrow> map_of m k = Some e \<Longrightarrow> Key e = k"
  by (simp add: keyed_def)

lemma keyed_Nil [simp]: "keyed []"
  by (simp add: keyed_def)

lemma keyed_update: "keyed m \<Longrightarrow> Key e = k \<Longrightarrow> keyed (AList.update k e m)"
  unfolding keyed_def by (simp add: gomap_simps)

lemma keyed_delete: "keyed m \<Longrightarrow> keyed (AList.delete k m)"
  unfolding keyed_def by (simp add: gomap_simps)

lemma mem_ok_new: "mem_ok NewMemoryStore"
  by (simp add: mem_ok_def NewMemoryStore_def)

lemma mem_entries_content: "mem_ok s \<Longrightarrow> snd ` set (entries s) = mem_content s"
proof -
  assume ok: "mem_ok s"
  then have "gomap_ok (entries s)" by (simp add: mem_ok_def)
  note mem_iff = gomap_in_set [OF this]
  have "e \<in> mem_content s" if "(k, e) \<in> set (entries s)" for k e
  proof -
    from that have "map_of (entries s) k = Some e" by (simp add: mem_iff)
    moreover from this ok have "Key e = k" unfolding mem_ok_def by (blast dest: keyedD)
    ultimately show ?thesis by (simp add: mem_content_def)
  qed
  moreover have "e \<in> snd ` set (entries s)" if "e \<in> mem_content s" for e
  proof -
    from that have "(Key e, e) \<in> set (entries s)" by (simp add: mem_content_def mem_iff)
    then show ?thesis by (rule rev_image_eqI) simp
  qed
  ultimately show ?thesis by auto
qed

lemma Set_mem_ok: "mem_ok s \<Longrightarrow> mem_ok (Set_mem s e now)"
  by (auto simp: mem_ok_def Set_mem_def Let_def gomap_simps keyed_update keyed_delete split: if_splits)

lemma Release_mem_ok: "mem_ok s \<Longrightarrow> mem_ok (Release_mem s k now)"
  by (auto simp: mem_ok_def Release_mem_def Let_def gomap_simps keyed_delete split: if_splits)

lemma drain_key_eq: "k = \<lparr>ServiceID = a, Operator_key = b, RPCType = c\<rparr> \<longleftrightarrow>
    ServiceID k = a \<and> Operator_key k = b \<and> RPCType k = c"
  by (cases k) auto

lemma Drained_mem_iff:
  assumes "mem_ok s"
  shows "Drained_mem s svc op rpc now \<longleftrightarrow> (\<exists>e \<in> mem_content s. covers e svc op rpc \<and> now < Until e)"
    (is "?l \<longleftrightarrow> ?r")
proof
  have key: "map_of (entries s) k = Some e \<Longrightarrow> Key e = k" for k e
    using assms by (auto simp: mem_ok_def dest: keyedD)
  show ?l if ?r
  proof -
    from that obtain e where e: "map_of (entries s) (Key e) = Some e" "covers e svc op rpc" "now < Until e"
      by (auto simp: mem_content_def)
    then have "Key e = \<lparr>ServiceID = svc, Operator_key = op, RPCType = rpc\<rparr> \<or>
        Key e = \<lparr>ServiceID = svc, Operator_key = op, RPCType = []\<rparr>"
      by (auto simp: covers_def drain_key_eq)
    with e show ?thesis by (auto simp: Drained_mem_def)
  qed
  show ?r if ?l
  proof -
    from that obtain k e where e: "map_of (entries s) k = Some e" "now < Until e"
      "k = \<lparr>ServiceID = svc, Operator_key = op, RPCType = rpc\<rparr> \<or> k = \<lparr>ServiceID = svc, Operator_key = op, RPCType = []\<rparr>"
      by (auto simp: Drained_mem_def split: if_splits option.splits)
    have "Key e = k" by (rule key [OF e(1)])
    with e have "e \<in> mem_content s" "covers e svc op rpc" by (auto simp: mem_content_def covers_def)
    with e show ?thesis by blast
  qed
qed

interpretation mem: drain_view mem_ok mem_content Active_mem Drained_mem
  by unfold_locales (auto simp: Active_mem_def mem_entries_content Drained_mem_iff)

lemma Set_mem_content:
  "mem_ok s \<Longrightarrow> mem_content (Set_mem s e now) = {f \<in> mem_content s. Key f \<noteq> lower_key (Key e)} \<union>
      (if now < Until e then {e\<lparr>Key := lower_key (Key e)\<rparr>} else {})"
  by (auto simp: mem_content_def Set_mem_def Let_def gomap_simps split: if_splits)

lemma Release_mem_content:
  "mem_ok s \<Longrightarrow> mem_content (Release_mem s k now) = {f \<in> mem_content s. Key f \<noteq> lower_key k}"
  by (auto simp: mem_content_def Release_mem_def Let_def gomap_simps)

interpretation mem: drain_store mem_ok mem_content Active_mem Drained_mem Set_mem Release_mem
  by unfold_locales (auto simp: Set_mem_ok Release_mem_ok Set_mem_content Release_mem_content)

section \<open>The swap of a refresh\<close>

definition swapped :: "mem_store \<Rightarrow> (drain_key, drain_entry) gomap \<Rightarrow> time \<Rightarrow> time \<Rightarrow> drain_key \<Rightarrow> drain_entry option" where
  "swapped s nxt since now k =
     (if (case map_of (releasedAt s) k of None \<Rightarrow> False | Some t \<Rightarrow> t > since) then None
      else case map_of nxt k of
        Some e \<Rightarrow> Some e
      | None \<Rightarrow>
          (case (map_of (setAt s) k, map_of (entries s) k) of
             (Some t, Some e) \<Rightarrow> if t > since \<and> Until e > now then Some e else None
           | _ \<Rightarrow> None))"

lemma map_of_carry_over:
  "map_of (carry_over s since now (j, t) nxt) k =
     (if k = j \<and> map_of nxt k = None \<and> t > since
      then (case map_of (entries s) k of None \<Rightarrow> None | Some e \<Rightarrow> if Until e > now then Some e else None)
      else map_of nxt k)"
  by (auto simp: carry_over_def gomap_simps split: option.splits)

lemma map_of_carry_fold:
  "gomap_ok st \<Longrightarrow> map_of (fold (carry_over s since now) st nxt) k =
     (case map_of st k of None \<Rightarrow> map_of nxt k | Some t \<Rightarrow> map_of (carry_over s since now (k, t) nxt) k)"
proof (induction st arbitrary: nxt)
  case (Cons jt st)
  obtain j t where jt: "jt = (j, t)" by (cases jt)
  with Cons.prems have ok: "gomap_ok st" and j: "map_of st j = None"
    by (auto simp: gomap_ok_Cons map_of_notin)
  show ?case
    using j by (auto simp: jt Cons.IH [OF ok] map_of_carry_over split: option.splits)
qed simp

lemma gomap_ok_carry_fold: "gomap_ok nxt \<Longrightarrow> gomap_ok (fold (carry_over s since now) st nxt)"
proof (induction st arbitrary: nxt)
  case (Cons jt st)
  have "gomap_ok (carry_over s since now jt nxt)"
    using Cons.prems by (auto simp: carry_over_def split: prod.splits option.splits)
  with Cons.IH show ?case by simp
qed simp

lemma map_of_replaceAll:
  assumes "mem_ok s" and "gomap_ok nxt"
  shows "map_of (entries (replaceAll s nxt since now)) k = swapped s nxt since now k"
proof -
  have ex: "map_of (setAt s) k = Some t \<Longrightarrow> map_of (releasedAt s) k = None" for t
    using assms(1) by (auto simp: mem_ok_def)
  have "gomap_ok (setAt s)" using assms(1) by (simp add: mem_ok_def)
  with assms(2) ex show ?thesis
    by (auto simp: replaceAll_def Let_def map_of_carry_fold map_of_carry_over gomap_simps swapped_def
        split: option.splits)
qed

lemma replaceAll_ok:
  assumes "mem_ok s" and "gomap_ok nxt" and "keyed nxt"
  shows "mem_ok (replaceAll s nxt since now)"
proof -
  let ?s = "replaceAll s nxt since now"
  have "gomap_ok (entries ?s)"
    using assms(2) by (simp add: replaceAll_def Let_def gomap_ok_carry_fold)
  moreover have "gomap_ok (setAt ?s)" and "releasedAt ?s = []"
    using assms(1) by (simp_all add: replaceAll_def Let_def mem_ok_def)
  moreover have "keyed (entries ?s)"
  proof (unfold keyed_def, intro allI impI)
    fix k e assume "map_of (entries ?s) k = Some e"
    then have "map_of nxt k = Some e \<or> map_of (entries s) k = Some e"
      by (auto simp: map_of_replaceAll [OF assms(1,2)] swapped_def split: if_splits option.splits)
    then show "Key e = k" using assms(1,3) by (auto simp: mem_ok_def dest: keyedD)
  qed
  moreover have "map_of (setAt ?s) k \<noteq> None \<Longrightarrow> map_of (entries ?s) k \<noteq> None" for k
  proof -
    have "map_of (setAt ?s) k = (case map_of (setAt s) k of None \<Rightarrow> None
        | Some t \<Rightarrow> if map_of (entries ?s) k \<noteq> None then Some t else None)"
      using assms(1) by (cases "map_of (setAt s) k") (simp_all add: replaceAll_def Let_def gomap_simps mem_ok_def)
    then show "map_of (setAt ?s) k \<noteq> None \<Longrightarrow> map_of (entries ?s) k \<noteq> None"
      by (auto split: option.splits if_splits)
  qed
  ultimately show ?thesis by (simp add: mem_ok_def)
qed

section \<open>The union of two stores\<close>

definition Drained_merged ::
  "('a \<Rightarrow> service_id \<Rightarrow> string \<Rightarrow> rpc_type \<Rightarrow> time \<Rightarrow> bool) \<Rightarrow>
   ('b \<Rightarrow> service_id \<Rightarrow> string \<Rightarrow> rpc_type \<Rightarrow> time \<Rightarrow> bool) \<Rightarrow>
   'a \<times> 'b \<Rightarrow> service_id \<Rightarrow> string \<Rightarrow> rpc_type \<Rightarrow> time \<Rightarrow> bool" where
  "Drained_merged d1 d2 m svc op rpc now = (d1 (fst m) svc op rpc now \<or> d2 (snd m) svc op rpc now)"

definition Active_merged ::
  "('a \<Rightarrow> service_id \<Rightarrow> time \<Rightarrow> drain_entry list) \<Rightarrow> ('b \<Rightarrow> service_id \<Rightarrow> time \<Rightarrow> drain_entry list) \<Rightarrow>
   'a \<times> 'b \<Rightarrow> service_id \<Rightarrow> time \<Rightarrow> drain_entry list" where
  "Active_merged a1 a2 m svc now = sort_key cmpEntry (a1 (fst m) svc now @ a2 (snd m) svc now)"

locale drain_pair = v1: drain_view ok1 c1 a1 d1 + v2: drain_view ok2 c2 a2 d2
  for ok1 :: "'a \<Rightarrow> bool" and c1 a1 d1 and ok2 :: "'b \<Rightarrow> bool" and c2 a2 d2

sublocale drain_pair \<subseteq> merged: drain_view "\<lambda>m. ok1 (fst m) \<and> ok2 (snd m)"
    "\<lambda>m. c1 (fst m) \<union> c2 (snd m)" "Active_merged a1 a2" "Drained_merged d1 d2"
  by unfold_locales
    (auto simp: Active_merged_def Drained_merged_def v1.active_set v2.active_set v1.drained_iff v2.drained_iff)

interpretation mem2: drain_pair mem_ok mem_content Active_mem Drained_mem mem_ok mem_content Active_mem Drained_mem
  by unfold_locales

section \<open>Watching for ends\<close>

definition live_drains :: "(service_id \<Rightarrow> drain_entry list) \<Rightarrow> service_id list \<Rightarrow> (drain_key, drain_entry) gomap" where
  "live_drains act services =
     fold (\<lambda>e out. AList.update (Key e) e out) (concat (map act services)) []"

definition ended :: "(drain_key, drain_entry) gomap \<Rightarrow> (drain_key, drain_entry) gomap \<Rightarrow> drain_entry list" where
  "ended prev cur = map snd (keep_entries (\<lambda>k _. map_of cur k = None) prev)"

text \<open>One tick of the watch: what it reports, and what it remembers.\<close>

definition watch_tick :: "(service_id \<Rightarrow> drain_entry list) \<Rightarrow> service_id list \<Rightarrow>
    (drain_key, drain_entry) gomap \<Rightarrow> drain_entry list \<times> (drain_key, drain_entry) gomap" where
  "watch_tick act services prev =
     (let cur = live_drains act services in (ended prev cur, cur))"

lemma live_fold_ok:
  "gomap_ok out \<Longrightarrow> keyed out \<Longrightarrow>
   gomap_ok (fold (\<lambda>e out. AList.update (Key e) e out) es out) \<and>
   keyed (fold (\<lambda>e out. AList.update (Key e) e out) es out) \<and>
   (\<forall>k. map_of (fold (\<lambda>e out. AList.update (Key e) e out) es out) k \<noteq> None \<longleftrightarrow>
      map_of out k \<noteq> None \<or> k \<in> Key ` set es)"
proof (induction es arbitrary: out)
  case (Cons e es)
  from Cons.IH [of "AList.update (Key e) e out"] Cons.prems show ?case
    by (auto simp: gomap_simps keyed_update)
qed simp

lemma live_drains_ok: "gomap_ok (live_drains act services)" "keyed (live_drains act services)"
  using live_fold_ok [of "[]" "concat (map act services)"] by (simp_all add: live_drains_def)

lemma live_drains_dom:
  "map_of (live_drains act services) k \<noteq> None \<longleftrightarrow> (\<exists>svc \<in> set services. \<exists>e \<in> set (act svc). Key e = k)"
  using live_fold_ok [of "[]" "concat (map act services)"] by (auto simp: live_drains_def)

lemma map_of_keep_ne:
  "gomap_ok m \<Longrightarrow> map_of (keep_entries P m) k \<noteq> None \<longleftrightarrow> (\<exists>v. map_of m k = Some v \<and> P k v)"
  by (auto simp: gomap_simps split: option.splits)

lemma keyed_values:
  assumes "gomap_ok m" and "keyed m"
  shows "distinct (map Key (map snd m)) \<and> Key ` set (map snd m) = {k. map_of m k \<noteq> None}"
proof -
  have fst_key: "map Key (map snd m) = map fst m"
    using assms by (auto simp: gomap_in_set dest: keyedD)
  have "distinct (map fst m)" using assms(1) by (simp add: gomap_ok_def)
  moreover have "set (map fst m) = {k. map_of m k \<noteq> None}"
    by (auto simp: map_of_eq_None_iff)
  ultimately show ?thesis using fst_key by (metis set_map)
qed

lemma keyed_keep: "gomap_ok m \<Longrightarrow> keyed m \<Longrightarrow> keyed (keep_entries P m)"
  unfolding keyed_def by (simp add: gomap_simps split: option.splits)

lemma ended_spec:
  assumes "gomap_ok prev" and "keyed prev"
  shows "distinct (map Key (ended prev cur)) \<and>
    Key ` set (ended prev cur) = {k. map_of prev k \<noteq> None \<and> map_of cur k = None}"
  using keyed_values [OF gomap_ok_keep_entries [OF assms(1)] keyed_keep [OF assms],
      of "\<lambda>k _. map_of cur k = None"] map_of_keep_ne [OF assms(1)]
  by (simp add: ended_def)

section \<open>Properties\<close>

text \<open>For the union of two in-memory stores (a gateway that honours a peer's drains), the
  check of the hot path agrees with the listing of the admin API: an operator is drained for an
  RPC type exactly when the sorted list of live drains of the service holds one, of either store,
  for the operator and for that RPC type or for all of them.\<close>

lemma merged_drained_iff_listed:
  assumes "mem_ok local_store" and "mem_ok peer_store"
  shows "Drained_merged Drained_mem Drained_mem (local_store, peer_store) svc op rpc now \<longleftrightarrow>
      (\<exists>e \<in> set (Active_merged Active_mem Active_mem (local_store, peer_store) svc now). covers e svc op rpc) \<and>
    sorted (map cmpEntry (Active_merged Active_mem Active_mem (local_store, peer_store) svc now))"
  using assms mem2.merged.drained_active [of "(local_store, peer_store)"]
    mem2.merged.active_sorted [of "(local_store, peer_store)"]
  by (auto simp: covers_def)

definition drain_example :: drain_entry where
  "drain_example = \<lparr>Key = \<lparr>ServiceID = ''eth'', Operator_key = ''Nodes.io'', RPCType = []\<rparr>,
     Until = hour, Reason_text = ''lag''\<rparr>"

lemma merged_drained_iff_listed_witness:
  "Drained_merged Drained_mem Drained_mem (NewMemoryStore, Set_mem NewMemoryStore drain_example 5)
     ''eth'' ''nodes.io'' ''json_rpc'' minute"
proof -
  have "\<exists>e \<in> set (Active_merged Active_mem Active_mem (NewMemoryStore, Set_mem NewMemoryStore drain_example 5)
      ''eth'' minute). covers e ''eth'' ''nodes.io'' ''json_rpc''"
    and "sorted (map cmpEntry (Active_merged Active_mem Active_mem
      (NewMemoryStore, Set_mem NewMemoryStore drain_example 5) ''eth'' minute))"
    by code_simp+
  with merged_drained_iff_listed [OF mem_ok_new Set_mem_ok [OF mem_ok_new]] show ?thesis by blast
qed

text \<open>Setting a drain (operator in any letter case) drains the operator until the drain's
  own end and no longer, unless a scoped or unscoped drain besides it does; releasing it, or
  setting it with an end that has passed, leaves exactly the other drains.\<close>

lemma Set_then_Drained:
  assumes "mem_ok s" and "now < Until e" and "ServiceID (Key e) = svc" and "to_lower (Operator_key (Key e)) = op"
    and "RPCType (Key e) = rpc"
  shows "(Drained_mem (Set_mem s e now) svc op rpc t \<longleftrightarrow> t < Until e \<or>
      (\<exists>f \<in> mem_content s. Key f \<noteq> lower_key (Key e) \<and> covers f svc op rpc \<and> t < Until f)) \<and>
    mem_content (Release_mem (Set_mem s e now) (Key e) now') = {f \<in> mem_content s. Key f \<noteq> lower_key (Key e)}"
proof -
  have "covers (e\<lparr>Key := lower_key (Key e)\<rparr>) svc op rpc"
    using assms(3-5) by (auto simp: covers_def lower_key_def)
  then show ?thesis
    using assms(1,2) by (auto simp: mem.drained_iff mem.put_ok mem.put_content mem.release_content)
qed

lemma Set_then_Drained_witness:
  "Drained_mem (Set_mem NewMemoryStore drain_example 5) ''eth'' ''nodes.io'' [] minute \<and>
   \<not> Drained_mem (Set_mem NewMemoryStore drain_example 5) ''eth'' ''nodes.io'' [] hour"
proof -
  have c: "now < Until drain_example \<longleftrightarrow> now < hour" "ServiceID (Key drain_example) = ''eth''"
    "to_lower (Operator_key (Key drain_example)) = ''nodes.io''" "RPCType (Key drain_example) = []" for now
    by (simp_all add: drain_example_def) code_simp
  have "mem_content NewMemoryStore = {}" by (simp add: mem_content_def NewMemoryStore_def)
  with Set_then_Drained [OF mem_ok_new _ c(2-4), of 5] show ?thesis
    by (simp add: c(1))
qed

text \<open>The refresh swaps the whole set of drains and still loses no decision taken while
  its snapshot was on the wire: a key released since then stays released whatever the snapshot
  holds, a key set since then and absent from the snapshot keeps its live local drain, and every
  other key has what the snapshot says. The store stays well-formed.\<close>

lemma replaceAll_spec:
  assumes "mem_ok s" and "gomap_ok nxt" and "keyed nxt"
  shows "mem_ok (replaceAll s nxt since now) \<and>
    map_of (entries (replaceAll s nxt since now)) k =
     (if (case map_of (releasedAt s) k of None \<Rightarrow> False | Some t \<Rightarrow> t > since) then None
      else case map_of nxt k of
        Some e \<Rightarrow> Some e
      | None \<Rightarrow>
          (case (map_of (setAt s) k, map_of (entries s) k) of
             (Some t, Some e) \<Rightarrow> if t > since \<and> Until e > now then Some e else None
           | _ \<Rightarrow> None))"
  using replaceAll_ok [OF assms(1,2)] map_of_replaceAll [OF assms(1,2)] assms(3)
  by (simp add: swapped_def)

lemma replaceAll_spec_witness:
  "let s = Set_mem NewMemoryStore drain_example 5
   in mem_ok (replaceAll s [] 4 6) \<and>
      map_of (entries (replaceAll s [] 4 6)) (lower_key (Key drain_example)) =
        Some (drain_example\<lparr>Key := lower_key (Key drain_example)\<rparr>)"
proof -
  let ?s = "Set_mem NewMemoryStore drain_example 5" and ?k = "lower_key (Key drain_example)"
  have "map_of (releasedAt ?s) ?k = None" "map_of (setAt ?s) ?k = Some 5"
    "map_of (entries ?s) ?k = Some (drain_example\<lparr>Key := ?k\<rparr>)" "6 < Until drain_example"
    by code_simp+
  with replaceAll_spec [OF Set_mem_ok [OF mem_ok_new], of "[]" drain_example 5 4 6 ?k] show ?thesis
    by (simp add: Let_def)
qed

text \<open>The carry-over does not reach a key the snapshot also holds: a drain extended while the
  snapshot was on the wire falls back to the snapshot's earlier end.\<close>

lemma replaceAll_reverts_extension:
  "let old = drain_example\<lparr>Key := lower_key (Key drain_example)\<rparr>;
       s = Set_mem (Set_mem NewMemoryStore old 1) (old\<lparr>Until := 2 * hour\<rparr>) 5
   in Drained_mem s ''eth'' ''nodes.io'' [] hour \<and>
      \<not> Drained_mem (replaceAll s [(Key old, old)] 4 6) ''eth'' ''nodes.io'' [] hour"
  by code_simp

text \<open>One tick of the watch reports each drain that was live at the previous tick and is
  not live now, exactly once, and nothing else.\<close>

lemma watch_tick_reports:
  "let prev = live_drains act0 services; reported = fst (watch_tick act1 services prev)
   in distinct (map Key reported) \<and>
      Key ` set reported = {k. (\<exists>svc \<in> set services. k \<in> Key ` set (act0 svc)) \<and>
         (\<forall>svc \<in> set services. k \<notin> Key ` set (act1 svc))} \<and>
      snd (watch_tick act1 services prev) = live_drains act1 services"
proof -
  have "map_of (live_drains act1 services) k = None \<longleftrightarrow> (\<forall>svc \<in> set services. k \<notin> Key ` set (act1 svc))" for k
    using live_drains_dom [of act1 services k] by auto
  moreover have "map_of (live_drains act0 services) k \<noteq> None \<longleftrightarrow> (\<exists>svc \<in> set services. k \<in> Key ` set (act0 svc))" for k
    using live_drains_dom [of act0 services k] by auto
  ultimately show ?thesis
    using ended_spec [OF live_drains_ok, of act0 services "live_drains act1 services"]
    by (simp add: watch_tick_def Let_def)
qed

lemma watch_tick_reports_witness:
  "Key ` set (fst (watch_tick (\<lambda>_. []) [''eth''] (live_drains (\<lambda>_. [drain_example]) [''eth'']))) = {Key drain_example}"
  using watch_tick_reports [of "\<lambda>_. [drain_example]" "[''eth'']" "\<lambda>_. []"] by (simp add: Let_def)

end
