(* ===== verification/Drain_Redis.thy ===== *)
theory Drain_Redis
  imports Drain_Store
begin

text \<open>
  The Redis-backed drain store (\<^verbatim>\<open>drain/redis.go\<close>): local writes first, Redis second, a
  record per key of what this instance still tries to make Redis say, and the refresh that
  rebuilds the local map from the shared hash.

  A Redis round trip has three results (\<open>io\<close>): done, failed before the server applied it,
  or reported as failed although the server applied it. A stored value is either a payload or
  something that does not decode; encoding fails for an end beyond the year 9999, as Go's JSON
  does. The handlers \<open>Set_redis\<close>, \<open>Release_redis\<close> and \<open>refresh\<close> are the sequential
  compositions of the steps; the interleavings of concurrent calls on one key are the relation
  at the end, over the same steps.
\<close>

section \<open>Fields\<close>

definition allRPCTypes :: string where "allRPCTypes = ''all''"

definition redisField :: "drain_key \<Rightarrow> string" where
  "redisField k =
     (let rpc = (if RPCType k = [] then allRPCTypes else RPCType k)
      in ServiceID k @ CHR '':'' # to_lower (Operator_key k) @ CHR '':'' # rpc)"

definition parseRedisField :: "string \<Rightarrow> drain_key option" where
  "parseRedisField field =
     (case str_split CHR '':'' field of
        [svc, op, rpc] \<Rightarrow>
          if svc = [] \<or> op = [] \<or> rpc = [] then None
          else Some \<lparr>ServiceID = svc, Operator_key = op,
                      RPCType = (if rpc \<noteq> allRPCTypes then rpc else [])\<rparr>
      | _ \<Rightarrow> None)"

section \<open>State\<close>

datatype raw = Payload time string | Malformed

datatype io = Done | Failed | Lost

datatype write_err = NoErr | EncodingErr | ErrPropagation

record keyState =
  ks_entry :: drain_entry
  pending :: bool
  inflight :: int
  gen :: "64 word"
  released :: bool

definition zero_entry :: drain_entry where
  "zero_entry = \<lparr>Key = \<lparr>ServiceID = [], Operator_key = [], RPCType = []\<rparr>, Until = 0, Reason_text = []\<rparr>"

definition zero_state :: keyState where
  "zero_state = \<lparr>ks_entry = zero_entry, pending = False, inflight = 0, gen = 0, released = False\<rparr>"

record redis_store =
  mem :: mem_store
  follow :: string
  keys :: "(drain_key, keyState) gomap"

type_synonym redis_hash = "(string, raw) gomap"

definition NewRedisStore :: "string \<Rightarrow> redis_store" where
  "NewRedisStore follow' = \<lparr>mem = NewMemoryStore, follow = follow', keys = []\<rparr>"

definition json_max :: time where
  "json_max = 315537897600 * second"

definition marshal :: "drain_entry \<Rightarrow> raw option" where
  "marshal e = (if 0 \<le> Until e \<and> Until e < json_max then Some (Payload (Until e) (Reason_text e)) else None)"

definition hset :: "io \<Rightarrow> string \<Rightarrow> raw \<Rightarrow> redis_hash \<Rightarrow> bool \<times> redis_hash" where
  "hset io f v h = (io = Done, if io = Failed then h else AList.update f v h)"

definition hdel :: "io \<Rightarrow> string \<Rightarrow> redis_hash \<Rightarrow> bool \<times> redis_hash" where
  "hdel io f h = (io = Done, if io = Failed then h else AList.delete f h)"

section \<open>Steps\<close>

definition propagate :: "io \<Rightarrow> redis_hash \<Rightarrow> drain_entry \<Rightarrow> time \<Rightarrow> write_err \<times> redis_hash" where
  "propagate io h e now =
     (if Until e - now \<le> 0 then (NoErr, h)
      else case marshal e of
        None \<Rightarrow> (EncodingErr, h)
      | Some v \<Rightarrow> (case hset io (redisField (Key e)) v h of
            (ok, h') \<Rightarrow> (if ok then NoErr else ErrPropagation, h')))"

definition state :: "redis_store \<Rightarrow> drain_key \<Rightarrow> keyState" where
  "state s k = (case map_of (keys s) k of Some st \<Rightarrow> st | None \<Rightarrow> zero_state)"

definition forget :: "redis_store \<Rightarrow> drain_key \<Rightarrow> keyState \<Rightarrow> redis_store" where
  "forget s k st =
     (if \<not> pending st \<and> inflight st = 0 then s\<lparr>keys := AList.delete k (keys s)\<rparr>
      else s\<lparr>keys := AList.update k st (keys s)\<rparr>)"

definition beginSet :: "redis_store \<Rightarrow> drain_entry \<Rightarrow> 64 word \<times> redis_store" where
  "beginSet s e =
     (let st = state s (Key e);
          st' = st\<lparr>gen := gen st + 1, released := False, ks_entry := e, inflight := inflight st + 1\<rparr>
      in (gen st', s\<lparr>keys := AList.update (Key e) st' (keys s)\<rparr>))"

definition beginRelease :: "redis_store \<Rightarrow> drain_key \<Rightarrow> redis_store" where
  "beginRelease s k =
     (let st = state s k
      in forget s k (st\<lparr>gen := gen st + 1, released := True, pending := False, ks_entry := zero_entry\<rparr>))"

text \<open>The entry to keep (if any), whether to undo the write, and the new record.\<close>

definition finishWrite :: "redis_store \<Rightarrow> drain_entry \<Rightarrow> 64 word \<Rightarrow> write_err \<Rightarrow>
    drain_entry option \<times> bool \<times> redis_store" where
  "finishWrite s e g err =
     (let st = state s (Key e); st = st\<lparr>inflight := inflight st - 1\<rparr> in
      if gen st \<noteq> g \<and> released st then (None, True, forget s (Key e) st)
      else if gen st \<noteq> g then
        (let st = st\<lparr>pending := True\<rparr> in (Some (ks_entry st), False, forget s (Key e) st))
      else
        (let st = (if err \<noteq> NoErr
                   then (let p = (err = ErrPropagation); st = st\<lparr>pending := p\<rparr>
                         in if p then st\<lparr>ks_entry := e\<rparr> else st)
                   else st\<lparr>pending := False\<rparr>)
         in (Some e, False, forget s (Key e) st)))"

definition compensate :: "io \<Rightarrow> bool \<Rightarrow> drain_key \<Rightarrow> redis_hash \<Rightarrow> redis_hash" where
  "compensate io c k h = (if c then snd (hdel io (redisField k) h) else h)"

definition del :: "io \<Rightarrow> redis_hash \<Rightarrow> drain_key \<Rightarrow> write_err \<times> redis_hash" where
  "del io h k = (case hdel io (redisField k) h of (ok, h') \<Rightarrow> (if ok then NoErr else ErrPropagation, h'))"

definition lower_entry :: "drain_entry \<Rightarrow> drain_entry" where
  "lower_entry e = e\<lparr>Key := lower_key (Key e)\<rparr>"

definition Set_redis :: "io \<Rightarrow> io \<Rightarrow> redis_store \<Rightarrow> redis_hash \<Rightarrow> drain_entry \<Rightarrow> time \<Rightarrow>
    write_err \<times> redis_store \<times> redis_hash" where
  "Set_redis io1 io2 s h e now =
     (let e = lower_entry e; s1 = s\<lparr>mem := Set_mem (mem s) e now\<rparr> in
      if Until e - now \<le> 0
      then (let s2 = beginRelease s1 (Key e) in case del io1 h (Key e) of (err, h') \<Rightarrow> (err, s2, h'))
      else case beginSet s1 e of (g, s2) \<Rightarrow>
        (case propagate io1 h e now of (err, h1) \<Rightarrow>
          (case finishWrite s2 e g err of (_, c, s3) \<Rightarrow>
            (err, s3, compensate io2 c (Key e) h1))))"

definition Release_redis :: "io \<Rightarrow> redis_store \<Rightarrow> redis_hash \<Rightarrow> drain_key \<Rightarrow> time \<Rightarrow>
    write_err \<times> redis_store \<times> redis_hash" where
  "Release_redis io s h k now =
     (let k = lower_key k; s1 = s\<lparr>mem := Release_mem (mem s) k now\<rparr>; s2 = beginRelease s1 k
      in case del io h k of (err, h') \<Rightarrow> (err, s2, h'))"

definition take_retry :: "time \<Rightarrow> keyState \<Rightarrow> bool" where
  "take_retry now st \<longleftrightarrow> pending st \<and> Until (ks_entry st) > now"

definition after_take :: "time \<Rightarrow> drain_key \<times> keyState \<Rightarrow> (drain_key \<times> keyState) list" where
  "after_take now kst = (case kst of (k, st) \<Rightarrow>
     if \<not> pending st then [(k, st)]
     else if \<not> Until (ks_entry st) > now
     then (let st' = st\<lparr>pending := False, ks_entry := zero_entry\<rparr>
           in if inflight st' = 0 then [] else [(k, st')])
     else [(k, st\<lparr>inflight := inflight st + 1\<rparr>)])"

definition takePending :: "redis_store \<Rightarrow> time \<Rightarrow> (drain_entry \<times> 64 word) list \<times> redis_store" where
  "takePending s now =
     (map (\<lambda>(_, st). (ks_entry st, gen st)) (filter (\<lambda>(_, st). take_retry now st) (keys s)),
      s\<lparr>keys := concat (map (after_take now) (keys s))\<rparr>)"

definition retry_one :: "(drain_key \<Rightarrow> io) \<Rightarrow> time \<Rightarrow> drain_entry \<times> 64 word \<Rightarrow>
    redis_store \<times> redis_hash \<times> (drain_key, drain_entry) gomap \<Rightarrow>
    redis_store \<times> redis_hash \<times> (drain_key, drain_entry) gomap" where
  "retry_one io now r w = (case r of (e, g) \<Rightarrow> case w of (s, h, nxt) \<Rightarrow>
     case propagate (io (Key e)) h e now of (err, h1) \<Rightarrow>
     case finishWrite s e g err of (keep, c, s') \<Rightarrow>
       (s', compensate (io (Key e)) c (Key e) h1,
        (case keep of None \<Rightarrow> nxt
         | Some live \<Rightarrow> if Until live > now then AList.update (Key live) live nxt else nxt)))"

definition reconcilePending :: "(drain_key \<Rightarrow> io) \<Rightarrow> redis_store \<Rightarrow> redis_hash \<Rightarrow> (drain_key, drain_entry) gomap \<Rightarrow>
    time \<Rightarrow> redis_store \<times> redis_hash \<times> (drain_key, drain_entry) gomap" where
  "reconcilePending io s h nxt now =
     (case takePending s now of (rs, s1) \<Rightarrow> fold (retry_one io now) rs (s1, h, nxt))"

definition snapshot_one :: "string \<Rightarrow> time \<Rightarrow> string \<times> raw \<Rightarrow> (drain_key, drain_entry) gomap \<Rightarrow> (drain_key, drain_entry) gomap" where
  "snapshot_one fol now fv nxt =
     (case parseRedisField (fst fv) of
        None \<Rightarrow> nxt
      | Some k \<Rightarrow>
          (case snd fv of
             Malformed \<Rightarrow> nxt
           | Payload until reason \<Rightarrow>
               if \<not> until > now then nxt
               else if fol \<noteq> [] \<and> \<not> prefix fol reason then nxt
               else AList.update k \<lparr>Key = k, Until = until, Reason_text = reason\<rparr> nxt))"

definition expired_fields :: "time \<Rightarrow> redis_hash \<Rightarrow> string list" where
  "expired_fields now all =
     map fst (filter (\<lambda>(f, v). parseRedisField f \<noteq> None \<and>
       (case v of Malformed \<Rightarrow> False | Payload until _ \<Rightarrow> \<not> until > now)) all)"

definition refresh :: "io \<Rightarrow> (drain_key \<Rightarrow> io) \<Rightarrow> io \<Rightarrow> redis_store \<Rightarrow> redis_hash \<Rightarrow> time \<Rightarrow> time \<Rightarrow>
    redis_store \<times> redis_hash" where
  "refresh io_read io io_del s h began now =
     (if io_read \<noteq> Done then (s, h)
      else
        let nxt = fold (snapshot_one (follow s) now) h [];
            expired = expired_fields now h
        in case reconcilePending io s h nxt now of (s1, h1, nxt1) \<Rightarrow>
          (s1\<lparr>mem := replaceAll (mem s1) nxt1 began now\<rparr>,
           if expired \<noteq> [] \<and> follow s = [] \<and> io_del \<noteq> Failed
           then fold AList.delete expired h1 else h1))"

section \<open>Fields round-trip\<close>

lemma colon_to_lower: "CHR '':'' \<notin> set s \<Longrightarrow> CHR '':'' \<notin> set (to_lower s)"
proof -
  have "to_lower_char c = CHR '':'' \<Longrightarrow> c = CHR '':''" for c
  proof (rule ccontr)
    assume eq: "to_lower_char c = CHR '':''" and "c \<noteq> CHR '':''"
    then have b: "65 \<le> (of_char c :: nat)" "(of_char c :: nat) \<le> 90" and "char_of ((of_char c :: nat) + 32) = CHR '':''"
      by (auto simp: to_lower_char_def Let_def split: if_splits)
    then have "of_char (char_of ((of_char c :: nat) + 32) :: char) = (58 :: nat)" by simp
    with b show False by simp
  qed
  then show "CHR '':'' \<notin> set s \<Longrightarrow> CHR '':'' \<notin> set (to_lower s)" by (force simp: to_lower_def)
qed

definition plain_key :: "drain_key \<Rightarrow> bool" where
  "plain_key k \<longleftrightarrow> ServiceID k \<noteq> [] \<and> Operator_key k \<noteq> [] \<and> RPCType k \<noteq> allRPCTypes \<and>
     CHR '':'' \<notin> set (ServiceID k) \<and> CHR '':'' \<notin> set (Operator_key k) \<and> CHR '':'' \<notin> set (RPCType k)"

lemma parse_redisField:
  assumes "plain_key k"
  shows "parseRedisField (redisField k) = Some (lower_key k)"
proof -
  have "str_split CHR '':'' (redisField k) =
      [ServiceID k, to_lower (Operator_key k), if RPCType k = [] then allRPCTypes else RPCType k]"
    using assms colon_to_lower [of "Operator_key k"]
    by (simp add: redisField_def Let_def plain_key_def str_split_append str_split_none allRPCTypes_def)
  then show ?thesis
    using assms by (cases k) (auto simp: parseRedisField_def plain_key_def lower_key_def to_lower_def allRPCTypes_def)
qed

lemma redisField_inj:
  assumes "plain_key a" and "plain_key b" and "redisField a = redisField b"
  shows "lower_key a = lower_key b"
  using parse_redisField [OF assms(1)] parse_redisField [OF assms(2)] assms(3) by simp

section \<open>Records\<close>

text \<open>Every record has something left to remember, its count of writes is a count, and the local
  store is well-formed.\<close>

definition record_ok :: "drain_key \<Rightarrow> keyState \<Rightarrow> bool" where
  "record_ok k st \<longleftrightarrow> inflight st = 0 \<and> pending st \<and> Key (ks_entry st) = k"

definition redis_ok :: "redis_store \<Rightarrow> bool" where
  "redis_ok s \<longleftrightarrow> mem_ok (mem s) \<and> gomap_ok (keys s) \<and>
     (\<forall>k st. map_of (keys s) k = Some st \<longrightarrow> record_ok k st)"

lemma lower_entry_simps [simp]:
  "Until (lower_entry e) = Until e" "Key (lower_entry e) = lower_key (Key e)"
  "Reason_text (lower_entry e) = Reason_text e"
  by (simp_all add: lower_entry_def)

lemma redis_okD:
  assumes "redis_ok s" and "map_of (keys s) k = Some st"
  shows "inflight st = 0" "pending st" "Key (ks_entry st) = k"
  using assms by (auto simp: redis_ok_def record_ok_def)

lemma redis_ok_in:
  assumes "redis_ok s" and "(k, st) \<in> set (keys s)"
  shows "map_of (keys s) k = Some st" "inflight st = 0" "pending st" "Key (ks_entry st) = k"
proof -
  show m: "map_of (keys s) k = Some st" using assms by (simp add: redis_ok_def gomap_in_set)
  show "inflight st = 0" "pending st" "Key (ks_entry st) = k" using redis_okD [OF assms(1) m] .
qed

lemma state_idle: "redis_ok s \<Longrightarrow> inflight (state s k) = 0"
  by (cases "map_of (keys s) k") (simp_all add: state_def zero_state_def redis_okD)

lemma forget_map:
  "map_of (keys (forget s k st)) j =
     (if j = k then (if \<not> pending st \<and> inflight st = 0 then None else Some st) else map_of (keys s) j)"
  by (simp add: forget_def gomap_simps)

lemma forget_frame [simp]:
  "mem (forget s k st) = mem s" "follow (forget s k st) = follow s"
  "gomap_ok (keys s) \<Longrightarrow> gomap_ok (keys (forget s k st))"
  by (auto simp: forget_def)

lemma finishWrite_frame [simp]:
  "mem (snd (snd (finishWrite s e g err))) = mem s" "follow (snd (snd (finishWrite s e g err))) = follow s"
  "gomap_ok (keys s) \<Longrightarrow> gomap_ok (keys (snd (snd (finishWrite s e g err))))"
  "k \<noteq> Key e \<Longrightarrow> map_of (keys (snd (snd (finishWrite s e g err)))) k = map_of (keys s) k"
  by (auto simp: finishWrite_def Let_def forget_map)

lemma finishWrite_current:
  assumes "map_of (keys s) (Key e) = Some st" and "gen st = g" and "inflight st = 1"
  obtains s' where "finishWrite s e g err = (Some e, False, s')"
    and "map_of (keys s') (Key e) =
      (if err = ErrPropagation then Some (st\<lparr>inflight := 0, pending := True, ks_entry := e\<rparr>) else None)"
    and "mem s' = mem s" and "follow s' = follow s" and "gomap_ok (keys s) \<Longrightarrow> gomap_ok (keys s')"
    and "\<And>k. k \<noteq> Key e \<Longrightarrow> map_of (keys s') k = map_of (keys s) k"
proof -
  let ?s' = "snd (snd (finishWrite s e g err))"
  have "finishWrite s e g err = (Some e, False, ?s')"
    and "map_of (keys ?s') (Key e) =
      (if err = ErrPropagation then Some (st\<lparr>inflight := 0, pending := True, ks_entry := e\<rparr>) else None)"
    using assms by (cases err; simp add: finishWrite_def Let_def state_def forget_map)+
  with that finishWrite_frame show thesis by blast
qed

definition propagate_err :: "io \<Rightarrow> drain_entry \<Rightarrow> time \<Rightarrow> write_err" where
  "propagate_err io e now =
     (if Until e - now \<le> 0 then NoErr else if marshal e = None then EncodingErr
      else if io = Done then NoErr else ErrPropagation)"

lemma propagate_result:
  obtains h' where "propagate io h e now = (propagate_err io e now, h')"
  by (cases "propagate io h e now")
    (auto simp: propagate_def propagate_err_def hset_def split: option.splits if_splits)

lemma redis_ok_mem: "redis_ok s \<Longrightarrow> mem_ok m \<Longrightarrow> redis_ok (s\<lparr>mem := m\<rparr>)"
  by (simp add: redis_ok_def)

text \<open>The record a sequential write leaves: none, or a pending one when Redis did not take it.\<close>

lemma Set_redis_live:
  assumes ok: "redis_ok s" and live: "now < Until e"
    and r: "Set_redis io1 io2 s h e now = (err, s', h')"
    and e': "e' = lower_entry e"
  shows "err = propagate_err io1 e' now \<and> mem s' = Set_mem (mem s) e' now \<and> h' = snd (propagate io1 h e' now) \<and>
    follow s' = follow s \<and> redis_ok s' \<and>
    (\<forall>k. k \<noteq> Key e' \<longrightarrow> map_of (keys s') k = map_of (keys s) k) \<and>
    (if err = ErrPropagation then \<exists>st. map_of (keys s') (Key e') = Some st \<and> pending st \<and> ks_entry st = e'
     else map_of (keys s') (Key e') = None)"
proof -
  let ?s1 = "s\<lparr>mem := Set_mem (mem s) e' now\<rparr>"
  define st where "st = state ?s1 (Key e')"
  have st0: "inflight st = 0"
    using state_idle [OF ok] by (simp add: st_def state_def)
  define st1 where "st1 = st\<lparr>gen := gen st + 1, released := False, ks_entry := e', inflight := 1\<rparr>"
  let ?s2 = "?s1\<lparr>keys := AList.update (Key e') st1 (keys s)\<rparr>"
  let ?err = "propagate_err io1 e' now"
  have bs: "beginSet ?s1 e' = (gen st1, ?s2)"
    by (simp add: beginSet_def Let_def st_def [symmetric] st1_def st0)
  have k1: "map_of (keys ?s2) (Key e') = Some st1" by (simp add: gomap_simps)
  obtain s3 where fw: "finishWrite ?s2 e' (gen st1) ?err = (Some e', False, s3)"
    and fk: "map_of (keys s3) (Key e') =
      (if ?err = ErrPropagation then Some (st1\<lparr>inflight := 0, pending := True, ks_entry := e'\<rparr>) else None)"
    and mem3: "mem s3 = Set_mem (mem s) e' now" "follow s3 = follow s" and gm: "gomap_ok (keys s3)"
    and other: "\<And>k. k \<noteq> Key e' \<Longrightarrow> map_of (keys s3) k = map_of (keys s) k"
    using finishWrite_current [OF k1, of "gen st1" ?err] ok
    by (auto simp: st1_def redis_ok_def gomap_simps)
  obtain h1 where pr: "propagate io1 h e' now = (?err, h1)" by (rule propagate_result)
  have "Set_redis io1 io2 s h e now = (?err, s3, h1)"
    using live bs fw pr by (simp add: Set_redis_def Let_def e' [symmetric] compensate_def) (simp add: e')
  then have s3: "s' = s3" "err = ?err" "h' = snd (propagate io1 h e' now)" using r pr by auto
  have "record_ok k x" if "map_of (keys s3) k = Some x" for k x
    using that fk other [of k] ok by (cases "k = Key e'") (auto simp: redis_ok_def record_ok_def split: if_splits)
  then have "redis_ok s3" using gm mem3 ok Set_mem_ok by (simp add: redis_ok_def)
  then show ?thesis using s3 fk other mem3 by auto
qed

lemma beginRelease_ok:
  assumes "redis_ok s"
  shows "redis_ok (beginRelease s k)" "mem (beginRelease s k) = mem s"
    "map_of (keys (beginRelease s k)) j = (if j = k then None else map_of (keys s) j)"
proof -
  have b: "beginRelease s k = s\<lparr>keys := AList.delete k (keys s)\<rparr>"
    using state_idle [OF assms, of k] by (simp add: beginRelease_def Let_def forget_def)
  show "redis_ok (beginRelease s k)" "mem (beginRelease s k) = mem s"
    "map_of (keys (beginRelease s k)) j = (if j = k then None else map_of (keys s) j)"
    using assms by (auto simp: b redis_ok_def gomap_simps split: if_splits)
qed

lemma Release_redis_state:
  assumes "redis_ok s"
  shows "fst (snd (Release_redis io s h k now)) = beginRelease (s\<lparr>mem := Release_mem (mem s) k now\<rparr>) (lower_key k)"
  by (simp add: Release_redis_def Let_def lower_key_def Release_mem_def split: prod.splits)

lemma Set_redis_expired:
  assumes "\<not> now < Until e"
  shows "fst (snd (Set_redis io1 io2 s h e now)) =
    beginRelease (s\<lparr>mem := Set_mem (mem s) (lower_entry e) now\<rparr>) (lower_key (Key e))"
  using assms by (simp add: Set_redis_def Let_def split: prod.splits)

section \<open>The refresh\<close>

lemma takePending_keys:
  assumes "redis_ok s"
  shows "keys (snd (takePending s now)) =
    map (\<lambda>(k, st). (k, st\<lparr>inflight := 1\<rparr>)) (keep_entries (\<lambda>_ st. now < Until (ks_entry st)) (keys s))"
proof -
  have "concat (map (after_take now) ks) =
      map (\<lambda>(k, st). (k, st\<lparr>inflight := 1\<rparr>)) (keep_entries (\<lambda>_ st. now < Until (ks_entry st)) ks)"
    if "\<forall>(k, st) \<in> set ks. inflight st = 0 \<and> pending st" for ks
    using that by (induction ks) (auto simp: after_take_def keep_entries_def)
  moreover have "\<forall>(k, st) \<in> set (keys s). inflight st = 0 \<and> pending st"
    using redis_ok_in [OF assms] by auto
  ultimately show ?thesis by (simp add: takePending_def)
qed

lemma takePending_frame:
  assumes "redis_ok s"
  shows "mem (snd (takePending s now)) = mem s" "follow (snd (takePending s now)) = follow s"
    "gomap_ok (keys (snd (takePending s now)))"
    "map_of (keys (snd (takePending s now))) k =
      (case map_of (keys s) k of None \<Rightarrow> None
       | Some st \<Rightarrow> if now < Until (ks_entry st) then Some (st\<lparr>inflight := 1\<rparr>) else None)"
proof -
  have gm: "gomap_ok (keys s)" using assms by (simp add: redis_ok_def)
  show "mem (snd (takePending s now)) = mem s" "follow (snd (takePending s now)) = follow s"
    by (simp_all add: takePending_def)
  show "gomap_ok (keys (snd (takePending s now)))"
    using gm by (simp add: takePending_keys [OF assms] gomap_ok_map_snd)
  show "map_of (keys (snd (takePending s now))) k =
      (case map_of (keys s) k of None \<Rightarrow> None
       | Some st \<Rightarrow> if now < Until (ks_entry st) then Some (st\<lparr>inflight := 1\<rparr>) else None)"
    using gm by (simp add: takePending_keys [OF assms] map_of_map_snd gomap_simps split: option.splits)
qed

definition settled :: "(drain_key \<Rightarrow> io) \<Rightarrow> time \<Rightarrow> redis_store \<Rightarrow> (drain_key, drain_entry) gomap \<Rightarrow> drain_entry \<Rightarrow> bool" where
  "settled io now s nxt e \<longleftrightarrow> map_of nxt (Key e) = Some e \<and>
     (if propagate_err (io (Key e)) e now = ErrPropagation
      then \<exists>st. map_of (keys s) (Key e) = Some st \<and> pending st \<and> inflight st = 0 \<and> ks_entry st = e
      else map_of (keys s) (Key e) = None)"

definition taken :: "redis_store \<Rightarrow> time \<Rightarrow> (drain_entry \<times> 64 word) list \<Rightarrow> bool" where
  "taken s now rs \<longleftrightarrow> gomap_ok (keys s) \<and> distinct (map (Key \<circ> fst) rs) \<and>
     (\<forall>(e, g) \<in> set rs. now < Until e \<and>
       (\<exists>st. map_of (keys s) (Key e) = Some st \<and> gen st = g \<and> inflight st = 1))"

lemma takePending_taken:
  assumes "redis_ok s"
  shows "taken (snd (takePending s now)) now (fst (takePending s now))"
    "(\<exists>g. (e, g) \<in> set (fst (takePending s now))) \<longleftrightarrow>
      (\<exists>st. map_of (keys s) (Key e) = Some st \<and> ks_entry st = e \<and> now < Until e)"
    "map_of (keys (snd (takePending s now))) k \<noteq> None \<longleftrightarrow> k \<in> (Key \<circ> fst) ` set (fst (takePending s now))"
proof -
  let ?rs = "fst (takePending s now)"
  have gm: "gomap_ok (keys s)" using assms by (simp add: redis_ok_def)
  have mem: "(e, g) \<in> set ?rs \<longleftrightarrow> (\<exists>st. map_of (keys s) (Key e) = Some st \<and> ks_entry st = e \<and> gen st = g \<and> now < Until e)" for e g
  proof
    assume "(e, g) \<in> set ?rs"
    then obtain k st where "(k, st) \<in> set (keys s)" "e = ks_entry st" "g = gen st" "now < Until e"
      by (auto simp: takePending_def take_retry_def)
    moreover from this redis_ok_in(4) [OF assms] have "Key e = k" by blast
    ultimately show "\<exists>st. map_of (keys s) (Key e) = Some st \<and> ks_entry st = e \<and> gen st = g \<and> now < Until e"
      using gm by (auto simp: gomap_in_set)
  next
    assume "\<exists>st. map_of (keys s) (Key e) = Some st \<and> ks_entry st = e \<and> gen st = g \<and> now < Until e"
    then obtain st where st: "map_of (keys s) (Key e) = Some st" "ks_entry st = e" "gen st = g" "now < Until e" by blast
    then have "(Key e, st) \<in> set (keys s)" "pending st"
      using redis_okD(2) [OF assms] gm by (simp_all add: gomap_in_set)
    with st show "(e, g) \<in> set ?rs" by (force simp: takePending_def take_retry_def)
  qed
  show "(\<exists>g. (e, g) \<in> set ?rs) \<longleftrightarrow>
      (\<exists>st. map_of (keys s) (Key e) = Some st \<and> ks_entry st = e \<and> now < Until e)"
    by (auto simp: mem)
  have "map (Key \<circ> fst) ?rs = map fst (filter (\<lambda>(_, st). take_retry now st) (keys s))"
    using redis_ok_in(4) [OF assms] by (auto simp: takePending_def)
  then have "distinct (map (Key \<circ> fst) ?rs)"
    using gm by (simp add: gomap_ok_def distinct_map_filter)
  then show "taken (snd (takePending s now)) now ?rs"
    using takePending_frame [OF assms] by (auto simp: taken_def mem)
  show "map_of (keys (snd (takePending s now))) k \<noteq> None \<longleftrightarrow> k \<in> (Key \<circ> fst) ` set ?rs"
  proof
    assume "map_of (keys (snd (takePending s now))) k \<noteq> None"
    then obtain st where st: "map_of (keys s) k = Some st" "now < Until (ks_entry st)"
      by (auto simp: takePending_frame [OF assms] split: option.splits if_splits)
    moreover have "Key (ks_entry st) = k" by (rule redis_okD(3) [OF assms st(1)])
    ultimately have "(ks_entry st, gen st) \<in> set ?rs" by (simp add: mem)
    with \<open>Key (ks_entry st) = k\<close> show "k \<in> (Key \<circ> fst) ` set ?rs" by force
  next
    assume "k \<in> (Key \<circ> fst) ` set ?rs"
    then show "map_of (keys (snd (takePending s now))) k \<noteq> None"
      by (auto simp: takePending_frame [OF assms] mem)
  qed
qed

text \<open>A retry keeps its entry in the replacement map, and its record exactly when Redis did not
  take the write.\<close>

lemma retry_one_step:
  assumes "map_of (keys s) (Key e) = Some st" "gen st = g" "inflight st = 1" "now < Until e"
  shows "\<exists>s1. retry_one io now (e, g) (s, h, nxt) =
      (s1, snd (propagate (io (Key e)) h e now), AList.update (Key e) e nxt) \<and>
    mem s1 = mem s \<and> follow s1 = follow s \<and> (gomap_ok (keys s) \<longrightarrow> gomap_ok (keys s1)) \<and>
    (\<forall>k. map_of (keys s1) k = (if k = Key e
      then (if propagate_err (io (Key e)) e now = ErrPropagation
            then Some (st\<lparr>inflight := 0, pending := True, ks_entry := e\<rparr>) else None)
      else map_of (keys s) k))"
proof -
  let ?err = "propagate_err (io (Key e)) e now"
  obtain s1 where fw: "finishWrite s e g ?err = (Some e, False, s1)"
    and s1: "map_of (keys s1) (Key e) = (if ?err = ErrPropagation
        then Some (st\<lparr>inflight := 0, pending := True, ks_entry := e\<rparr>) else None)"
      "mem s1 = mem s" "follow s1 = follow s" "gomap_ok (keys s) \<Longrightarrow> gomap_ok (keys s1)"
      "\<And>k. k \<noteq> Key e \<Longrightarrow> map_of (keys s1) k = map_of (keys s) k"
    using finishWrite_current [OF assms(1-3), of ?err] by metis
  obtain h1 where pr: "propagate (io (Key e)) h e now = (?err, h1)" by (rule propagate_result)
  have "retry_one io now (e, g) (s, h, nxt) = (s1, h1, AList.update (Key e) e nxt)"
    using assms(4) fw pr by (simp add: retry_one_def compensate_def)
  with s1 pr show ?thesis by (intro exI [of _ s1]) auto
qed

lemma retry_fold:
  assumes "taken s now rs" and "fold (retry_one io now) rs (s, h, nxt) = (s', h', nxt')"
  shows "mem s' = mem s \<and> follow s' = follow s \<and> gomap_ok (keys s') \<and>
    (gomap_ok nxt \<longrightarrow> gomap_ok nxt') \<and> (keyed nxt \<longrightarrow> keyed nxt') \<and>
    (\<forall>k. k \<notin> (Key \<circ> fst) ` set rs \<longrightarrow> map_of nxt' k = map_of nxt k \<and> map_of (keys s') k = map_of (keys s) k) \<and>
    (\<forall>r \<in> set rs. settled io now s' nxt' (fst r))"
  using assms
proof (induction rs arbitrary: s h nxt)
  case Nil
  then show ?case by (simp add: taken_def)
next
  case (Cons r rs)
  obtain e g where r: "r = (e, g)" by (cases r)
  from Cons.prems(1) obtain st where st: "map_of (keys s) (Key e) = Some st" "gen st = g" "inflight st = 1" "now < Until e"
    by (auto simp: taken_def r)
  from retry_one_step [OF st, of io h nxt] obtain s1 where
    one: "retry_one io now (e, g) (s, h, nxt) = (s1, snd (propagate (io (Key e)) h e now), AList.update (Key e) e nxt)"
    and s1: "mem s1 = mem s" "follow s1 = follow s" "gomap_ok (keys s) \<longrightarrow> gomap_ok (keys s1)"
      "\<And>k. map_of (keys s1) k = (if k = Key e
      then (if propagate_err (io (Key e)) e now = ErrPropagation
            then Some (st\<lparr>inflight := 0, pending := True, ks_entry := e\<rparr>) else None)
      else map_of (keys s) k)" by blast
  have fresh: "Key e \<notin> (Key \<circ> fst) ` set rs" using Cons.prems(1) by (auto simp: taken_def r)
  have t1: "taken s1 now rs" unfolding taken_def
  proof (intro conjI ballI)
    show "gomap_ok (keys s1)" using Cons.prems(1) s1(3) by (simp add: taken_def)
    show "distinct (map (Key \<circ> fst) rs)" using Cons.prems(1) by (simp add: taken_def)
    fix r2 assume r2: "r2 \<in> set rs"
    then have "Key (fst r2) \<noteq> Key e" using fresh by (metis comp_apply imageI)
    then have "map_of (keys s1) (Key (fst r2)) = map_of (keys s) (Key (fst r2))" by (simp add: s1(4))
    moreover from Cons.prems(1) r2 have "case r2 of (e, g) \<Rightarrow> now < Until e \<and>
       (\<exists>st. map_of (keys s) (Key e) = Some st \<and> gen st = g \<and> inflight st = 1)" by (simp add: taken_def)
    ultimately show "case r2 of (e, g) \<Rightarrow> now < Until e \<and>
       (\<exists>st. map_of (keys s1) (Key e) = Some st \<and> gen st = g \<and> inflight st = 1)" by (cases r2) simp
  qed
  have "fold (retry_one io now) rs (s1, snd (propagate (io (Key e)) h e now), AList.update (Key e) e nxt) = (s', h', nxt')"
    using Cons.prems(2) one by (simp add: r)
  note IH = Cons.IH [OF t1 this]
  have "map_of nxt' (Key e) = Some e" "map_of (keys s') (Key e) = map_of (keys s1) (Key e)"
    using IH fresh by (simp_all add: gomap_simps)
  then have here: "settled io now s' nxt' e" by (simp add: settled_def s1(4))
  have out: "map_of nxt' k = map_of nxt k \<and> map_of (keys s') k = map_of (keys s) k"
    if "k \<notin> (Key \<circ> fst) ` set (r # rs)" for k
    using that IH by (simp add: r gomap_simps s1(4))
  have wf: "(gomap_ok nxt \<longrightarrow> gomap_ok nxt') \<and> (keyed nxt \<longrightarrow> keyed nxt')"
    using IH by (simp add: keyed_update)
  show ?case
    using IH s1(1,2) here out wf by (simp add: r)
qed

lemma snapshot_fold_ok:
  "gomap_ok nxt \<Longrightarrow> keyed nxt \<Longrightarrow>
   gomap_ok (fold (snapshot_one fol now) h nxt) \<and> keyed (fold (snapshot_one fol now) h nxt)"
proof (induction h arbitrary: nxt)
  case (Cons fv h)
  have "gomap_ok (snapshot_one fol now fv nxt)" "keyed (snapshot_one fol now fv nxt)"
    using Cons.prems by (auto simp: snapshot_one_def keyed_update split: option.splits raw.splits)
  with Cons.IH show ?case by simp
qed simp

text \<open>What one refresh that could read Redis does, in terms of its two halves.\<close>

lemma refresh_read:
  assumes ok: "redis_ok s"
  obtains s1 h1 nxt1 where
    "fst (refresh Done io io_del s h began now) = s1\<lparr>mem := replaceAll (mem s) nxt1 began now\<rparr>"
    "follow s1 = follow s" "gomap_ok (keys s1)" "gomap_ok nxt1" "keyed nxt1"
    "\<And>k. map_of (keys s) k = None \<Longrightarrow> map_of nxt1 k = map_of (fold (snapshot_one (follow s) now) h []) k \<and> map_of (keys s1) k = None"
    "\<And>k st. map_of (keys s) k = Some st \<Longrightarrow> now < Until (ks_entry st) \<Longrightarrow> settled io now s1 nxt1 (ks_entry st)"
    "\<And>k st. map_of (keys s) k = Some st \<Longrightarrow> \<not> now < Until (ks_entry st) \<Longrightarrow> map_of (keys s1) k = None"
proof -
  let ?nxt = "fold (snapshot_one (follow s) now) h []"
  obtain rs s0 where tp: "takePending s now = (rs, s0)" by (cases "takePending s now")
  obtain s1 h1 nxt1 where f: "fold (retry_one io now) rs (s0, h, ?nxt) = (s1, h1, nxt1)"
    by (cases "fold (retry_one io now) rs (s0, h, ?nxt)")
  have t: "taken s0 now rs" using takePending_taken(1) [OF ok, of now] tp by simp
  note rf = retry_fold [OF t f]
  have mem: "mem s1 = mem s" "follow s1 = follow s" using rf takePending_frame(1,2) [OF ok, of now] tp by auto
  have rec: "reconcilePending io s h ?nxt now = (s1, h1, nxt1)" by (simp add: reconcilePending_def tp f)
  have keyrs: "k \<in> (Key \<circ> fst) ` set rs \<longleftrightarrow> map_of (keys s0) k \<noteq> None" for k
    using takePending_taken(3) [OF ok, of now k] tp by simp
  have k0: "map_of (keys s0) k = (case map_of (keys s) k of None \<Rightarrow> None
       | Some st \<Rightarrow> if now < Until (ks_entry st) then Some (st\<lparr>inflight := 1\<rparr>) else None)" for k
    using takePending_frame(4) [OF ok, of now k] tp by simp
  have snap: "gomap_ok ?nxt" "keyed ?nxt" using snapshot_fold_ok [of "[]"] by auto
  show thesis
  proof (rule that)
    show "fst (refresh Done io io_del s h began now) = s1\<lparr>mem := replaceAll (mem s) nxt1 began now\<rparr>"
      by (simp add: refresh_def Let_def rec mem)
    show "follow s1 = follow s" "gomap_ok (keys s1)" "gomap_ok nxt1" "keyed nxt1" using rf mem snap by simp_all
    show "map_of nxt1 k = map_of ?nxt k \<and> map_of (keys s1) k = None" if "map_of (keys s) k = None" for k
      using that rf keyrs [of k] k0 [of k] by simp
    show "map_of (keys s1) k = None" if "map_of (keys s) k = Some st" "\<not> now < Until (ks_entry st)" for k st
      using that rf keyrs [of k] k0 [of k] by simp
    show "settled io now s1 nxt1 (ks_entry st)" if st: "map_of (keys s) k = Some st" "now < Until (ks_entry st)" for k st
    proof -
      have "map_of (keys s) (Key (ks_entry st)) = Some st" using st redis_okD(3) [OF ok st(1)] by simp
      then obtain g where "(ks_entry st, g) \<in> set rs"
        using takePending_taken(2) [OF ok, of "ks_entry st" now] st(2) tp by auto
      then show ?thesis using rf by force
    qed
  qed
qed

lemma refresh_ok:
  assumes ok: "redis_ok s"
  shows "redis_ok (fst (refresh io_read io io_del s h began now))"
proof (cases "io_read = Done")
  case True
  obtain s1 h1 nxt1 where r:
    "fst (refresh Done io io_del s h began now) = s1\<lparr>mem := replaceAll (mem s) nxt1 began now\<rparr>"
    "gomap_ok (keys s1)" "gomap_ok nxt1" "keyed nxt1"
    "\<And>k. map_of (keys s) k = None \<Longrightarrow> map_of (keys s1) k = None"
    "\<And>k st. map_of (keys s) k = Some st \<Longrightarrow> now < Until (ks_entry st) \<Longrightarrow> settled io now s1 nxt1 (ks_entry st)"
    "\<And>k st. map_of (keys s) k = Some st \<Longrightarrow> \<not> now < Until (ks_entry st) \<Longrightarrow> map_of (keys s1) k = None"
    using refresh_read [OF ok, of io io_del h began now] by metis
  have "record_ok k x" if kx: "map_of (keys s1) k = Some x" for k x
  proof -
    obtain st where st: "map_of (keys s) k = Some st" using kx r(5) [of k] by fastforce
    have live: "now < Until (ks_entry st)" using r(7) [OF st] kx by fastforce
    have key: "Key (ks_entry st) = k" by (rule redis_okD(3) [OF ok st])
    from r(6) [OF st live] kx key show ?thesis
      by (auto simp: settled_def record_ok_def split: if_splits)
  qed
  moreover have "mem_ok (replaceAll (mem s) nxt1 began now)"
    using ok r(3,4) replaceAll_ok by (simp add: redis_ok_def)
  ultimately show ?thesis using True r(1,2) by (simp add: redis_ok_def)
qed (use ok in \<open>simp add: refresh_def\<close>)

section \<open>Sequences of calls\<close>

datatype drain_op =
    DoSet io io redis_hash drain_entry
  | DoRelease io redis_hash drain_key
  | DoRefresh io "drain_key \<Rightarrow> io" io redis_hash time

fun drain_step :: "redis_store \<Rightarrow> time \<Rightarrow> drain_op \<Rightarrow> redis_store" where
  "drain_step s now (DoSet io1 io2 h e) = fst (snd (Set_redis io1 io2 s h e now))"
| "drain_step s now (DoRelease io h k) = fst (snd (Release_redis io s h k now))"
| "drain_step s now (DoRefresh io_read io io_del h began) = fst (refresh io_read io io_del s h began now)"

fun run_drain_ops :: "redis_store \<Rightarrow> (time \<times> drain_op) list \<Rightarrow> redis_store" where
  "run_drain_ops s [] = s"
| "run_drain_ops s ((now, op) # ops) = run_drain_ops (drain_step s now op) ops"

text \<open>The calls that leave a key's decision alone: writes of other keys, and refreshes in which
  the key's retry does not get through.\<close>

fun leaves_key :: "drain_key \<Rightarrow> drain_op \<Rightarrow> bool" where
  "leaves_key k (DoSet _ _ _ e) \<longleftrightarrow> lower_key (Key e) \<noteq> k"
| "leaves_key k (DoRelease _ _ j) \<longleftrightarrow> lower_key j \<noteq> k"
| "leaves_key k (DoRefresh _ io _ _ _) \<longleftrightarrow> io k \<noteq> Done"

definition held :: "drain_entry \<Rightarrow> redis_store \<Rightarrow> bool" where
  "held e s \<longleftrightarrow> redis_ok s \<and> (\<exists>st. map_of (keys s) (Key e) = Some st \<and> ks_entry st = e) \<and>
     map_of (entries (mem s)) (Key e) = Some e \<and> map_of (releasedAt (mem s)) (Key e) = None"

lemma lower_key_idem [simp]: "lower_key (lower_key k) = lower_key k"
  by (simp add: lower_key_def)

lemma Set_mem_other:
  assumes "k \<noteq> lower_key (Key e)"
  shows "map_of (entries (Set_mem m e now)) k = map_of (entries m) k"
    "map_of (releasedAt (Set_mem m e now)) k = map_of (releasedAt m) k"
  using assms by (simp_all add: Set_mem_def Let_def gomap_simps)

lemma Release_mem_other:
  assumes "k \<noteq> lower_key j"
  shows "map_of (entries (Release_mem m j now)) k = map_of (entries m) k"
    "map_of (releasedAt (Release_mem m j now)) k = map_of (releasedAt m) k"
  using assms by (simp_all add: Release_mem_def Let_def gomap_simps)

lemma held_beginRelease:
  assumes "redis_ok s" "held e s" "mem_ok m" "Key e \<noteq> k"
    "map_of (entries m) (Key e) = map_of (entries (mem s)) (Key e)"
    "map_of (releasedAt m) (Key e) = map_of (releasedAt (mem s)) (Key e)"
  shows "held e (beginRelease (s\<lparr>mem := m\<rparr>) k)"
  using assms beginRelease_ok [OF redis_ok_mem [OF assms(1,3)], of k] by (simp add: held_def)

lemma held_step:
  assumes held: "held e s" and leaves: "leaves_key (Key e) op" and live: "now < Until e" and enc: "marshal e \<noteq> None"
  shows "held e (drain_step s now op)"
proof (cases op)
  case (DoSet io1 io2 h f)
  have ok: "redis_ok s" using held by (simp add: held_def)
  have mem: "mem_ok (Set_mem (mem s) (lower_entry f) now)" using ok Set_mem_ok by (simp add: redis_ok_def)
  have ne: "Key e \<noteq> lower_key (Key (lower_entry f))" using leaves DoSet by auto
  show ?thesis
  proof (cases "now < Until f")
    case True
    obtain err s' h' where r: "Set_redis io1 io2 s h f now = (err, s', h')" by (cases "Set_redis io1 io2 s h f now")
    from Set_redis_live [OF ok True r refl] held Set_mem_other [OF ne] ne show ?thesis
      by (simp add: DoSet r held_def)
  next
    case False
    with held_beginRelease [OF ok held mem] Set_mem_other [OF ne] ne show ?thesis
      by (simp add: DoSet Set_redis_expired)
  qed
next
  case (DoRelease io h j)
  have ok: "redis_ok s" using held by (simp add: held_def)
  have mem: "mem_ok (Release_mem (mem s) j now)" using ok Release_mem_ok by (simp add: redis_ok_def)
  have ne: "Key e \<noteq> lower_key j" using leaves DoRelease by auto
  from held_beginRelease [OF ok held mem ne] Release_mem_other [OF ne] show ?thesis
    by (simp add: DoRelease Release_redis_state [OF ok])
next
  case (DoRefresh io_read io io_del h began)
  have ok: "redis_ok s" using held by (simp add: held_def)
  show ?thesis
  proof (cases "io_read = Done")
    case True
    obtain st where st: "map_of (keys s) (Key e) = Some st" "ks_entry st = e" using held by (auto simp: held_def)
    obtain s1 nxt1 where r:
      "fst (refresh Done io io_del s h began now) = s1\<lparr>mem := replaceAll (mem s) nxt1 began now\<rparr>"
      "gomap_ok nxt1" "settled io now s1 nxt1 e"
      using refresh_read [OF ok, of io io_del h began now] st live by metis
    have "propagate_err (io (Key e)) e now = ErrPropagation"
      using leaves live enc by (simp add: DoRefresh propagate_err_def)
    with r(3) have "map_of nxt1 (Key e) = Some e" "\<exists>st. map_of (keys s1) (Key e) = Some st \<and> ks_entry st = e"
      by (auto simp: settled_def)
    moreover have "mem_ok (mem s)" using ok by (simp add: redis_ok_def)
    ultimately show ?thesis
      using refresh_ok [OF ok, of io_read io io_del h began now] held r True
      by (simp add: DoRefresh held_def map_of_replaceAll swapped_def)
        (simp add: replaceAll_def Let_def)
  qed (use held DoRefresh in \<open>simp add: refresh_def\<close>)
qed

lemma held_run:
  "held e s \<Longrightarrow> \<forall>(t, op) \<in> set ops. leaves_key (Key e) op \<and> t < Until e \<Longrightarrow> marshal e \<noteq> None \<Longrightarrow>
     held e (run_drain_ops s ops)"
proof (induction ops arbitrary: s)
  case (Cons top ops)
  obtain t op where top: "top = (t, op)" by (cases top)
  have "held e (drain_step s t op)"
    using Cons.prems by (intro held_step) (simp_all add: top)
  with Cons.IH Cons.prems(2,3) show ?case by (simp add: top)
qed simp

section \<open>Interleavings\<close>

text \<open>Concurrent calls on one key: each write begins, lands on the server, finishes, and undoes
  itself when it was told to; each release begins and deletes. Writes are told apart by a
  number.\<close>

record race =
  rstore :: redis_store
  rhash :: redis_hash
  rgen :: "nat \<Rightarrow> 64 word"
  rundo :: "nat \<Rightarrow> bool"

datatype race_ev =
    RBegin nat drain_entry | RLand nat drain_entry | RFinish nat drain_entry | RUndo nat drain_entry
  | RRelease drain_key | RDel drain_key

fun race_step :: "time \<Rightarrow> race \<Rightarrow> race_ev \<Rightarrow> race" where
  "race_step now r (RBegin i e) =
     (case beginSet (rstore r) e of (g, s) \<Rightarrow> r\<lparr>rstore := s, rgen := (rgen r)(i := g)\<rparr>)"
| "race_step now r (RLand i e) = r\<lparr>rhash := snd (propagate Done (rhash r) e now)\<rparr>"
| "race_step now r (RFinish i e) =
     (case finishWrite (rstore r) e (rgen r i) NoErr of (_, c, s) \<Rightarrow> r\<lparr>rstore := s, rundo := (rundo r)(i := c)\<rparr>)"
| "race_step now r (RUndo i e) = r\<lparr>rhash := compensate Done (rundo r i) (Key e) (rhash r)\<rparr>"
| "race_step now r (RRelease k) = r\<lparr>rstore := beginRelease (rstore r) k\<rparr>"
| "race_step now r (RDel k) = r\<lparr>rhash := snd (del Done (rhash r) k)\<rparr>"

definition race_run :: "time \<Rightarrow> race \<Rightarrow> race_ev list \<Rightarrow> race" where
  "race_run now r evs = foldl (race_step now) r evs"

definition race_init :: "redis_store \<Rightarrow> redis_hash \<Rightarrow> race" where
  "race_init s h = \<lparr>rstore = s, rhash = h, rgen = (\<lambda>_. 0), rundo = (\<lambda>_. False)\<rparr>"

lemmas race_simps = race_run_def race_init_def beginSet_def beginRelease_def finishWrite_def compensate_def
  del_def hdel_def hset_def propagate_def state_def forget_def zero_state_def Let_def gomap_simps

section \<open>Properties\<close>

text \<open>C7. A drain key written as a hash field reads back as the key with its operator in lower
  case, and two keys share a field only when they are that same key: no drain is attributed to
  another service, operator or RPC type. (Names contain no colon, and no RPC type is called
  \<open>all\<close>.)\<close>

theorem redisField_roundtrip:
  assumes "plain_key k" and "plain_key j"
  shows "parseRedisField (redisField k) = Some (lower_key k) \<and>
    (redisField j = redisField k \<longleftrightarrow> lower_key j = lower_key k)"
proof -
  have "redisField j = redisField k" if "lower_key j = lower_key k"
    using that by (simp add: redisField_def lower_key_def) (metis drain_key.ext_inject drain_key.surjective
      drain_key.update_convs(2))
  then show ?thesis using parse_redisField [OF assms(1)] redisField_inj [OF assms(2,1)] by blast
qed

theorem redisField_roundtrip_witness:
  "let k = \<lparr>ServiceID = ''eth'', Operator_key = ''Nodes.io'', RPCType = []\<rparr>
   in parseRedisField (redisField k) = Some (lower_key k)"
proof -
  have "plain_key \<lparr>ServiceID = ''eth'', Operator_key = ''Nodes.io'', RPCType = []\<rparr>" by code_simp
  from redisField_roundtrip [OF this this] show ?thesis by simp
qed


lemma redis_ok_new: "redis_ok (NewRedisStore fol)"
  by (simp add: redis_ok_def NewRedisStore_def mem_ok_new)


text \<open>C6. A release that comes after a drain was set wins in Redis, however the two calls
  interleave on the wire: in every order in which the write lands, finishes and undoes itself
  while the release records itself and deletes, the hash ends without the drain.\<close>

theorem release_wins_race:
  assumes "keys s = []" and "now < Until e"
    and "tr \<in> shuffles [RLand 0 e, RFinish 0 e, RUndo 0 e] [RRelease (Key e), RDel (Key e)]"
  shows "map_of (rhash (race_run now (race_init s h) (RBegin 0 e # tr))) (redisField (Key e)) = None"
  using assms
  by (cases "marshal e") (auto simp: race_simps)

theorem release_wins_race_witness:
  "map_of (rhash (race_run 5 (race_init (NewRedisStore []) [])
     [RBegin 0 drain_example, RRelease (Key drain_example), RDel (Key drain_example),
      RLand 0 drain_example, RFinish 0 drain_example, RUndo 0 drain_example])) (redisField (Key drain_example)) = None"
  by (rule release_wins_race) (simp_all add: NewRedisStore_def drain_example_def)

section \<open>Where propagation loses a decision\<close>

definition drain_longer :: drain_entry where
  "drain_longer = drain_example\<lparr>Until := 2 * hour\<rparr>"

text \<open>Two concurrent writes of one key: the older lands last, finishes first and queues the newer
  entry for a rewrite; the newer then finishes and takes it off the queue. Redis keeps the older
  entry and nothing is left to correct it.\<close>

lemma older_write_survives:
  "let r = race_run 5 (race_init (NewRedisStore []) [])
       [RBegin 0 drain_example, RBegin 1 drain_longer, RLand 1 drain_longer, RLand 0 drain_example,
        RFinish 0 drain_example, RFinish 1 drain_longer]
   in map_of (rhash r) (redisField (Key drain_longer)) = Some (Payload (Until drain_example) ''lag'') \<and>
      keys (rstore r) = []"
  by code_simp

text \<open>The undo of a write that a release overtook runs after the record was settled, so it also
  deletes a drain set in between.\<close>

lemma undo_deletes_newer:
  "let r = race_run 5 (race_init (NewRedisStore []) [])
       [RBegin 0 drain_example, RRelease (Key drain_example), RDel (Key drain_example),
        RLand 0 drain_example, RFinish 0 drain_example,
        RBegin 1 drain_longer, RLand 1 drain_longer, RFinish 1 drain_longer, RUndo 0 drain_example]
   in map_of (rhash r) (redisField (Key drain_longer)) = None \<and> keys (rstore r) = []"
  by code_simp

text \<open>A refresh collects the expired fields before it retries the pending writes and deletes them
  afterwards: the retry of a drain that replaces an expired one is deleted with it, and the next
  refresh drops the drain on this instance too.\<close>

lemma retry_deleted_as_expired:
  "let h = [(redisField (lower_key (Key drain_example)), Payload 3 ''old'')];
       s0 = fst (snd (Set_redis Failed Done (NewRedisStore []) h drain_example 5));
       (s1, h1) = refresh Done (\<lambda>_. Done) Done s0 h 6 7;
       (s2, h2) = refresh Done (\<lambda>_. Done) Done s1 h1 8 9
   in Drained_mem (mem s1) ''eth'' ''nodes.io'' [] 7 \<and> h1 = [] \<and>
      \<not> Drained_mem (mem s2) ''eth'' ''nodes.io'' [] 9 \<and> 9 < Until drain_example"
  by code_simp

end
