(* ===== verification/Block_Consensus.thy ===== *)
theory Block_Consensus
  imports Domain_Types "HOL-Library.Multiset"
begin

text \<open>
  The perceived block height of a service (\<^verbatim>\<open>qos/blockconsensus.go\<close>,
  \<^verbatim>\<open>qos/blockheight.go\<close>): saturating arithmetic on unsigned 64-bit heights, one vote per
  party, the corroborated anchor with its outlier cap, the external floor, and the projection of
  readings to the moment the head was read.

  Heights are \<open>64 word\<close>. The party behind an endpoint is the argument \<open>party\<close> (the
  function \<open>Party\<close> of the owner table in force); converting a float to an unsigned integer
  truncates. The computation of a height and its publication happen under one lock, so each
  operation is one step.
\<close>

section \<open>Heights\<close>

type_synonym height = "64 word"

abbreviation max_u64 :: height where "max_u64 \<equiv> - 1"

definition MaxPlausibleBlockHeight :: height where
  "MaxPlausibleBlockHeight = 1000000000000"

definition maxBlockHeightDelta :: height where
  "maxBlockHeightDelta = 1000000"

definition IsPlausibleBlockHeight :: "height \<Rightarrow> bool" where
  "IsPlausibleBlockHeight h \<longleftrightarrow> h > 0 \<and> h \<le> MaxPlausibleBlockHeight"

definition saturatingAdd :: "height \<Rightarrow> height \<Rightarrow> height" where
  "saturatingAdd a b = (if a > max_u64 - b then max_u64 else a + b)"

definition saturatingMul :: "height \<Rightarrow> height \<Rightarrow> height" where
  "saturatingMul a b =
     (if a = 0 \<or> b = 0 then 0 else if a > max_u64 div b then max_u64 else a * b)"

definition to_u64 :: "real \<Rightarrow> height" where
  "to_u64 r = word_of_int \<lfloor>r\<rfloor>"

section \<open>The consensus\<close>

record blockObs =
  Endpoint :: endpoint_addr
  Height :: height
  Timestamp :: time

record rateSample =
  rs_height :: height
  rs_at :: time
  rs_opened :: time

record block_consensus =
  observations :: "blockObs list"
  windowDuration :: duration
  maxObservations :: nat
  bc_syncAllowance :: height
  perceived :: height
  rateSamples :: "rateSample list"
  externalFloor :: height
  graceStart :: time
  gracePeriod :: duration

definition defaultWindowDuration :: duration where "defaultWindowDuration = 2 * minute"
definition defaultMaxObservations :: nat where "defaultMaxObservations = 1000"
definition defaultGracePeriod :: duration where "defaultGracePeriod = 30 * second"
definition maxRateSamples :: nat where "maxRateSamples = 16"
definition RateSampleGap :: duration where "RateSampleGap = 2 * second"

definition NewBlockConsensus :: "height \<Rightarrow> time \<Rightarrow> block_consensus" where
  "NewBlockConsensus syncAllowance now =
     \<lparr>observations = [], windowDuration = defaultWindowDuration, maxObservations = defaultMaxObservations,
      bc_syncAllowance = syncAllowance, perceived = 0, rateSamples = [], externalFloor = 0,
      graceStart = now, gracePeriod = defaultGracePeriod\<rparr>"

definition vote_key :: "(endpoint_addr \<Rightarrow> string) \<Rightarrow> endpoint_addr \<Rightarrow> string" where
  "vote_key party e = (if party e = [] then e else party e)"

definition by_party :: "(endpoint_addr \<Rightarrow> string) \<Rightarrow> blockObs list \<Rightarrow> (string, height list) gomap" where
  "by_party party obs =
     fold (\<lambda>o' m. let k = vote_key party (Endpoint o') in AList.update k (inner m k @ [Height o']) m) obs []"

definition median_of :: "height list \<Rightarrow> height" where
  "median_of hs = sort hs ! (length hs div 2)"

text \<open>The scan for a corroborated vote, from the highest down.\<close>

fun corroborated :: "height \<Rightarrow> height list \<Rightarrow> height option" where
  "corroborated tol (v # u # rest) = (if v - u \<le> tol then Some v else corroborated tol (u # rest))"
| "corroborated tol _ = None"

definition partyAnchor :: "(endpoint_addr \<Rightarrow> string) \<Rightarrow> blockObs list \<Rightarrow> height \<Rightarrow> height" where
  "partyAnchor party obs tolerance =
     (let votes = sort (map (\<lambda>(_, hs). median_of hs) (by_party party obs))
      in case corroborated tolerance (rev votes) of
           Some v \<Rightarrow> v
         | None \<Rightarrow> votes ! ((length votes - 1) div 2))"

definition applyExternalFloor :: "block_consensus \<Rightarrow> height \<Rightarrow> time \<Rightarrow> height" where
  "applyExternalFloor bc p now =
     (let flr = externalFloor bc in
      if flr = 0 then p
      else if now < graceStart bc + gracePeriod bc then p
      else let effective = (if flr > bc_syncAllowance bc then flr - bc_syncAllowance bc else flr)
           in if effective > p then effective else p)"

definition max_within :: "height \<Rightarrow> height list \<Rightarrow> height" where
  "max_within cap hs = foldl (\<lambda>p h. if h \<le> cap \<and> h > p then h else p) 0 hs"

definition computePerceived :: "(endpoint_addr \<Rightarrow> string) \<Rightarrow> block_consensus \<Rightarrow> time \<Rightarrow> height" where
  "computePerceived party bc now =
     (if observations bc = [] then applyExternalFloor bc 0 now
      else
        let tolerance = saturatingMul (bc_syncAllowance bc) 3;
            anchor = partyAnchor party (observations bc) tolerance;
            outlierCap = saturatingAdd anchor tolerance
        in applyExternalFloor bc (max_within outlierCap (map Height (observations bc))) now)"

definition pruneOlderThan :: "block_consensus \<Rightarrow> time \<Rightarrow> block_consensus" where
  "pruneOlderThan bc cutoff = bc\<lparr>observations := filter (\<lambda>o'. \<not> Timestamp o' < cutoff) (observations bc)\<rparr>"

definition recordRateSampleLocked :: "block_consensus \<Rightarrow> height \<Rightarrow> time \<Rightarrow> block_consensus" where
  "recordRateSampleLocked bc p now =
     (if p = 0 then bc
      else
        let ss = rateSamples bc; new = \<lparr>rs_height = p, rs_at = now, rs_opened = now\<rparr>;
            add = (if length ss \<ge> maxRateSamples then tl ss else ss) @ [new]
        in if ss \<noteq> [] \<and> rs_height (last ss) = p then bc
           else if ss \<noteq> [] \<and> time_sub now (rs_opened (last ss)) < RateSampleGap
           then bc\<lparr>rateSamples := butlast ss @ [(last ss)\<lparr>rs_height := p, rs_at := now\<rparr>]\<rparr>
           else bc\<lparr>rateSamples := add\<rparr>)"

definition AddObservation :: "(endpoint_addr \<Rightarrow> string) \<Rightarrow> block_consensus \<Rightarrow> endpoint_addr \<Rightarrow> height \<Rightarrow> time \<Rightarrow> block_consensus" where
  "AddObservation party bc endpoint h now =
     (if \<not> IsPlausibleBlockHeight h then bc
      else
        let bc1 = pruneOlderThan bc (now - windowDuration bc);
            bc2 = (if length (observations bc1) \<ge> maxObservations bc1
                   then bc1\<lparr>observations := drop (maxObservations bc1 div 4) (observations bc1)\<rparr> else bc1);
            bc3 = bc2\<lparr>observations := observations bc2 @ [\<lparr>Endpoint = endpoint, Height = h, Timestamp = now\<rparr>]\<rparr>;
            p = computePerceived party bc3 now
        in recordRateSampleLocked (bc3\<lparr>perceived := p\<rparr>) p now)"

definition SetExternalFloor :: "(endpoint_addr \<Rightarrow> string) \<Rightarrow> block_consensus \<Rightarrow> height \<Rightarrow> time \<Rightarrow> block_consensus" where
  "SetExternalFloor party bc h now =
     (if h \<noteq> 0 \<and> \<not> IsPlausibleBlockHeight h then bc
      else let bc1 = bc\<lparr>externalFloor := h\<rparr> in bc1\<lparr>perceived := computePerceived party bc1 now\<rparr>)"

definition Reset_bc :: "block_consensus \<Rightarrow> time \<Rightarrow> block_consensus" where
  "Reset_bc bc now = bc\<lparr>observations := [], rateSamples := [], graceStart := now, perceived := 0, externalFloor := 0\<rparr>"

definition SetSyncAllowance :: "block_consensus \<Rightarrow> height \<Rightarrow> block_consensus" where
  "SetSyncAllowance bc blocks = bc\<lparr>bc_syncAllowance := blocks\<rparr>"

definition latest_obs :: "blockObs list \<Rightarrow> (endpoint_addr, blockObs) gomap" where
  "latest_obs obs = fold (\<lambda>o' m. case map_of m (Endpoint o') of
       Some cur \<Rightarrow> if Timestamp o' > Timestamp cur then AList.update (Endpoint o') o' m else m
     | None \<Rightarrow> AList.update (Endpoint o') o' m) obs []"

section \<open>Rate and projection\<close>

record HeightProjection =
  hp_rate :: real
  hp_headAt :: time
  hp_perceived :: height
  hp_window :: duration

definition blockRate :: "rateSample list \<Rightarrow> real option" where
  "blockRate samples =
     (if length samples < 2 then None
      else
        let oldest = hd samples; newest = last samples;
            elapsed = seconds_of (time_sub (rs_at newest) (rs_at oldest))
        in if elapsed \<le> 0 \<or> rs_height newest \<le> rs_height oldest then None
           else Some (real (unat (rs_height newest - rs_height oldest)) / elapsed))"

definition Projection :: "block_consensus \<Rightarrow> HeightProjection" where
  "Projection bc =
     (case blockRate (rateSamples bc) of
        None \<Rightarrow> \<lparr>hp_rate = 0, hp_headAt = 0, hp_perceived = perceived bc, hp_window = windowDuration bc\<rparr>
      | Some r \<Rightarrow> \<lparr>hp_rate = r, hp_headAt = rs_at (last (rateSamples bc)),
                    hp_perceived = perceived bc, hp_window = windowDuration bc\<rparr>)"

definition BlocksIn :: "block_consensus \<Rightarrow> duration \<Rightarrow> height" where
  "BlocksIn bc d =
     (let p = Projection bc in if hp_rate p \<le> 0 then 0 else to_u64 (hp_rate p * seconds_of d))"

definition Project :: "HeightProjection \<Rightarrow> height \<Rightarrow> time \<Rightarrow> height" where
  "Project p h observedAt =
     (if hp_rate p \<le> 0 \<or> observedAt = 0 \<or> h \<ge> hp_perceived p then h
      else
        let age = time_sub (hp_headAt p) observedAt
        in if age \<le> 0 \<or> age > 2 * hp_window p then h
           else min (h + to_u64 (hp_rate p * seconds_of age)) (hp_perceived p))"

definition staleAnswerSeconds :: real where "staleAnswerSeconds = 10"
definition staleAnswerMinBlocks :: height where "staleAnswerMinBlocks = 2"
definition staleStateSlack :: duration where "staleStateSlack = 10 * second"
definition staleStateImplausible :: duration where "staleStateImplausible = 24 * hour"

text \<open>The lag and the verdict, or nothing while there is no head to compare with.\<close>

definition AnswerLag :: "block_consensus \<Rightarrow> height \<Rightarrow> time \<Rightarrow> (height \<times> bool) option" where
  "AnswerLag bc h now =
     (let p = Projection bc in
      if hp_perceived p = 0 then None
      else
        let age = time_sub now (hp_headAt p);
            head = (if hp_rate p > 0 \<and> age > 0
                    then hp_perceived p + to_u64 (hp_rate p * seconds_of (min age (hp_window p)))
                    else if hp_rate p > 0 \<and> age < 0
                    then hp_perceived p - min (to_u64 (hp_rate p * seconds_of (- age))) (hp_perceived p)
                    else hp_perceived p);
            lag = (if h < head then head - h else 0)
        in if hp_rate p \<le> 0 \<or> age > hp_window p \<or> - age > hp_window p then Some (lag, False)
           else Some (lag, lag > max staleAnswerMinBlocks (to_u64 (hp_rate p * staleAnswerSeconds))))"

definition BeyondHead :: "block_consensus \<Rightarrow> height \<Rightarrow> time \<Rightarrow> bool" where
  "BeyondHead bc h now =
     (let p = Projection bc; age = time_sub now (hp_headAt p) in
      if hp_perceived p = 0 \<or> hp_rate p \<le> 0 \<or> age > hp_window p then False
      else let head = hp_perceived p + to_u64 (hp_rate p * seconds_of (max age 0))
           in h > head + max staleAnswerMinBlocks (to_u64 (hp_rate p * staleAnswerSeconds)))"

definition StateLag :: "block_consensus \<Rightarrow> time \<Rightarrow> time \<Rightarrow> (height \<times> bool) option" where
  "StateLag bc blockTime at_t =
     (let p = Projection bc in
      if hp_perceived p = 0 \<or> hp_rate p \<le> 0 then None
      else
        let trail = time_sub at_t blockTime in
        if trail > staleStateImplausible \<or> trail < - staleStateImplausible then None
        else
          let lag = (if trail > 0 then to_u64 (seconds_of trail * hp_rate p) else 0) in
          if time_sub at_t (hp_headAt p) > hp_window p then Some (lag, False)
          else
            let blockTimes = \<lfloor>2 / hp_rate p * 1000000000\<rfloor>
            in Some (lag, trail > blockTimes + staleStateSlack))"

section \<open>Lemmas: arithmetic\<close>

lemma unat_max_u64: "unat max_u64 = 2 ^ 64 - 1"
  by (simp add: unsigned_minus_1_eq_mask mask_eq_exp_minus_1)

lemma unat_u64: "unat (w :: height) \<le> 2 ^ 64 - 1"
  using unsigned_less [of w, where ?'a = nat] by simp

lemma unat_saturatingAdd: "unat (saturatingAdd a b) = min (unat a + unat b) (2 ^ 64 - 1)"
proof -
  have a: "unat (max_u64 - b) = 2 ^ 64 - 1 - unat b"
    by (subst unat_sub) (simp_all add: word_order.extremum unat_max_u64)
  have b: "unat b \<le> 2 ^ 64 - 1" by (rule unat_u64)
  show ?thesis
  proof (cases "a > max_u64 - b")
    case True
    then have "unat a > 2 ^ 64 - 1 - unat b" by (simp add: word_less_nat_alt a)
    with True b show ?thesis by (simp add: saturatingAdd_def unat_max_u64)
  next
    case False
    then have le: "unat a + unat b \<le> 2 ^ 64 - 1" using b by (simp add: word_less_nat_alt a)
    then have "unat (a + b) = unat a + unat b"
      by (intro unat_add_lem [THEN iffD1]) simp
    with False le show ?thesis by (simp add: saturatingAdd_def)
  qed
qed

lemma unat_saturatingMul: "unat (saturatingMul a b) = min (unat a * unat b) (2 ^ 64 - 1)"
proof (cases "a = 0 \<or> b = 0")
  case True
  then show ?thesis by (auto simp: saturatingMul_def)
next
  case False
  then have b: "0 < unat b" by (simp add: unat_gt_0)
  have d: "unat (max_u64 div b) = (2 ^ 64 - 1) div unat b" by (simp add: unat_div unat_max_u64)
  show ?thesis
  proof (cases "a > max_u64 div b")
    case True
    then have "(2 ^ 64 - 1) div unat b < unat a" by (simp add: word_less_nat_alt d)
    then have "2 ^ 64 - 1 < unat a * unat b"
      using b by (metis div_less_iff_less_mult)
    with True False show ?thesis by (simp add: saturatingMul_def unat_max_u64)
  next
    case le: False
    then have "unat a \<le> (2 ^ 64 - 1) div unat b" by (simp add: word_less_nat_alt d)
    then have m: "unat a * unat b \<le> 2 ^ 64 - 1"
      using b by (metis less_eq_div_iff_mult_less_eq)
    then have "unat (a * b) = unat a * unat b"
      by (intro unat_mult_lem [THEN iffD1]) simp
    with le False m show ?thesis by (simp add: saturatingMul_def)
  qed
qed

lemma saturatingAdd_ge: "a \<le> saturatingAdd a b"
proof -
  show ?thesis using unat_u64 [of a] by (simp add: word_le_nat_alt unat_saturatingAdd)
qed

lemma saturatingAdd_mono: "a \<le> a' \<Longrightarrow> saturatingAdd a b \<le> saturatingAdd a' b"
  by (auto simp: word_le_nat_alt unat_saturatingAdd)

section \<open>Lemmas: votes\<close>

lemma max_within_spec:
  "max_within cap hs \<in> insert 0 {h \<in> set hs. h \<le> cap} \<and> (\<forall>h \<in> set hs. h \<le> cap \<longrightarrow> h \<le> max_within cap hs)"
proof -
  have "foldl (\<lambda>p h. if h \<le> cap \<and> h > p then h else p) p hs \<in> insert p {h \<in> set hs. h \<le> cap} \<and>
      p \<le> foldl (\<lambda>p h. if h \<le> cap \<and> h > p then h else p) p hs \<and>
      (\<forall>h \<in> set hs. h \<le> cap \<longrightarrow> h \<le> foldl (\<lambda>p h. if h \<le> cap \<and> h > p then h else p) p hs)" for p
  proof (induction hs arbitrary: p)
    case (Cons h hs)
    let ?p = "if h \<le> cap \<and> h > p then h else p"
    have "p \<le> ?p" "h \<le> cap \<Longrightarrow> h \<le> ?p" by auto
    with Cons [of ?p] show ?case by (auto intro: order_trans)
  qed simp
  then show ?thesis unfolding max_within_def by blast
qed

definition heights_of :: "(endpoint_addr \<Rightarrow> string) \<Rightarrow> blockObs list \<Rightarrow> string \<Rightarrow> height list" where
  "heights_of party obs k = map Height (filter (\<lambda>o'. vote_key party (Endpoint o') = k) obs)"

lemma by_party_fold:
  "gomap_ok m \<Longrightarrow>
   gomap_ok (fold (\<lambda>o' m. let k = vote_key party (Endpoint o') in AList.update k (inner m k @ [Height o']) m) obs m) \<and>
   map_of (fold (\<lambda>o' m. let k = vote_key party (Endpoint o') in AList.update k (inner m k @ [Height o']) m) obs m) k =
     (let hs = heights_of party obs k in
      case map_of m k of None \<Rightarrow> if hs = [] then None else Some hs | Some old \<Rightarrow> Some (old @ hs))"
proof (induction obs arbitrary: m)
  case Nil
  then show ?case by (simp add: heights_of_def split: option.splits)
next
  case (Cons o' obs)
  let ?k = "vote_key party (Endpoint o')"
  have "gomap_ok (AList.update ?k (inner m ?k @ [Height o']) m)" using Cons.prems by simp
  from Cons.IH [OF this] show ?case
    by (simp add: Let_def gomap_simps heights_of_def inner_def split: option.splits)
qed

lemma by_party_map:
  "gomap_ok (by_party party obs)"
  "map_of (by_party party obs) k = (let hs = heights_of party obs k in if hs = [] then None else Some hs)"
  using by_party_fold [of "[]" party obs k] by (simp_all add: by_party_def)

lemma median_of_in: "hs \<noteq> [] \<Longrightarrow> median_of hs \<in> set hs"
  unfolding median_of_def by (metis length_sort nth_mem set_sort div_less_dividend length_greater_0_conv one_less_numeral_iff semiring_norm(76))

text \<open>The vote of a party, and the list of votes.\<close>

definition votes_of :: "(endpoint_addr \<Rightarrow> string) \<Rightarrow> blockObs list \<Rightarrow> height list" where
  "votes_of party obs = sort (map (\<lambda>(_, hs). median_of hs) (by_party party obs))"

definition vote :: "(endpoint_addr \<Rightarrow> string) \<Rightarrow> blockObs list \<Rightarrow> string \<Rightarrow> height" where
  "vote party obs k = median_of (heights_of party obs k)"

definition voters :: "(endpoint_addr \<Rightarrow> string) \<Rightarrow> blockObs list \<Rightarrow> string set" where
  "voters party obs = (\<lambda>o'. vote_key party (Endpoint o')) ` set obs"

lemma heights_of_Nil_iff: "heights_of party obs k = [] \<longleftrightarrow> k \<notin> voters party obs"
  by (auto simp: heights_of_def voters_def filter_empty_conv)

lemma by_party_keys: "set (map fst (by_party party obs)) = voters party obs"
proof (rule set_eqI)
  fix k
  have "k \<in> set (map fst (by_party party obs)) \<longleftrightarrow> map_of (by_party party obs) k \<noteq> None"
    by (auto simp: map_of_eq_None_iff)
  also have "\<dots> \<longleftrightarrow> k \<in> voters party obs" by (simp add: by_party_map heights_of_Nil_iff Let_def)
  finally show "k \<in> set (map fst (by_party party obs)) \<longleftrightarrow> k \<in> voters party obs" .
qed

lemma by_party_votes:
  "map (\<lambda>(_, hs). median_of hs) (by_party party obs) = map (vote party obs) (map fst (by_party party obs))"
proof -
  have "(k, hs) \<in> set (by_party party obs) \<Longrightarrow> hs = heights_of party obs k" for k hs
    by (auto simp: gomap_in_set [OF by_party_map(1)] by_party_map(2) Let_def split: if_splits)
  then show ?thesis by (auto simp: vote_def)
qed

lemma votes_mset: "mset (votes_of party obs) = image_mset (vote party obs) (mset_set (voters party obs))"
proof -
  have "distinct (map fst (by_party party obs))" using by_party_map(1) by (simp add: gomap_ok_def)
  then have "mset (map fst (by_party party obs)) = mset_set (voters party obs)"
    using by_party_keys by (metis mset_set_set)
  then show ?thesis by (simp only: votes_of_def by_party_votes mset_sort mset_map)
qed

lemma finite_voters [simp]: "finite (voters party obs)"
  by (simp add: voters_def)

lemma votes_set: "set (votes_of party obs) = vote party obs ` voters party obs"
  using votes_mset [of party obs] by (metis finite_set_mset_mset_set finite_voters set_image_mset set_mset_mset)

lemma votes_length: "length (votes_of party obs) = card (voters party obs)"
  using votes_mset [of party obs] by (metis size_image_mset size_mset size_mset_set)

lemma votes_sorted: "sorted (votes_of party obs)"
  by (simp add: votes_of_def)

lemma votes_two:
  assumes "k1 \<in> voters party obs" and "k2 \<in> voters party obs" and "k1 \<noteq> k2"
  shows "{#vote party obs k1, vote party obs k2#} \<subseteq># mset (votes_of party obs)"
proof -
  have "{#k1, k2#} = mset_set {k1, k2}" using assms(3) by simp
  also have "\<dots> \<subseteq># mset_set (voters party obs)" using assms by (intro subset_imp_msubset_mset_set) auto
  finally have "image_mset (vote party obs) {#k1, k2#} \<subseteq># mset (votes_of party obs)"
    unfolding votes_mset by (rule image_mset_subseteq_mono)
  then show ?thesis by simp
qed

lemma votes_except:
  assumes "k0 \<in> voters party obs"
  shows "mset (votes_of party obs) =
    add_mset (vote party obs k0) (image_mset (vote party obs) (mset_set (voters party obs - {k0})))"
  using assms by (simp add: votes_mset mset_set.remove)

text \<open>The scan: what it finds stands next to a vote within tolerance, and it finds something at
  least as high as any two votes that agree.\<close>

lemma corroborated_pair:
  "corroborated tol vs = Some v \<Longrightarrow> \<exists>u. {#v, u#} \<subseteq># mset vs \<and> v - u \<le> tol"
proof (induction tol vs rule: corroborated.induct)
  case (1 tol v' u rest)
  show ?case
  proof (cases "v' - u \<le> tol")
    case True
    with 1 show ?thesis by (intro exI [of _ u]) simp
  next
    case False
    with 1 obtain w where w: "{#v, w#} \<subseteq># mset (u # rest)" "v - w \<le> tol" by auto
    have "mset (u # rest) \<subseteq># mset (v' # u # rest)" by (simp add: subseteq_mset_def)
    with w(1) have "{#v, w#} \<subseteq># mset (v' # u # rest)" by (rule subset_mset.order_trans)
    with w(2) show ?thesis by blast
  qed
qed auto

lemma corroborated_in: "corroborated tol vs = Some v \<Longrightarrow> v \<in> set vs"
  by (induction tol vs rule: corroborated.induct) (auto split: if_splits)

lemma word_diff_mono: "(b :: height) \<le> u \<Longrightarrow> u \<le> v \<Longrightarrow> v - u \<le> v - b"
  by (simp add: word_le_nat_alt unat_sub_if')

lemma corroborated_highest:
  "sorted_wrt (\<ge>) vs \<Longrightarrow> {#a, b#} \<subseteq># mset vs \<Longrightarrow> b \<le> a \<Longrightarrow> a - b \<le> tol \<Longrightarrow>
     \<exists>v. corroborated tol vs = Some v \<and> a \<le> v"
proof (induction tol vs rule: corroborated.induct)
  case (1 tol v u rest)
  let ?M = "mset (u # rest)"
  have sub: "{#a, b#} \<subseteq># add_mset v ?M" using 1(3) by simp
  have a: "a \<le> v" using mset_subset_eqD [OF 1(3), of a] 1(2) by auto
  show ?case
  proof (cases "v - u \<le> tol")
    case True
    then show ?thesis using a by simp
  next
    case False
    have "a \<noteq> v"
    proof
      assume "a = v"
      then have "b \<in># ?M" using sub by simp
      then have "b \<le> u" "u \<le> v" using 1(2) by auto
      then have "v - u \<le> v - b" by (rule word_diff_mono)
      with \<open>a = v\<close> 1(5) False show False by simp
    qed
    moreover from this a 1(4) have "b \<noteq> v" by auto
    ultimately have "count {#a, b#} x \<le> count ?M x" for x
      using mset_subset_eq_count [OF sub, of x] by (cases "x = v") auto
    then have "{#a, b#} \<subseteq># ?M" by (rule mset_subset_eqI)
    with 1(1) [OF False] 1(2,4,5) False show ?thesis by simp
  qed
qed (auto dest: size_mset_mono)

lemma two_nth:
  assumes "i < j" and "j < length xs"
  shows "{#xs ! i, xs ! j#} \<subseteq># mset xs"
proof -
  have "xs = take i xs @ xs ! i # drop (Suc i) xs" using assms by (simp add: id_take_nth_drop)
  then have "mset xs = mset (take i xs) + add_mset (xs ! i) (mset (drop (Suc i) xs))"
    by (metis mset.simps(2) mset_append)
  moreover have "xs ! j \<in># mset (drop (Suc i) xs)"
    using assms by (auto simp: in_set_conv_nth intro!: exI [of _ "j - Suc i"])
  ultimately show ?thesis
    by (simp add: insert_subset_eq_iff)
qed

lemma above_once:
  assumes "{#a, b#} \<subseteq># add_mset x M" and "\<forall>m \<in># M. m \<le> (X :: height)"
  shows "a \<le> X \<or> b \<le> X"
proof (rule ccontr)
  assume "\<not> ?thesis"
  then have "a \<notin># M" "b \<notin># M" using assms(2) by auto
  moreover have "a \<in># add_mset x M" "b \<in># add_mset x M" using assms(1) mset_subset_eqD by fastforce+
  ultimately have "a = x" "b = x" by auto
  with assms(1) have "x \<in># M" by simp
  with \<open>b \<notin># M\<close> \<open>b = x\<close> show False by simp
qed

lemma anchor_in_votes:
  assumes "obs \<noteq> []"
  shows "partyAnchor party obs tol \<in> set (votes_of party obs)"
proof -
  have "votes_of party obs \<noteq> []"
    using assms votes_length [of party obs] by (auto simp: voters_def)
  then have "(length (votes_of party obs) - 1) div 2 < length (votes_of party obs)"
    by (cases "votes_of party obs") auto
  then show ?thesis
    by (auto simp: partyAnchor_def votes_of_def [symmetric] Let_def dest: corroborated_in split: option.splits)
qed

lemma votes_are_heights: "set (votes_of party obs) \<subseteq> Height ` set obs"
proof -
  have "vote party obs k \<in> Height ` set obs" if "k \<in> voters party obs" for k
    using median_of_in [of "heights_of party obs k"] that
    by (auto simp: vote_def heights_of_Nil_iff) (auto simp: heights_of_def)
  then show ?thesis by (auto simp: votes_set)
qed

lemma anchor_lower:
  assumes "k1 \<in> voters party obs" and "k2 \<in> voters party obs" and "k1 \<noteq> k2"
    and "vote party obs k2 \<le> vote party obs k1" and "vote party obs k1 - vote party obs k2 \<le> tol"
  shows "vote party obs k1 \<le> partyAnchor party obs tol"
proof -
  have "sorted_wrt (\<ge>) (rev (votes_of party obs))"
    using votes_sorted [of party obs] by (simp add: sorted_wrt_rev)
  moreover have "{#vote party obs k1, vote party obs k2#} \<subseteq># mset (rev (votes_of party obs))"
    using votes_two [OF assms(1-3)] by simp
  ultimately obtain v where "corroborated tol (rev (votes_of party obs)) = Some v" "vote party obs k1 \<le> v"
    using corroborated_highest assms(4,5) by blast
  then show ?thesis by (simp add: partyAnchor_def votes_of_def [symmetric] Let_def)
qed

lemma anchor_upper:
  assumes k0: "k0 \<in> voters party obs" and more: "2 \<le> card (voters party obs)"
    and le: "\<forall>k \<in> voters party obs - {k0}. vote party obs k \<le> X"
  shows "partyAnchor party obs tol \<le> saturatingAdd X tol"
proof -
  let ?vs = "votes_of party obs" and ?M = "image_mset (vote party obs) (mset_set (voters party obs - {k0}))"
  have ms: "mset ?vs = add_mset (vote party obs k0) ?M" by (rule votes_except [OF k0])
  have M: "\<forall>m \<in># ?M. m \<le> X" using le by auto
  show ?thesis
  proof (cases "corroborated tol (rev ?vs)")
    case None
    let ?i = "(length ?vs - 1) div 2"
    have i: "?i < length ?vs - 1" "length ?vs - 1 < length ?vs" using more by (auto simp: votes_length)
    have "?vs ! ?i \<le> ?vs ! (length ?vs - 1)"
      using votes_sorted [of party obs] i by (auto simp: sorted_iff_nth_mono)
    moreover have "?vs ! ?i \<le> X \<or> ?vs ! (length ?vs - 1) \<le> X"
      using two_nth [OF i] above_once [OF _ M] ms by metis
    ultimately have "?vs ! ?i \<le> X" by auto
    moreover have "partyAnchor party obs tol = ?vs ! ?i"
      using None by (simp add: partyAnchor_def votes_of_def [symmetric] Let_def)
    ultimately show ?thesis using saturatingAdd_ge [of X tol] by simp
  next
    case (Some v)
    from corroborated_pair [OF Some] obtain u where u: "{#v, u#} \<subseteq># mset ?vs" "v - u \<le> tol" by auto
    from above_once [OF _ M, of v u] u(1) ms have "v \<le> X \<or> u \<le> X" by simp
    moreover have "v \<le> saturatingAdd X tol" if "u \<le> X"
    proof -
      have "unat v \<le> unat u + unat tol"
        using u(2) by (cases "unat u \<le> unat v") (auto simp: word_le_nat_alt unat_sub_if')
      with that unat_u64 [of v] show ?thesis by (auto simp: word_le_nat_alt unat_saturatingAdd)
    qed
    moreover have "v \<le> saturatingAdd X tol" if "v \<le> X"
      using that saturatingAdd_ge [of X tol] by (rule order_trans)
    ultimately show ?thesis
      using Some by (auto simp: partyAnchor_def votes_of_def [symmetric] Let_def)
  qed
qed

section \<open>Lemmas: the perceived height\<close>

definition pool_height :: "(endpoint_addr \<Rightarrow> string) \<Rightarrow> block_consensus \<Rightarrow> height" where
  "pool_height party bc =
     (let tolerance = saturatingMul (bc_syncAllowance bc) 3
      in max_within (saturatingAdd (partyAnchor party (observations bc) tolerance) tolerance) (map Height (observations bc)))"

lemma max_within_Nil [simp]: "max_within cap [] = 0"
  by (simp add: max_within_def)

lemma computePerceived_pool: "computePerceived party bc now = applyExternalFloor bc (pool_height party bc) now"
  by (simp add: computePerceived_def pool_height_def Let_def)

lemma applyExternalFloor_ge: "p \<le> applyExternalFloor bc p now"
  by (auto simp: applyExternalFloor_def Let_def)

lemma applyExternalFloor_le: "applyExternalFloor bc p now \<le> max p (externalFloor bc)"
proof -
  have "externalFloor bc - bc_syncAllowance bc \<le> externalFloor bc" if "bc_syncAllowance bc < externalFloor bc"
    using that by (simp add: word_le_nat_alt word_less_nat_alt unat_sub_if')
  then show ?thesis by (auto simp: applyExternalFloor_def Let_def le_max_iff_disj)
qed

lemma anchor_le_pool:
  assumes "observations bc \<noteq> []"
  shows "partyAnchor party (observations bc) (saturatingMul (bc_syncAllowance bc) 3) \<le> pool_height party bc"
proof -
  let ?a = "partyAnchor party (observations bc) (saturatingMul (bc_syncAllowance bc) 3)"
  have "?a \<in> set (map Height (observations bc))"
    using anchor_in_votes [OF assms] votes_are_heights by fastforce
  then show ?thesis
    using max_within_spec saturatingAdd_ge unfolding pool_height_def Let_def by blast
qed

lemma pool_height_cases: "pool_height party bc \<in> insert 0 (Height ` set (observations bc))"
  using max_within_spec unfolding pool_height_def Let_def by fastforce

lemma pool_height_capped:
  "pool_height party bc \<le> (let tolerance = saturatingMul (bc_syncAllowance bc) 3
     in saturatingAdd (partyAnchor party (observations bc) tolerance) tolerance)"
  using max_within_spec [of "saturatingAdd (partyAnchor party (observations bc) (saturatingMul (bc_syncAllowance bc) 3))
      (saturatingMul (bc_syncAllowance bc) 3)" "map Height (observations bc)"]
  unfolding pool_height_def Let_def by auto

section \<open>Reachable states\<close>

definition bc_ok :: "block_consensus \<Rightarrow> bool" where
  "bc_ok bc \<longleftrightarrow> maxObservations bc = defaultMaxObservations \<and>
     length (observations bc) \<le> maxObservations bc \<and>
     (\<forall>o' \<in> set (observations bc). IsPlausibleBlockHeight (Height o')) \<and>
     (externalFloor bc = 0 \<or> IsPlausibleBlockHeight (externalFloor bc)) \<and>
     perceived bc \<le> MaxPlausibleBlockHeight \<and> length (rateSamples bc) \<le> maxRateSamples"

inductive bc_step :: "time \<times> block_consensus \<Rightarrow> time \<times> block_consensus \<Rightarrow> bool" where
  tick: "now \<le> now' \<Longrightarrow> bc_step (now, bc) (now', bc)"
| add: "bc_step (now, bc) (now, AddObservation party bc ep h now)"
| flr: "bc_step (now, bc) (now, SetExternalFloor party bc h now)"
| reset: "bc_step (now, bc) (now, Reset_bc bc now)"
| tune: "bc_step (now, bc) (now, SetSyncAllowance bc blocks)"

inductive bc_reachable :: "time \<times> block_consensus \<Rightarrow> bool" where
  init: "bc_reachable (now, NewBlockConsensus allowance now)"
| step: "bc_reachable st \<Longrightarrow> bc_step st st' \<Longrightarrow> bc_reachable st'"

lemma computePerceived_le:
  assumes "\<forall>o' \<in> set (observations bc). IsPlausibleBlockHeight (Height o')"
    and "externalFloor bc = 0 \<or> IsPlausibleBlockHeight (externalFloor bc)"
  shows "computePerceived party bc now \<le> MaxPlausibleBlockHeight"
proof -
  have "pool_height party bc \<le> MaxPlausibleBlockHeight"
    using pool_height_cases [of party bc] assms(1) by (auto simp: IsPlausibleBlockHeight_def)
  moreover have "externalFloor bc \<le> MaxPlausibleBlockHeight"
    using assms(2) by (auto simp: IsPlausibleBlockHeight_def)
  ultimately show ?thesis
    unfolding computePerceived_pool
    by (meson applyExternalFloor_le max.boundedI order_trans)
qed

lemma recordRateSample_frame [simp]:
  "observations (recordRateSampleLocked bc p now) = observations bc"
  "maxObservations (recordRateSampleLocked bc p now) = maxObservations bc"
  "externalFloor (recordRateSampleLocked bc p now) = externalFloor bc"
  "perceived (recordRateSampleLocked bc p now) = perceived bc"
  "bc_syncAllowance (recordRateSampleLocked bc p now) = bc_syncAllowance bc"
  by (simp_all add: recordRateSampleLocked_def Let_def)

lemma recordRateSample_length:
  "length (rateSamples bc) \<le> maxRateSamples \<Longrightarrow> length (rateSamples (recordRateSampleLocked bc p now)) \<le> maxRateSamples"
  by (auto simp: recordRateSampleLocked_def Let_def maxRateSamples_def)

text \<open>The state an accepted observation is judged in.\<close>

definition with_obs :: "block_consensus \<Rightarrow> endpoint_addr \<Rightarrow> height \<Rightarrow> time \<Rightarrow> block_consensus" where
  "with_obs bc ep h now =
     (let kept = filter (\<lambda>o'. \<not> Timestamp o' < now - windowDuration bc) (observations bc);
          room = (if length kept \<ge> maxObservations bc then drop (maxObservations bc div 4) kept else kept)
      in bc\<lparr>observations := room @ [\<lparr>Endpoint = ep, Height = h, Timestamp = now\<rparr>]\<rparr>)"

lemma AddObservation_alt:
  "AddObservation party bc ep h now =
     (if \<not> IsPlausibleBlockHeight h then bc
      else let bc3 = with_obs bc ep h now; p = computePerceived party bc3 now
           in recordRateSampleLocked (bc3\<lparr>perceived := p\<rparr>) p now)"
  by (simp add: AddObservation_def with_obs_def pruneOlderThan_def Let_def)

lemma with_obs_ok:
  assumes "bc_ok bc" and "IsPlausibleBlockHeight h"
  shows "bc_ok (with_obs bc ep h now)"
proof -
  let ?kept = "filter (\<lambda>o'. \<not> Timestamp o' < now - windowDuration bc) (observations bc)"
  have len: "length ?kept \<le> maxObservations bc"
    using assms(1) by (auto simp: bc_ok_def intro!: order_trans [OF length_filter_le])
  have pl: "\<forall>o' \<in> set ?kept. IsPlausibleBlockHeight (Height o')"
    using assms(1) by (simp add: bc_ok_def)
  then have "\<forall>o' \<in> set (drop (maxObservations bc div 4) ?kept). IsPlausibleBlockHeight (Height o')"
    by (meson in_set_dropD)
  with len pl show ?thesis
    using assms by (simp add: bc_ok_def with_obs_def Let_def defaultMaxObservations_def)
qed

lemma AddObservation_ok:
  assumes "bc_ok bc"
  shows "bc_ok (AddObservation party bc ep h now)"
proof (cases "IsPlausibleBlockHeight h")
  case True
  let ?bc = "with_obs bc ep h now"
  have ok: "bc_ok ?bc" by (rule with_obs_ok [OF assms True])
  then have "computePerceived party ?bc now \<le> MaxPlausibleBlockHeight"
    by (intro computePerceived_le) (auto simp: bc_ok_def)
  with ok True show ?thesis
    by (simp add: AddObservation_alt Let_def bc_ok_def recordRateSample_length)
qed (use assms in \<open>simp add: AddObservation_alt\<close>)

lemma bc_step_ok: "bc_step st st' \<Longrightarrow> bc_ok (snd st) \<Longrightarrow> bc_ok (snd st')"
proof (induction rule: bc_step.induct)
  case (flr now bc party h)
  then show ?case
    using computePerceived_le [of "bc\<lparr>externalFloor := h\<rparr>" party now]
    by (auto simp: SetExternalFloor_def Let_def bc_ok_def)
next
  case (add now bc party ep h)
  then show ?case by (simp add: AddObservation_ok)
next
  case (reset now bc)
  then show ?case by (simp add: Reset_bc_def bc_ok_def)
next
  case (tune now bc blocks)
  then show ?case by (simp add: SetSyncAllowance_def bc_ok_def)
qed simp

lemma bc_reachable_ok: "bc_reachable st \<Longrightarrow> bc_ok (snd st)"
proof (induction rule: bc_reachable.induct)
  case init
  then show ?case by (simp add: bc_ok_def NewBlockConsensus_def)
qed (rule bc_step_ok)

section \<open>Properties\<close>

text \<open>C8. Two parties that agree hold the head up: when two distinct parties cast votes within
  the tolerance of each other, the perceived height is at least the higher of the two, whatever
  every other endpoint of the service reports and however many of them there are.\<close>

theorem corroborated_head_holds:
  assumes "k1 \<in> voters party (observations bc)" and "k2 \<in> voters party (observations bc)" and "k1 \<noteq> k2"
    and "vote party (observations bc) k2 \<le> vote party (observations bc) k1"
    and "vote party (observations bc) k1 - vote party (observations bc) k2 \<le> saturatingMul (bc_syncAllowance bc) 3"
  shows "vote party (observations bc) k1 \<le> computePerceived party bc now"
proof -
  have ne: "observations bc \<noteq> []" using assms(1) by (auto simp: voters_def)
  note anchor_lower [OF assms]
  also note anchor_le_pool [OF ne, of party]
  also note applyExternalFloor_ge [of _ bc now]
  finally show ?thesis unfolding computePerceived_pool .
qed

definition pool_example :: block_consensus where
  "pool_example = (NewBlockConsensus 2 0)\<lparr>observations :=
     map (\<lambda>(e, h). \<lparr>Endpoint = e, Height = h, Timestamp = 1\<rparr>)
       [(''a'', 100), (''a'', 101), (''b'', 99), (''c'', 40), (''d'', 45), (''e'', 46)]\<rparr>"

theorem corroborated_head_holds_witness:
  "vote (\<lambda>e. e) (observations pool_example) ''a'' = 101 \<and> 101 \<le> computePerceived (\<lambda>e. e) pool_example 5"
proof -
  have v: "vote (\<lambda>e. e) (observations pool_example) ''a'' = 101"
    and "vote (\<lambda>e. e) (observations pool_example) ''a'' \<le> computePerceived (\<lambda>e. e) pool_example 5"
    by code_simp (rule corroborated_head_holds [of _ _ _ "''b''"]; code_simp)
  then show ?thesis by simp
qed

text \<open>C9. One party alone cannot lift the head: when every other party votes at most some
  height, the perceived height is within two tolerances of it, or the external floor, no matter
  what the one party reports through however many endpoints.\<close>

theorem lone_party_bounded:
  assumes "k0 \<in> voters party (observations bc)" and "2 \<le> card (voters party (observations bc))"
    and "\<forall>k \<in> voters party (observations bc) - {k0}. vote party (observations bc) k \<le> X"
  shows "computePerceived party bc now \<le>
    max (let tol = saturatingMul (bc_syncAllowance bc) 3 in saturatingAdd (saturatingAdd X tol) tol) (externalFloor bc)"
proof -
  let ?tol = "saturatingMul (bc_syncAllowance bc) 3"
  have "pool_height party bc \<le> saturatingAdd (partyAnchor party (observations bc) ?tol) ?tol"
    using pool_height_capped [of party bc] by (simp add: Let_def)
  also have "\<dots> \<le> saturatingAdd (saturatingAdd X ?tol) ?tol"
    by (rule saturatingAdd_mono [OF anchor_upper [OF assms]])
  finally have "max (pool_height party bc) (externalFloor bc) \<le>
      max (saturatingAdd (saturatingAdd X ?tol) ?tol) (externalFloor bc)"
    by (rule max.mono) simp
  then show ?thesis
    unfolding computePerceived_pool Let_def by (rule order_trans [OF applyExternalFloor_le])
qed

definition liar_example :: block_consensus where
  "liar_example = (NewBlockConsensus 2 0)\<lparr>observations :=
     map (\<lambda>(e, h). \<lparr>Endpoint = e, Height = h, Timestamp = 1\<rparr>) [(''liar'', 900000), (''b'', 99), (''c'', 100)]\<rparr>"

theorem lone_party_bounded_witness:
  "computePerceived (\<lambda>e. e) liar_example 5 \<le> 112"
proof -
  have vs: "voters (\<lambda>e. e) (observations liar_example) = {''liar'', ''b'', ''c''}" by code_simp
  have le: "\<forall>k \<in> {''liar'', ''b'', ''c''} - {''liar''}. vote (\<lambda>e. e) (observations liar_example) k \<le> 100"
    by code_simp
  have "computePerceived (\<lambda>e. e) liar_example 5 \<le>
      max (let tol = saturatingMul (bc_syncAllowance liar_example) 3 in saturatingAdd (saturatingAdd 100 tol) tol)
        (externalFloor liar_example)"
    by (rule lone_party_bounded [of "''liar''"]) (use le in \<open>simp_all add: vs\<close>)
  also have "\<dots> = 112" by code_simp
  finally show ?thesis .
qed

text \<open>C10. In every reachable state the consensus holds at most a thousand observations and sixteen
  rate samples, every height in it is plausible, and so is the perceived height: no supplier's
  report and no floor can drive the arithmetic near the end of its range. An accepted observation
  always leaves a head to compare with.\<close>

theorem bc_reachable_plausible:
  assumes "bc_reachable (now, bc)"
  shows "length (observations bc) \<le> 1000 \<and> length (rateSamples bc) \<le> 16 \<and>
    (\<forall>o' \<in> set (observations bc). IsPlausibleBlockHeight (Height o')) \<and>
    perceived bc \<le> MaxPlausibleBlockHeight \<and>
    (IsPlausibleBlockHeight h \<longrightarrow> 0 < perceived (AddObservation party bc ep h now))"
proof -
  have ok: "bc_ok bc" using bc_reachable_ok [OF assms] by simp
  have "0 < perceived (AddObservation party bc ep h now)" if h: "IsPlausibleBlockHeight h"
  proof -
    let ?bc = "with_obs bc ep h now"
    have ne: "observations ?bc \<noteq> []" by (simp add: with_obs_def Let_def)
    have "partyAnchor party (observations ?bc) (saturatingMul (bc_syncAllowance ?bc) 3) \<in> Height ` set (observations ?bc)"
      using anchor_in_votes [OF ne] votes_are_heights by blast
    then have "0 < partyAnchor party (observations ?bc) (saturatingMul (bc_syncAllowance ?bc) 3)"
      using with_obs_ok [OF ok h, of ep now] by (auto simp: bc_ok_def IsPlausibleBlockHeight_def)
    also have "\<dots> \<le> computePerceived party ?bc now"
      unfolding computePerceived_pool by (rule order_trans [OF anchor_le_pool [OF ne] applyExternalFloor_ge])
    finally show ?thesis using h by (simp add: AddObservation_alt Let_def)
  qed
  with ok show ?thesis
    by (auto simp: bc_ok_def defaultMaxObservations_def maxRateSamples_def)
qed

theorem bc_reachable_plausible_witness:
  "0 < perceived (AddObservation (\<lambda>e. e) (NewBlockConsensus 2 5) ''a'' 7 5)"
  using bc_reachable_plausible [OF bc_reachable.init [of 5 2], of 7 "\<lambda>e. e" "''a''"]
  by (simp add: IsPlausibleBlockHeight_def MaxPlausibleBlockHeight_def)

text \<open>A trusted outside height is a floor one allowance below itself: once the grace period
  has passed, setting it leaves the perceived height no more than the sync allowance behind it; a
  pool that is already that close is not moved at all; and during the grace period, or with no
  floor, the pool decides alone.\<close>

lemma SetExternalFloor_floor:
  assumes "IsPlausibleBlockHeight f" and "bc' = SetExternalFloor party bc f now"
  shows "(graceStart bc + gracePeriod bc \<le> now \<longrightarrow> unat f \<le> unat (perceived bc') + unat (bc_syncAllowance bc)) \<and>
    (unat f \<le> unat (pool_height party bc) + unat (bc_syncAllowance bc) \<and> bc_syncAllowance bc < f \<longrightarrow>
      perceived bc' = pool_height party bc) \<and>
    (now < graceStart bc + gracePeriod bc \<longrightarrow> perceived bc' = pool_height party bc)"
proof -
  have f: "f \<noteq> 0" using assms(1) by (auto simp: IsPlausibleBlockHeight_def)
  have "pool_height party (bc\<lparr>externalFloor := f\<rparr>) = pool_height party bc" by (simp add: pool_height_def)
  then have p: "perceived bc' = applyExternalFloor (bc\<lparr>externalFloor := f\<rparr>) (pool_height party bc) now"
    using assms by (simp add: SetExternalFloor_def Let_def computePerceived_pool)
  show ?thesis
    using f by (auto simp: p applyExternalFloor_def Let_def word_less_nat_alt unat_sub_if')
qed

lemma SetExternalFloor_floor_witness:
  "perceived (SetExternalFloor (\<lambda>e. e) pool_example 100 (31 * second)) = 101 \<and>
   200 \<le> unat (perceived (SetExternalFloor (\<lambda>e. e) pool_example 200 (31 * second))) + 2"
proof -
  have c: "unat (100 :: height) \<le> unat (pool_height (\<lambda>e. e) pool_example) + unat (bc_syncAllowance pool_example)"
    "bc_syncAllowance pool_example < 100" "pool_height (\<lambda>e. e) pool_example = 101"
    "graceStart pool_example + gracePeriod pool_example \<le> 31 * second" "unat (bc_syncAllowance pool_example) = 2"
    "IsPlausibleBlockHeight 100" "IsPlausibleBlockHeight 200" "unat (200 :: height) = 200"
    by code_simp+
  from SetExternalFloor_floor [OF c(6) refl, of pool_example "31 * second" "\<lambda>e. e"]
    SetExternalFloor_floor [OF c(7) refl, of pool_example "31 * second" "\<lambda>e. e"] c
  show ?thesis by simp
qed

text \<open>Projecting a reading to the moment of the head never lowers it and never lifts it
  above the head, so a reading only gains on the head it is compared with; a reading at or above
  the head, one of unknown time, or one without a block rate is returned as it is. (The product of
  rate and age is below the range of the heights.)\<close>

lemma Project_bounds:
  assumes "hp_rate p * seconds_of (time_sub (hp_headAt p) observedAt) < 2 ^ 63" and "unat h < 2 ^ 63"
  shows "h \<le> Project p h observedAt \<and> Project p h observedAt \<le> max h (hp_perceived p) \<and>
    (hp_rate p \<le> 0 \<or> observedAt = 0 \<or> hp_perceived p \<le> h \<longrightarrow> Project p h observedAt = h)"
proof -
  let ?age = "time_sub (hp_headAt p) observedAt"
  have "h \<le> h + to_u64 (hp_rate p * seconds_of ?age)" if "0 < hp_rate p" "0 < ?age"
  proof -
    have pos: "0 \<le> hp_rate p * seconds_of ?age" using that by (simp add: seconds_of_def)
    then have fl: "0 \<le> \<lfloor>hp_rate p * seconds_of ?age\<rfloor>" "\<lfloor>hp_rate p * seconds_of ?age\<rfloor> < 2 ^ 63"
      using assms(1) by (auto simp: floor_less_iff)
    then have "take_bit 64 \<lfloor>hp_rate p * seconds_of ?age\<rfloor> = \<lfloor>hp_rate p * seconds_of ?age\<rfloor>"
      by (intro take_bit_int_eq_self) auto
    with fl have "unat (to_u64 (hp_rate p * seconds_of ?age)) < 2 ^ 63"
      by (simp add: to_u64_def unsigned_of_int nat_less_iff)
    with assms(2) have "unat h + unat (to_u64 (hp_rate p * seconds_of ?age)) < 2 ^ LENGTH(64)" by simp
    then have "unat (h + to_u64 (hp_rate p * seconds_of ?age)) = unat h + unat (to_u64 (hp_rate p * seconds_of ?age))"
      by (rule unat_add_lem [THEN iffD1])
    then show ?thesis by (simp add: word_le_nat_alt)
  qed
  then show ?thesis by (auto simp: Project_def Let_def min_def le_max_iff_disj)
qed

lemma Project_bounds_witness:
  "let p = \<lparr>hp_rate = 2, hp_headAt = 20 * second, hp_perceived = 130, hp_window = 2 * minute\<rparr>
   in 100 \<le> Project p 100 (10 * second) \<and> Project p 100 (10 * second) \<le> 130"
proof -
  let ?p = "\<lparr>hp_rate = 2, hp_headAt = 20 * second, hp_perceived = 130, hp_window = 2 * minute\<rparr>"
  have "hp_rate ?p * seconds_of (time_sub (hp_headAt ?p) (10 * second)) < 2 ^ 63"
    by (simp add: time_sub_def min_duration_def max_duration_def seconds_of_def)
  moreover have "unat (100 :: height) < 2 ^ 63" by simp
  ultimately show ?thesis using Project_bounds [of ?p "10 * second" 100] by simp
qed

end
