(* ===== verification/Height_Select.thy ===== *)
theory Height_Select
  imports Block_Consensus
begin

text \<open>
  Endpoint selection by height (\<^verbatim>\<open>qos/selector.go\<close>), the per-endpoint store the heights
  come from (\<^verbatim>\<open>qos/endpointstore.go\<close>), the memory of one observation per host
  (\<^verbatim>\<open>qos/hostmemory.go\<close>) and the staleness check over them (\<^verbatim>\<open>qos/heighttracking.go\<close>).

  A height lookup is a function to \<open>height option\<close> (\<open>None\<close>: unknown); a nil filter list or
  ranker is \<open>None\<close>. The stored data is the type variable of the generic Go store, with the
  accessor of its height as argument.
\<close>

section \<open>Filters and tiers\<close>

type_synonym getter = "endpoint_addr \<Rightarrow> height option"
type_synonym filter_func = "endpoint_addr \<Rightarrow> bool"

record SelectResult =
  sr_endpoints :: "endpoint_addr list"
  Degraded :: bool
  Tier :: nat

definition applyFilters :: "endpoint_addr list \<Rightarrow> filter_func list \<Rightarrow> endpoint_addr list" where
  "applyFilters eps fs = (if fs = [] then eps else filter (\<lambda>ep. list_all (\<lambda>f. f ep) fs) eps)"

definition rankFallback :: "endpoint_addr list \<Rightarrow> (endpoint_addr list \<Rightarrow> endpoint_addr list) option \<Rightarrow> endpoint_addr list" where
  "rankFallback eps ranker =
     (case ranker of None \<Rightarrow> eps | Some r \<Rightarrow> if r eps \<noteq> [] then r eps else eps)"

definition informed :: "getter \<Rightarrow> endpoint_addr list \<Rightarrow> endpoint_addr list \<Rightarrow> bool" where
  "informed getHeight eps set' =
     (if \<not> list_ex (\<lambda>ep. getHeight ep \<noteq> None) eps then True else list_ex (\<lambda>ep. getHeight ep \<noteq> None) set')"

definition keepUnknown :: "getter \<Rightarrow> (endpoint_addr list \<Rightarrow> endpoint_addr list) option \<Rightarrow> endpoint_addr list \<Rightarrow> endpoint_addr list" where
  "keepUnknown getHeight ranker set' =
     (let ranked = rankFallback set' ranker
      in ranked @ filter (\<lambda>ep. getHeight ep = None \<and> ep \<notin> set ranked) set')"

definition SelectWithKnownHeights ::
  "endpoint_addr list \<Rightarrow> getter \<Rightarrow> filter_func list \<Rightarrow> filter_func list option \<Rightarrow> filter_func list option \<Rightarrow>
   (endpoint_addr list \<Rightarrow> endpoint_addr list) option \<Rightarrow> SelectResult" where
  "SelectWithKnownHeights eps getHeight filters relaxed nonHeight ranker =
     (if eps = [] then \<lparr>sr_endpoints = [], Degraded = False, Tier = 0\<rparr>
      else
        let r1 = applyFilters eps filters in
        if r1 \<noteq> [] \<and> informed getHeight eps r1 then \<lparr>sr_endpoints = r1, Degraded = False, Tier = 1\<rparr>
        else
          let r2 = (case relaxed of None \<Rightarrow> [] | Some fs \<Rightarrow> applyFilters eps fs) in
          if r2 \<noteq> [] \<and> informed getHeight eps r2 then \<lparr>sr_endpoints = r2, Degraded = True, Tier = 2\<rparr>
          else
            let r3 = (case nonHeight of None \<Rightarrow> [] | Some fs \<Rightarrow> applyFilters eps fs) in
            if r3 \<noteq> [] then \<lparr>sr_endpoints = keepUnknown getHeight ranker r3, Degraded = True, Tier = 3\<rparr>
            else \<lparr>sr_endpoints = keepUnknown getHeight ranker eps, Degraded = True, Tier = 3\<rparr>)"

definition lag_of :: "height \<Rightarrow> height \<Rightarrow> height" where
  "lag_of p h = (if p > h then p - h else 0)"

definition LeastStaleFallback :: "getter \<Rightarrow> height \<Rightarrow> endpoint_addr list \<Rightarrow> endpoint_addr list" where
  "LeastStaleFallback getHeight p eps =
     (if p = 0 \<or> length eps \<le> 1 then eps
      else
        let lags = List.map_filter (\<lambda>ep. map_option (lag_of p) (getHeight ep)) eps;
            bestLag = foldl (\<lambda>b l. if l < b then l else b) max_u64 lags
        in if lags = [] then eps
           else filter (\<lambda>ep. map_option (lag_of p) (getHeight ep) = Some bestLag) eps)"

definition MinAllowedHeight :: "height \<Rightarrow> height \<Rightarrow> height" where
  "MinAllowedHeight p allowance =
     (if p = 0 \<or> allowance = 0 then 0 else if p \<le> allowance then 0 else p - allowance)"

definition BlockHeightFilter :: "getter \<Rightarrow> height \<Rightarrow> filter_func" where
  "BlockHeightFilter getHeight minHeight ep =
     (case getHeight ep of None \<Rightarrow> True | Some h \<Rightarrow> h \<ge> minHeight)"

definition AllStale :: "endpoint_addr list \<Rightarrow> getter \<Rightarrow> height \<Rightarrow> bool" where
  "AllStale eps getHeight minHeight =
     (if eps = [] \<or> minHeight = 0 then False
      else list_all (\<lambda>ep. case getHeight ep of None \<Rightarrow> False | Some h \<Rightarrow> \<not> h \<ge> minHeight) eps)"

definition AllStaleBy :: "block_consensus \<Rightarrow> endpoint_addr list \<Rightarrow> getter \<Rightarrow> bool" where
  "AllStaleBy bc eps getHeight =
     AllStale eps getHeight (MinAllowedHeight (perceived bc) (bc_syncAllowance bc * 2))"

section \<open>The endpoint store\<close>

record 't storedEndpoint =
  Data :: 't
  HeightAt :: time

record 't endpoint_store =
  es_endpoints :: "(endpoint_addr, 't storedEndpoint) gomap"
  es_hosts :: "(string, 't storedEndpoint) gomap"

definition hostHeightMaxAge :: duration where "hostHeightMaxAge = 10 * minute"
definition hostHeightsMax :: nat where "hostHeightsMax = 4096"

definition NewEndpointStore :: "'t endpoint_store" where
  "NewEndpointStore = \<lparr>es_endpoints = [], es_hosts = []\<rparr>"

definition HeightGetter :: "'t endpoint_store \<Rightarrow> ('t \<Rightarrow> height) \<Rightarrow> HeightProjection \<Rightarrow> time \<Rightarrow> getter" where
  "HeightGetter store ht projection now addr =
     (let own = map_of (es_endpoints store) addr;
          ep = (if own = None \<or> ht (Data (the own)) = 0
                then (case map_of (es_hosts store) (Domain_addr addr) of
                        None \<Rightarrow> None
                      | Some e \<Rightarrow> if time_sub now (HeightAt e) \<le> hostHeightMaxAge then Some e else None)
                else own)
      in case ep of
           None \<Rightarrow> None
         | Some e \<Rightarrow>
             let h = ht (Data e) in
             if h = 0 then None
             else if \<not> IsPlausibleBlockHeight h \<or>
                     (hp_perceived projection > 0 \<and> h > saturatingAdd (hp_perceived projection) maxBlockHeightDelta)
             then Some 1
             else Some (Project projection h (HeightAt e)))"

definition Get_store :: "'t endpoint_store \<Rightarrow> endpoint_addr \<Rightarrow> 't option" where
  "Get_store s addr = map_option Data (map_of (es_endpoints s) addr)"

text \<open>A reading; \<open>zero\<close> is the zero value of the stored type.\<close>

definition ObserveHeight :: "'t \<Rightarrow> 't endpoint_store \<Rightarrow> endpoint_addr \<Rightarrow> ('t \<Rightarrow> 't) \<Rightarrow> time \<Rightarrow> 't endpoint_store" where
  "ObserveHeight zero s addr fn now =
     (let d = (case map_of (es_endpoints s) addr of None \<Rightarrow> zero | Some e \<Rightarrow> Data e);
          ep = \<lparr>Data = fn d, HeightAt = now\<rparr>;
          s1 = s\<lparr>es_endpoints := AList.update addr ep (es_endpoints s)\<rparr>;
          host = Domain_addr addr
      in if host = [] then s1
         else s1\<lparr>es_hosts := AList.update host ep
                (if length (es_hosts s1) \<ge> hostHeightsMax then [] else es_hosts s1)\<rparr>)"

definition Clear_store :: "'t endpoint_store \<Rightarrow> 't endpoint_store" where
  "Clear_store s = \<lparr>es_endpoints = [], es_hosts = []\<rparr>"

section \<open>The host memory\<close>

record 'v hostEntry =
  he_value :: 'v
  he_expiry :: time

record 'v host_memory =
  hm_entries :: "(string, 'v hostEntry) gomap"
  hm_ttl :: duration
  maxHosts :: nat

definition NewHostMemory :: "duration \<Rightarrow> nat \<Rightarrow> 'v host_memory" where
  "NewHostMemory ttl mh = \<lparr>hm_entries = [], hm_ttl = ttl, maxHosts = mh\<rparr>"

definition SetUntil :: "'v host_memory \<Rightarrow> string \<Rightarrow> 'v \<Rightarrow> time \<Rightarrow> 'v host_memory" where
  "SetUntil m host v expiry =
     (if host = [] then m
      else
        let es = (if map_of (hm_entries m) host = None \<and> length (hm_entries m) \<ge> maxHosts m then [] else hm_entries m)
        in m\<lparr>hm_entries := AList.update host \<lparr>he_value = v, he_expiry = expiry\<rparr> es\<rparr>)"

definition Set_hm :: "'v host_memory \<Rightarrow> string \<Rightarrow> 'v \<Rightarrow> time \<Rightarrow> 'v host_memory" where
  "Set_hm m host v now = SetUntil m host v (now + hm_ttl m)"

definition Get_hm :: "'v host_memory \<Rightarrow> string \<Rightarrow> time \<Rightarrow> 'v option" where
  "Get_hm m host now =
     (case map_of (hm_entries m) host of
        None \<Rightarrow> None | Some e \<Rightarrow> if now < he_expiry e then Some (he_value e) else None)"

definition Update_hm :: "'v host_memory \<Rightarrow> string \<Rightarrow> ('v option \<Rightarrow> 'v) \<Rightarrow> time \<Rightarrow> 'v host_memory" where
  "Update_hm m host fn now =
     (if host = [] then m
      else
        let old = Get_hm m host now;
            es = (if map_of (hm_entries m) host = None \<and> length (hm_entries m) \<ge> maxHosts m then [] else hm_entries m)
        in m\<lparr>hm_entries := AList.update host \<lparr>he_value = fn old, he_expiry = now + hm_ttl m\<rparr> es\<rparr>)"

definition Snapshot_hm :: "'v host_memory \<Rightarrow> time \<Rightarrow> (string, 'v) gomap" where
  "Snapshot_hm m now =
     map (\<lambda>(host, e). (host, he_value e)) (keep_entries (\<lambda>_ e. now < he_expiry e) (hm_entries m))"

definition Reset_hm :: "'v host_memory \<Rightarrow> 'v host_memory" where
  "Reset_hm m = m\<lparr>hm_entries := []\<rparr>"

section \<open>Lemmas: selection\<close>

lemma applyFilters_set: "set (applyFilters eps fs) = {ep \<in> set eps. \<forall>f \<in> set fs. f ep}"
  by (auto simp: applyFilters_def list_all_iff)

lemma foldl_min:
  "foldl (\<lambda>b l. if l < b then l else b) b ls = Min (insert b (set (ls :: height list)))"
proof (induction ls arbitrary: b)
  case (Cons l ls)
  have "(if l < b then l else b) = min b l" by (auto simp: min_def)
  moreover have "Min (insert (min b l) (set ls)) = Min (insert b (insert l (set ls)))"
    by (cases "ls = []") (auto simp: Min_insert min.assoc)
  ultimately show ?case using Cons by simp
qed simp

text \<open>The least-stale band of a candidate set.\<close>

definition best_known :: "getter \<Rightarrow> height \<Rightarrow> endpoint_addr set \<Rightarrow> endpoint_addr \<Rightarrow> bool" where
  "best_known getHeight p eps ep \<longleftrightarrow> (\<exists>h. getHeight ep = Some h \<and>
     (\<forall>ep' \<in> eps. \<forall>h'. getHeight ep' = Some h' \<longrightarrow> lag_of p h \<le> lag_of p h'))"

lemma LeastStale_set:
  assumes "p \<noteq> 0" and "1 < length eps" and known: "\<exists>ep \<in> set eps. getHeight ep \<noteq> None"
  shows "set (LeastStaleFallback getHeight p eps) = {ep \<in> set eps. best_known getHeight p (set eps) ep}"
proof -
  let ?lags = "List.map_filter (\<lambda>ep. map_option (lag_of p) (getHeight ep)) eps"
  let ?L = "set ?lags"
  have L: "?L = {lag_of p h | ep h. ep \<in> set eps \<and> getHeight ep = Some h}"
    by (auto simp: set_map_filter)
  have ne: "?L \<noteq> {}" using known by (auto simp: L)
  then have ne': "?lags \<noteq> []" by auto
  have best: "foldl (\<lambda>b l. if l < b then l else b) max_u64 ?lags = Min ?L"
    using ne by (simp add: foldl_min Min_insert word_order.extremum min_absorb2)
  have "map_option (lag_of p) (getHeight ep) = Some (Min ?L) \<longleftrightarrow> best_known getHeight p (set eps) ep"
    if "ep \<in> set eps" for ep
  proof (cases "getHeight ep")
    case None
    then show ?thesis by (simp add: best_known_def)
  next
    case (Some h)
    then have mem: "lag_of p h \<in> ?L" using that by (auto simp: L)
    then have "lag_of p h = Min ?L \<longleftrightarrow> (\<forall>l \<in> ?L. lag_of p h \<le> l)"
      by (metis List.finite_set Min_eqI Min_le)
    also have "\<dots> \<longleftrightarrow> best_known getHeight p (set eps) ep"
      using Some by (auto simp: L best_known_def)
    finally show ?thesis using Some by simp
  qed
  then show ?thesis using assms(1,2) ne' best by (auto simp: LeastStaleFallback_def Let_def)
qed

lemma LeastStale_subset: "set (LeastStaleFallback getHeight p eps) \<subseteq> set eps"
  by (auto simp: LeastStaleFallback_def Let_def)

lemma LeastStale_id:
  "p = 0 \<or> length eps \<le> 1 \<or> (\<forall>ep \<in> set eps. getHeight ep = None) \<Longrightarrow> LeastStaleFallback getHeight p eps = eps"
proof -
  have "(\<forall>ep \<in> set eps. getHeight ep = None) \<Longrightarrow> List.map_filter (\<lambda>ep. map_option (lag_of p) (getHeight ep)) eps = []"
    by (simp add: List.map_filter_def)
  then show "p = 0 \<or> length eps \<le> 1 \<or> (\<forall>ep \<in> set eps. getHeight ep = None) \<Longrightarrow> LeastStaleFallback getHeight p eps = eps"
    by (auto simp: LeastStaleFallback_def Let_def)
qed

lemma LeastStale_nonempty:
  assumes "eps \<noteq> []"
  shows "LeastStaleFallback getHeight p eps \<noteq> []"
proof (cases "p = 0 \<or> length eps \<le> 1 \<or> (\<forall>ep \<in> set eps. getHeight ep = None)")
  case True
  then show ?thesis using LeastStale_id [OF True] assms by simp
next
  case False
  then obtain ep h where ep: "ep \<in> set eps" "getHeight ep = Some h" by auto
  let ?L = "{lag_of p h | ep h. ep \<in> set eps \<and> getHeight ep = Some h}"
  have "?L = (\<lambda>ep. lag_of p (the (getHeight ep))) ` {ep \<in> set eps. getHeight ep \<noteq> None}"
    by (force simp: image_iff)
  then have fin: "finite ?L" by simp
  have "Min ?L \<in> ?L" using ep by (intro Min_in [OF fin]) auto
  then obtain ep' h' where ep': "ep' \<in> set eps" "getHeight ep' = Some h'" "lag_of p h' = Min ?L" by auto
  moreover have "Min ?L \<le> lag_of p h2" if "ep2 \<in> set eps" "getHeight ep2 = Some h2" for ep2 h2
    using that by (intro Min_le [OF fin]) blast
  ultimately have "best_known getHeight p (set eps) ep'" by (auto simp: best_known_def)
  with ep' have "ep' \<in> set (LeastStaleFallback getHeight p eps)"
    using False by (subst LeastStale_set) auto
  then show ?thesis by auto
qed

interpretation least_stale: soft_filter "LeastStaleFallback getHeight p" for getHeight p
  by unfold_locales (rule LeastStale_subset, rule LeastStale_nonempty)

lemma rankFallback_least_stale: "rankFallback eps (Some (LeastStaleFallback g p)) = LeastStaleFallback g p eps"
  using least_stale.narrow_nonempty by (cases "eps = []") (simp_all add: rankFallback_def least_stale.narrow_Nil)

text \<open>What tier 3 keeps of its candidates.\<close>

lemma keepUnknown_set:
  "set (keepUnknown g (Some (LeastStaleFallback g p)) eps) =
     {ep \<in> set eps. g ep = None \<or> p = 0 \<or> length eps \<le> 1 \<or> best_known g p (set eps) ep}"
proof (cases "p = 0 \<or> length eps \<le> 1 \<or> (\<forall>ep \<in> set eps. g ep = None)")
  case True
  then show ?thesis
    using LeastStale_id [OF True] by (auto simp: keepUnknown_def Let_def rankFallback_least_stale)
next
  case False
  then have "set (LeastStaleFallback g p eps) = {ep \<in> set eps. best_known g p (set eps) ep}"
    by (intro LeastStale_set) auto
  with False show ?thesis by (auto simp: keepUnknown_def Let_def rankFallback_least_stale)
qed

lemma keepUnknown_nonempty: "eps \<noteq> [] \<Longrightarrow> keepUnknown g (Some (LeastStaleFallback g p)) eps \<noteq> []"
  using least_stale.narrow_nonempty by (simp add: keepUnknown_def Let_def rankFallback_least_stale)

lemma informed_iff:
  "informed g eps s \<longleftrightarrow> ((\<exists>ep \<in> set eps. g ep \<noteq> None) \<longrightarrow> (\<exists>ep \<in> set s. g ep \<noteq> None))"
  by (auto simp: informed_def list_ex_iff)

interpretation known_heights: soft_filter
  "\<lambda>eps. sr_endpoints (SelectWithKnownHeights eps g fs relaxed nonHeight (Some (LeastStaleFallback g p)))"
  for g fs relaxed nonHeight p
proof unfold_locales
  fix eps
  show "set (sr_endpoints (SelectWithKnownHeights eps g fs relaxed nonHeight (Some (LeastStaleFallback g p)))) \<subseteq> set eps"
    by (auto simp: SelectWithKnownHeights_def Let_def keepUnknown_set applyFilters_set split: option.splits if_splits)
  show "eps \<noteq> [] \<Longrightarrow> sr_endpoints (SelectWithKnownHeights eps g fs relaxed nonHeight (Some (LeastStaleFallback g p))) \<noteq> []"
    by (auto simp: SelectWithKnownHeights_def Let_def keepUnknown_nonempty)
qed

section \<open>Lemmas: the host memory\<close>

lemma Get_hm_lapses: "Get_hm m host t = None \<Longrightarrow> t \<le> t' \<Longrightarrow> Get_hm m host t' = None"
  by (auto simp: Get_hm_def split: option.splits if_splits)

interpretation host_mem: expiring "\<lambda>m t host. Get_hm m host t \<noteq> None"
  by unfold_locales (auto dest: Get_hm_lapses)

lemma SetUntil_bounded:
  assumes "length (hm_entries m) \<le> maxHosts m" and "0 < maxHosts m"
  shows "length (hm_entries (SetUntil m host v ex)) \<le> maxHosts m"
  using assms by (auto simp: SetUntil_def Let_def length_update map_of_eq_None_iff)

lemma Get_Set_hm:
  assumes "host \<noteq> []"
  shows "Get_hm (Set_hm m host v now) host t = (if t < now + hm_ttl m then Some v else None)"
  using assms by (simp add: Get_hm_def Set_hm_def SetUntil_def Let_def gomap_simps)

section \<open>Properties\<close>

text \<open>C11. Selection by height always hands on somebody, and says truthfully how far it had to
  degrade. Tier 1 endpoints pass every filter and tier 2 endpoints the relaxed ones, and where any
  endpoint's height is known, so is the height of one of those; tier 3 is exactly the candidates of
  unknown height together with those of known height that trail the head least (all candidates
  when there is no head), among those that pass the remaining filters if any do.\<close>

theorem SelectWithKnownHeights_tiers:
  assumes "eps \<noteq> []"
    and "r = SelectWithKnownHeights eps g fs (Some relaxed) (Some nonHeight) (Some (LeastStaleFallback g p))"
  shows "sr_endpoints r \<noteq> [] \<and> set (sr_endpoints r) \<subseteq> set eps \<and> Tier r \<in> {1, 2, 3} \<and> Degraded r = (Tier r \<noteq> 1) \<and>
    (Tier r = 1 \<longrightarrow> set (sr_endpoints r) = {ep \<in> set eps. \<forall>f \<in> set fs. f ep}) \<and>
    (Tier r = 2 \<longrightarrow> set (sr_endpoints r) = {ep \<in> set eps. \<forall>f \<in> set relaxed. f ep}) \<and>
    (Tier r \<noteq> 3 \<and> (\<exists>ep \<in> set eps. g ep \<noteq> None) \<longrightarrow> (\<exists>ep \<in> set (sr_endpoints r). g ep \<noteq> None)) \<and>
    (Tier r = 3 \<longrightarrow> (let passing = applyFilters eps nonHeight; cands = (if passing = [] then eps else passing) in
      set (sr_endpoints r) = {ep \<in> set cands. g ep = None \<or> p = 0 \<or> length cands \<le> 1 \<or> best_known g p (set cands) ep}))"
proof -
  have ne: "sr_endpoints r \<noteq> []" and sub: "set (sr_endpoints r) \<subseteq> set eps"
    unfolding assms(2) by (rule known_heights.narrow_nonempty [OF assms(1)], rule known_heights.narrow_subset)
  have "Tier r \<in> {1, 2, 3}" "Degraded r = (Tier r \<noteq> 1)"
    "Tier r = 1 \<longrightarrow> sr_endpoints r = applyFilters eps fs \<and> informed g eps (sr_endpoints r)"
    "Tier r = 2 \<longrightarrow> sr_endpoints r = applyFilters eps relaxed \<and> informed g eps (sr_endpoints r)"
    "Tier r = 3 \<longrightarrow> sr_endpoints r = keepUnknown g (Some (LeastStaleFallback g p))
       (if applyFilters eps nonHeight = [] then eps else applyFilters eps nonHeight)"
    using assms by (auto simp: SelectWithKnownHeights_def Let_def split: if_splits)
  with ne sub show ?thesis
    by (auto simp: applyFilters_set informed_iff keepUnknown_set Let_def)
qed

theorem SelectWithKnownHeights_tiers_witness:
  "let g = (\<lambda>ep. if ep = ''dead'' then None else if ep = ''far'' then Some 10 else Some 50)
   in set (sr_endpoints (SelectWithKnownHeights [''dead'', ''far'', ''near''] g [BlockHeightFilter g 90]
        (Some [BlockHeightFilter g 80]) (Some []) (Some (LeastStaleFallback g 100)))) = {''dead'', ''near''}"
proof -
  let ?g = "\<lambda>ep. if ep = ''dead'' then None else if ep = ''far'' then Some 10 else Some (50 :: height)"
  let ?r = "SelectWithKnownHeights [''dead'', ''far'', ''near''] ?g [BlockHeightFilter ?g 90]
        (Some [BlockHeightFilter ?g 80]) (Some []) (Some (LeastStaleFallback ?g 100))"
  have t: "Tier ?r = 3" by code_simp
  have "set (sr_endpoints ?r) = {ep \<in> {''dead'', ''far'', ''near''}. ?g ep = None \<or> best_known ?g 100 {''dead'', ''far'', ''near''} ep}"
    using SelectWithKnownHeights_tiers [of "[''dead'', ''far'', ''near'']" ?r ?g "[BlockHeightFilter ?g 90]"
        "[BlockHeightFilter ?g 80]" "[]" 100] t
    by (simp add: applyFilters_def)
  also have "\<dots> = {''dead'', ''near''}" by (auto simp: best_known_def lag_of_def)
  finally show ?thesis by simp
qed

text \<open>A pool is reported as wholly stale exactly when the relaxed height filter would leave
  nobody: every endpoint has a known height and all of them lie below the bound. No allowance, or no
  head yet, never reports a stale pool.\<close>

lemma AllStaleBy_iff_filter_empties:
  "let bound = MinAllowedHeight (perceived bc) (bc_syncAllowance bc * 2)
   in (AllStaleBy bc eps g \<longleftrightarrow> eps \<noteq> [] \<and> applyFilters eps [BlockHeightFilter g bound] = []) \<and>
      (AllStaleBy bc eps g \<longrightarrow> perceived bc \<noteq> 0 \<and> bc_syncAllowance bc \<noteq> 0 \<and>
         (\<forall>ep \<in> set eps. \<exists>h. g ep = Some h \<and> unat h + unat (bc_syncAllowance bc * 2) < unat (perceived bc)))"
proof -
  let ?b = "MinAllowedHeight (perceived bc) (bc_syncAllowance bc * 2)"
  have iff: "AllStaleBy bc eps g \<longleftrightarrow> eps \<noteq> [] \<and> applyFilters eps [BlockHeightFilter g ?b] = []"
    by (cases "?b = 0")
      (auto simp: AllStaleBy_def AllStale_def applyFilters_def BlockHeightFilter_def list_all_iff filter_empty_conv
        split: option.splits)
  have "perceived bc \<noteq> 0 \<and> bc_syncAllowance bc \<noteq> 0 \<and>
      (\<forall>ep \<in> set eps. \<exists>h. g ep = Some h \<and> unat h + unat (bc_syncAllowance bc * 2) < unat (perceived bc))"
    if st: "AllStaleBy bc eps g"
  proof -
    have "?b \<noteq> 0" using st by (auto simp: AllStaleBy_def AllStale_def split: if_splits)
    then have b: "perceived bc \<noteq> 0" "bc_syncAllowance bc * 2 \<noteq> 0" "bc_syncAllowance bc * 2 < perceived bc"
      "?b = perceived bc - bc_syncAllowance bc * 2"
      by (auto simp: MinAllowedHeight_def split: if_splits)
    then have "unat ?b = unat (perceived bc) - unat (bc_syncAllowance bc * 2)"
      by (simp add: unat_sub)
    moreover have "\<forall>ep \<in> set eps. \<exists>h. g ep = Some h \<and> unat h < unat ?b"
      using st by (fastforce simp: AllStaleBy_def AllStale_def list_all_iff word_le_nat_alt not_le
          split: if_splits option.splits)
    ultimately show ?thesis using b(1,2) by fastforce
  qed
  with iff show ?thesis by (simp add: Let_def)
qed

lemma AllStaleBy_iff_filter_empties_witness:
  "AllStaleBy ((NewBlockConsensus 5 0)\<lparr>perceived := 100\<rparr>) [''a''] (\<lambda>_. Some 80) \<and>
   \<not> AllStaleBy (NewBlockConsensus 5 0) [''a''] (\<lambda>_. Some 80)"
proof -
  have a: "applyFilters [''a''] [BlockHeightFilter (\<lambda>_. Some 80)
      (MinAllowedHeight (perceived ((NewBlockConsensus 5 0)\<lparr>perceived := 100\<rparr>))
        (bc_syncAllowance ((NewBlockConsensus 5 0)\<lparr>perceived := 100\<rparr>) * 2))] = []" by code_simp
  have p: "perceived (NewBlockConsensus 5 0) = 0" by (simp add: NewBlockConsensus_def)
  have "AllStaleBy ((NewBlockConsensus 5 0)\<lparr>perceived := 100\<rparr>) [''a''] (\<lambda>_. Some 80)"
    using AllStaleBy_iff_filter_empties [of "(NewBlockConsensus 5 0)\<lparr>perceived := 100\<rparr>" "[''a'']" "\<lambda>_. Some 80"] a
    by (simp only: Let_def) simp
  moreover have "\<not> AllStaleBy (NewBlockConsensus 5 0) [''a''] (\<lambda>_. Some 80)"
    using AllStaleBy_iff_filter_empties [of "NewBlockConsensus 5 0" "[''a'']" "\<lambda>_. Some 80"] p
    by (auto simp: Let_def)
  ultimately show ?thesis ..
qed

end
