(* ===== verification/Rep_Signals.thy ===== *)
theory Rep_Signals
  imports Domain_Types
begin

text \<open>
  What one relay attempt means to a score (\<^verbatim>\<open>reputation/signals.go\<close>) and the chronic-failure
  term (\<^verbatim>\<open>reputation/rate.go\<close>): impacts per signal type, the failure rate and the penalty it
  carries, and what a score is attached to (\<^verbatim>\<open>reputation/key.go\<close>).

  The logarithm and the exponential are those of the reals.
\<close>

section \<open>Signals\<close>

type_synonym signal_type = string

definition SignalSuccess :: signal_type where "SignalSuccess = ''success''"
definition SignalMinorError :: signal_type where "SignalMinorError = ''minor_error''"
definition SignalMajorError :: signal_type where "SignalMajorError = ''major_error''"
definition SignalCriticalError :: signal_type where "SignalCriticalError = ''critical_error''"
definition SignalFatalError :: signal_type where "SignalFatalError = ''fatal_error''"

lemmas signal_types = SignalSuccess_def SignalMinorError_def SignalMajorError_def SignalCriticalError_def SignalFatalError_def

record Signal =
  Type :: signal_type
  Timestamp :: time
  Latency :: duration
  Reason :: string
  Probe :: bool
  Leftover :: bool
  Class :: string
  Weight :: int

definition NewSignal :: "signal_type \<Rightarrow> string \<Rightarrow> duration \<Rightarrow> time \<Rightarrow> Signal" where
  "NewSignal t reason lat now = \<lparr>Type = t, Timestamp = now, Latency = lat, Reason = reason,
     Probe = False, Leftover = False, Class = [], Weight = 0\<rparr>"

definition defaultImpacts :: "signal_type \<Rightarrow> int" where
  "defaultImpacts t =
     (if t = SignalSuccess then 5 else if t = SignalMinorError then -3 else if t = SignalMajorError then -10
      else if t = SignalCriticalError then -25 else if t = SignalFatalError then -50 else 0)"

record SignalImpacts =
  imp_Success :: int
  imp_MinorError :: int
  imp_MajorError :: int
  imp_CriticalError :: int
  imp_FatalError :: int

definition impacts_Normalized :: "SignalImpacts \<Rightarrow> SignalImpacts" where
  "impacts_Normalized i =
     (let def = (\<lambda>v t. if v = 0 then defaultImpacts t else v) in
      \<lparr>imp_Success = def (imp_Success i) SignalSuccess,
       imp_MinorError = def (imp_MinorError i) SignalMinorError,
       imp_MajorError = def (imp_MajorError i) SignalMajorError,
       imp_CriticalError = def (imp_CriticalError i) SignalCriticalError,
       imp_FatalError = def (imp_FatalError i) SignalFatalError\<rparr>)"

definition Impact :: "SignalImpacts \<Rightarrow> signal_type \<Rightarrow> real" where
  "Impact i t = real_of_int
     (if t = SignalSuccess then imp_Success i else if t = SignalMinorError then imp_MinorError i
      else if t = SignalMajorError then imp_MajorError i else if t = SignalCriticalError then imp_CriticalError i
      else if t = SignalFatalError then imp_FatalError i else 0)"

section \<open>The chronic-failure term\<close>

definition DefaultHalfLifeAttempts :: int where "DefaultHalfLifeAttempts = 20000"
definition DefaultOnsetRate :: real where "DefaultOnsetRate = 0.0002"
definition DefaultFullRate :: real where "DefaultFullRate = 0.01"
definition penaltyAtFull :: real where "penaltyAtFull = -40"
definition penaltyCap :: real where "penaltyCap = -70"

record RateConfig =
  HalfLifeAttempts :: int
  OnsetRate :: real
  FullRate :: real

definition Defaulted :: "RateConfig \<Rightarrow> RateConfig" where
  "Defaulted c =
     \<lparr>HalfLifeAttempts = (if HalfLifeAttempts c = 0 then DefaultHalfLifeAttempts else HalfLifeAttempts c),
      OnsetRate = (if OnsetRate c = 0 then DefaultOnsetRate else OnsetRate c),
      FullRate = (if FullRate c = 0 then DefaultFullRate else FullRate c)\<rparr>"

definition Normalized :: "RateConfig \<Rightarrow> RateConfig" where
  "Normalized c0 =
     (let c = Defaulted c0 in
      if OnsetRate c < 0 \<or> FullRate c < 0 \<or> FullRate c \<ge> 1 \<or> FullRate c \<le> OnsetRate c
      then c\<lparr>OnsetRate := DefaultOnsetRate, FullRate := DefaultFullRate\<rparr> else c)"

definition Enabled :: "RateConfig \<Rightarrow> bool" where
  "Enabled c \<longleftrightarrow> HalfLifeAttempts c > 0"

definition Lambda :: "RateConfig \<Rightarrow> real" where
  "Lambda c = (if \<not> Enabled c then 0 else ln 2 / real_of_int (HalfLifeAttempts c))"

definition Penalty :: "RateConfig \<Rightarrow> real \<Rightarrow> real" where
  "Penalty c rate =
     (if \<not> Enabled c \<or> rate \<le> OnsetRate c then 0
      else let span = log 10 (FullRate c / OnsetRate c) in
        if rate \<le> FullRate c then penaltyAtFull * log 10 (rate / OnsetRate c) / span
        else max (penaltyAtFull + (penaltyCap - penaltyAtFull) * log 10 (rate / FullRate c)) penaltyCap)"

definition FailureWeight :: "signal_type \<Rightarrow> real" where
  "FailureWeight t =
     (if t = SignalCriticalError \<or> t = SignalFatalError then 1 else if t = SignalMajorError then 1 / 2 else 0)"

definition wsRateHalfLife :: duration where "wsRateHalfLife = 6 * hour"

definition decayWSRate :: "real \<Rightarrow> int \<Rightarrow> time \<Rightarrow> real" where
  "decayWSRate rate lst now =
     (if rate = 0 \<or> lst = 0 then rate
      else let dt = time_sub now (time_unix lst) in
        if dt \<le> 0 then rate else rate * 2 powr (- (real_of_int dt / real_of_int wsRateHalfLife)))"

section \<open>What a score is attached to\<close>

definition KeyPerURL :: string where "KeyPerURL = ''per-url''"
definition KeyPerEndpoint :: string where "KeyPerEndpoint = ''per-endpoint''"
definition KeyPerDomain :: string where "KeyPerDomain = ''per-domain''"
definition KeyPerSupplier :: string where "KeyPerSupplier = ''per-supplier''"

type_synonym key_fn = "endpoint_addr \<Rightarrow> rpc_type \<Rightarrow> string"
type_synonym url_resolver = "endpoint_addr \<Rightarrow> rpc_type \<Rightarrow> string option"

definition cmp_or :: "string \<Rightarrow> string \<Rightarrow> string" where
  "cmp_or a b = (if a = [] then b else a)"

definition key_base :: "string \<Rightarrow> endpoint_addr \<Rightarrow> string" where
  "key_base granularity ep =
     (if granularity = KeyPerEndpoint then ep
      else if granularity = KeyPerDomain then cmp_or (Domain_addr ep) ep
      else if granularity = KeyPerSupplier then cmp_or (Supplier ep) ep
      else case URL ep of None \<Rightarrow> ep | Some url \<Rightarrow> cmp_or url ep)"

definition keyFnFor :: "string \<Rightarrow> url_resolver option \<Rightarrow> key_fn" where
  "keyFnFor granularity resolve ep rpc =
     (case (if granularity = [] \<or> granularity = KeyPerURL
            then Option.bind resolve (\<lambda>f. Option.bind (f ep rpc) (\<lambda>url. if url \<noteq> [] then Some url else None))
            else None) of
        Some url \<Rightarrow> url @ ''|'' @ rpc
      | None \<Rightarrow> key_base granularity ep @ ''|'' @ rpc)"

definition maxKeyCacheEntries :: nat where "maxKeyCacheEntries = 100000"

type_synonym key_memo = "((endpoint_addr \<times> rpc_type), string) gomap"

definition memoize :: "key_fn \<Rightarrow> key_memo \<Rightarrow> endpoint_addr \<Rightarrow> rpc_type \<Rightarrow> string \<times> key_memo" where
  "memoize fn m ep rpc =
     (case map_of m (ep, rpc) of
        Some cached \<Rightarrow> (cached, m)
      | None \<Rightarrow>
          let key = fn ep rpc; m' = AList.update (ep, rpc) key m
          in (key, if length m' > maxKeyCacheEntries then [] else m'))"

definition ValidKeyGranularity :: "string \<Rightarrow> bool" where
  "ValidKeyGranularity name \<longleftrightarrow> name \<in> set [[], KeyPerURL, KeyPerEndpoint, KeyPerDomain, KeyPerSupplier]"

text \<open>The two halves of a key, read from the right.\<close>

definition rpcOfKey :: "string \<Rightarrow> string" where
  "rpcOfKey key = (case str_after_last (CHR ''|'') key of Some r \<Rightarrow> r | None \<Rightarrow> [])"

definition operatorOfKey :: "psl \<Rightarrow> string \<Rightarrow> string" where
  "operatorOfKey psl key =
     (case str_before_last (CHR ''|'') key of
        None \<Rightarrow> []
      | Some identity \<Rightarrow> (let op = OperatorOfURL psl identity in if op \<noteq> [] then op else identity))"

section \<open>Lemmas\<close>

lemma Normalized_ok:
  "0 < OnsetRate (Normalized c)" "OnsetRate (Normalized c) < FullRate (Normalized c)" "FullRate (Normalized c) < 1"
  by (auto simp: Normalized_def Defaulted_def Let_def DefaultOnsetRate_def DefaultFullRate_def)

lemma Lambda_bounds: "0 \<le> Lambda c" "Lambda c < 1"
proof -
  have "0 < ln (2 :: real)" "ln (2 :: real) < 1" using ln_2_less_1 by auto
  then show "0 \<le> Lambda c" "Lambda c < 1"
    by (auto simp: Lambda_def Enabled_def divide_less_eq)
qed

lemma FailureWeight_bounds: "0 \<le> FailureWeight t" "FailureWeight t \<le> 1"
  by (auto simp: FailureWeight_def)

text \<open>The branches of the penalty for rates \<open>0 < onset < full\<close>.\<close>

locale rate_curve =
  fixes c :: RateConfig
  assumes onset: "0 < OnsetRate c" and full: "OnsetRate c < FullRate c"
begin

lemma span_pos: "0 < log 10 (FullRate c / OnsetRate c)"
  using onset full by simp

lemma low: "rate \<le> OnsetRate c \<Longrightarrow> Penalty c rate = 0"
  by (simp add: Penalty_def)

lemma mid: "Enabled c \<Longrightarrow> OnsetRate c < rate \<Longrightarrow> rate \<le> FullRate c \<Longrightarrow>
    Penalty c rate = -40 * (log 10 (rate / OnsetRate c) / log 10 (FullRate c / OnsetRate c))"
  by (simp add: Penalty_def penaltyAtFull_def)

lemma high: "Enabled c \<Longrightarrow> FullRate c < rate \<Longrightarrow>
    Penalty c rate = max (-40 - 30 * log 10 (rate / FullRate c)) (-70)"
  using full by (simp add: Penalty_def penaltyAtFull_def penaltyCap_def)

lemma mid_part:
  assumes "OnsetRate c < rate" and "rate \<le> FullRate c"
  shows "0 < log 10 (rate / OnsetRate c) / log 10 (FullRate c / OnsetRate c)"
    "log 10 (rate / OnsetRate c) / log 10 (FullRate c / OnsetRate c) \<le> 1"
proof -
  show "0 < log 10 (rate / OnsetRate c) / log 10 (FullRate c / OnsetRate c)"
    using assms onset span_pos by (intro divide_pos_pos) simp_all
  have "log 10 (rate / OnsetRate c) \<le> log 10 (FullRate c / OnsetRate c)"
    using assms onset full by (simp add: divide_right_mono)
  then show "log 10 (rate / OnsetRate c) / log 10 (FullRate c / OnsetRate c) \<le> 1"
    using span_pos by (simp add: divide_le_eq_1)
qed

lemma penalty_range: "-70 \<le> Penalty c rate" "Penalty c rate \<le> 0"
proof -
  consider "\<not> Enabled c \<or> rate \<le> OnsetRate c" | "Enabled c" "OnsetRate c < rate" "rate \<le> FullRate c"
    | "Enabled c" "FullRate c < rate" by linarith
  then have "-70 \<le> Penalty c rate \<and> Penalty c rate \<le> 0"
  proof cases
    case 1
    then show ?thesis by (auto simp: Penalty_def)
  next
    case 2
    show ?thesis using mid [OF 2] mid_part [OF 2(2,3)] by linarith
  next
    case 3
    then have "0 < log 10 (rate / FullRate c)" using onset full by simp
    then show ?thesis using 3 high by simp
  qed
  then show "-70 \<le> Penalty c rate" "Penalty c rate \<le> 0" by auto
qed

lemma penalty_zero: "Penalty c rate = 0 \<longleftrightarrow> \<not> Enabled c \<or> rate \<le> OnsetRate c"
proof -
  consider "\<not> Enabled c \<or> rate \<le> OnsetRate c" | "Enabled c" "OnsetRate c < rate" "rate \<le> FullRate c"
    | "Enabled c" "FullRate c < rate" by linarith
  then show ?thesis
  proof cases
    case 1
    then show ?thesis by (auto simp: Penalty_def)
  next
    case 2
    then have "Penalty c rate < 0" using mid [OF 2] mid_part(1) [OF 2(2,3)] by linarith
    then show ?thesis using 2 by simp
  next
    case 3
    then have "0 < log 10 (rate / FullRate c)" using onset full by simp
    then have "Penalty c rate < 0" using 3 high by simp
    then show ?thesis using 3 full by simp
  qed
qed

lemma penalty_antimono:
  assumes "r \<le> s"
  shows "Penalty c s \<le> Penalty c r"
proof (cases "\<not> Enabled c \<or> r \<le> OnsetRate c")
  case True
  then have "Penalty c r = 0" by (simp add: penalty_zero)
  then show ?thesis using penalty_range(2) by simp
next
  case False
  then have e: "Enabled c" and r: "OnsetRate c < r" by auto
  consider "s \<le> FullRate c" | "r \<le> FullRate c" "FullRate c < s" | "FullRate c < r" using assms by linarith
  then show ?thesis
  proof cases
    case 1
    have "log 10 (r / OnsetRate c) \<le> log 10 (s / OnsetRate c)"
      using assms r onset by (simp add: divide_right_mono)
    then have "log 10 (r / OnsetRate c) / log 10 (FullRate c / OnsetRate c) \<le> log 10 (s / OnsetRate c) / log 10 (FullRate c / OnsetRate c)"
      using span_pos by (intro divide_right_mono) auto
    then show ?thesis using mid [OF e r] mid [OF e, of s] r 1 assms by (simp only:)
  next
    case 2
    have "0 < log 10 (s / FullRate c)" using 2(2) onset full by simp
    then have "Penalty c s \<le> -40" using high [OF e 2(2)] by simp
    also have "\<dots> \<le> Penalty c r" using mid [OF e r 2(1)] mid_part(2) [OF r 2(1)] by linarith
    finally show ?thesis .
  next
    case 3
    have "log 10 (r / FullRate c) \<le> log 10 (s / FullRate c)"
      using assms 3 onset full by (simp add: divide_right_mono)
    then show ?thesis using high [OF e] 3 assms by simp
  qed
qed

end

interpretation normal: rate_curve "Normalized c" for c
  by unfold_locales (rule Normalized_ok)+

lemma rpcOfKey_keyFnFor: "CHR ''|'' \<notin> set rpc \<Longrightarrow> rpcOfKey (keyFnFor g r ep rpc) = rpc"
  by (auto simp: rpcOfKey_def keyFnFor_def str_after_last_found split: option.splits)

lemma operatorOfKey_identity:
  "CHR ''|'' \<notin> set rpc \<Longrightarrow> operatorOfKey psl (ident @ ''|'' @ rpc) =
     (let op = OperatorOfURL psl ident in if op \<noteq> [] then op else ident)"
  by (simp add: operatorOfKey_def str_before_last_found)

definition memo_ok :: "key_fn \<Rightarrow> key_memo \<Rightarrow> bool" where
  "memo_ok fn m \<longleftrightarrow> (\<forall>ep rpc k. map_of m (ep, rpc) = Some k \<longrightarrow> k = fn ep rpc) \<and> length m \<le> maxKeyCacheEntries"

text \<open>The memo of keys is transparent and bounded.\<close>

lemma memoize_transparent:
  assumes "memo_ok fn m"
  shows "fst (memoize fn m ep rpc) = fn ep rpc" "memo_ok fn (snd (memoize fn m ep rpc))"
proof -
  show "fst (memoize fn m ep rpc) = fn ep rpc"
    using assms by (auto simp: memoize_def memo_ok_def Let_def split: option.splits)
  show "memo_ok fn (snd (memoize fn m ep rpc))"
    using assms by (auto simp: memoize_def memo_ok_def Let_def gomap_simps split: option.splits if_splits)
qed

section \<open>Properties\<close>

text \<open>C20. The chronic penalty is a curve an operator can reason about, whatever configuration is given: once
  normalised, the rates are in order, the penalty is zero exactly up to the onset rate (or with the term off),
  is forty points at the full rate, never leaves the range from minus seventy to zero, is minus seventy from ten
  times the full rate on, and never rewards a higher failure rate.\<close>

theorem Penalty_curve:
  "let c = Normalized c0 in
     (Penalty c r = 0 \<longleftrightarrow> \<not> Enabled c \<or> r \<le> OnsetRate c) \<and>
     (Enabled c \<longrightarrow> Penalty c (FullRate c) = -40) \<and>
     (Enabled c \<and> 10 * FullRate c \<le> r \<longrightarrow> Penalty c r = -70) \<and>
     -70 \<le> Penalty c r \<and> Penalty c r \<le> 0 \<and> (r \<le> s \<longrightarrow> Penalty c s \<le> Penalty c r)"
proof -
  let ?c = "Normalized c0"
  have "Penalty ?c (FullRate ?c) = -40" if "Enabled ?c"
    using normal.mid [OF that Normalized_ok(2)] normal.span_pos [of c0] by simp
  moreover have "Penalty ?c r = -70" if "Enabled ?c" "10 * FullRate ?c \<le> r"
  proof -
    have f: "0 < FullRate ?c" using Normalized_ok(1,2) [of c0] by linarith
    have "10 \<le> r / FullRate ?c" using that(2) f by (simp add: pos_le_divide_eq)
    then have "log 10 10 \<le> log 10 (r / FullRate ?c)" by (simp del: log_eq_one)
    then have "1 \<le> log 10 (r / FullRate ?c)" by simp
    moreover have "FullRate ?c < r" using that(2) f by linarith
    ultimately show ?thesis using normal.high [OF that(1)] by simp
  qed
  ultimately show ?thesis
    using normal.penalty_zero [of c0 r] normal.penalty_range [of c0 r] normal.penalty_antimono [of r s c0]
    by (simp add: Let_def)
qed

theorem Penalty_curve_witness:
  "let c = Normalized \<lparr>HalfLifeAttempts = 0, OnsetRate = 1 / 1000, FullRate = 1 / 100\<rparr> in
     Penalty c (1 / 100) = -40 \<and> Penalty c (1 / 2) = -70"
proof -
  let ?c0 = "\<lparr>HalfLifeAttempts = 0, OnsetRate = 1 / 1000, FullRate = 1 / 100 :: real\<rparr>"
  have c: "Normalized ?c0 = \<lparr>HalfLifeAttempts = 20000, OnsetRate = 1 / 1000, FullRate = 1 / 100\<rparr>"
    by (simp add: Normalized_def Defaulted_def DefaultHalfLifeAttempts_def)
  show ?thesis
    using Penalty_curve [of ?c0 "1 / 2" "1 / 2"] unfolding c by (simp add: Enabled_def Let_def)
qed

end
