(* ===== verification/Rep_Evidence.thy ===== *)
theory Rep_Evidence
  imports Rep_Signals
begin

text \<open>
  The decayed evidence kept per operator or party (\<^verbatim>\<open>reputation/opstats.go\<close>): counts of
  attempts and failures that age with the clock, the rate they give, the forgiveness a recovered
  operator earns, and the tracker that holds them.
\<close>

section \<open>One counter\<close>

record OperatorStat =
  Attempts :: real
  Failures :: real
  UpdatedAt :: int
  CleanRun :: int
  HealedAt :: int

definition no_stat :: OperatorStat where
  "no_stat = \<lparr>Attempts = 0, Failures = 0, UpdatedAt = 0, CleanRun = 0, HealedAt = 0\<rparr>"

definition DefaultOperatorHalfLife :: duration where "DefaultOperatorHalfLife = 6 * hour"
definition operatorHealAfter :: int where "operatorHealAfter = 20"
definition operatorHealHalfLife :: duration where "operatorHealHalfLife = hour"
definition minOperatorAttempts :: real where "minOperatorAttempts = 200"

definition half_factor :: "duration \<Rightarrow> duration \<Rightarrow> real" where
  "half_factor elapsed hl = exp (- (ln 2) * seconds_of elapsed / seconds_of hl)"

definition decayTo :: "OperatorStat \<Rightarrow> time \<Rightarrow> duration \<Rightarrow> OperatorStat" where
  "decayTo s now hl =
     (if UpdatedAt s \<le> 0 \<or> hl \<le> 0 then s\<lparr>UpdatedAt := unix_of now\<rparr>
      else let elapsed = time_sub now (time_unix (UpdatedAt s)) in
        if elapsed \<le> 0 then s
        else let factor = half_factor elapsed hl in
          s\<lparr>Attempts := Attempts s * factor, Failures := Failures s * factor, UpdatedAt := unix_of now\<rparr>)"

definition op_rate :: "OperatorStat \<Rightarrow> real" where
  "op_rate s = (if Attempts s < minOperatorAttempts then 0 else min (Failures s / Attempts s) 1)"

definition RateAt :: "OperatorStat \<Rightarrow> time \<Rightarrow> real" where
  "RateAt s now =
     (let r = op_rate s in
      if HealedAt s \<le> 0 \<or> r = 0 then r
      else let since = time_sub now (time_unix (HealedAt s)) in
        if since \<le> 0 then r else r * half_factor since operatorHealHalfLife)"

section \<open>Fields in storage\<close>

type_synonym opID = "service_id \<times> string \<times> string"

definition OperatorField :: "service_id \<Rightarrow> string \<Rightarrow> rpc_type \<Rightarrow> string" where
  "OperatorField sid operator rpc = sid @ ''|'' @ operator @ ''|'' @ rpc"

definition parseOperatorField :: "string \<Rightarrow> opID option" where
  "parseOperatorField field =
     (case str_split (CHR ''|'') field of
        [a, b, c] \<Rightarrow> if a = [] \<or> b = [] then None else Some (a, b, c)
      | _ \<Rightarrow> None)"

section \<open>The tracker\<close>

text \<open>The marks of changed counters are a set, absent (\<open>None\<close>) in a tracker that is never stored.\<close>

record opTracker =
  halfLife :: duration
  stats :: "(opID, OperatorStat) gomap"
  dirty :: "opID list option"

definition newOpTracker :: "duration \<Rightarrow> opTracker" where
  "newOpTracker hl = \<lparr>halfLife = (if hl \<le> 0 then DefaultOperatorHalfLife else hl), stats = [], dirty = Some []\<rparr>"

definition stat_of :: "opTracker \<Rightarrow> opID \<Rightarrow> OperatorStat" where
  "stat_of t oid = (case map_of (stats t) oid of None \<Rightarrow> no_stat | Some s \<Rightarrow> s)"

definition mark :: "opTracker \<Rightarrow> opID \<Rightarrow> opTracker" where
  "mark t oid = t\<lparr>dirty := map_option (List.insert oid) (dirty t)\<rparr>"

definition record_stat :: "OperatorStat \<Rightarrow> real \<Rightarrow> time \<Rightarrow> OperatorStat" where
  "record_stat st0 failure now =
     (let st = st0\<lparr>Attempts := Attempts st0 + 1\<rparr>;
          st = (if failure > 0 \<and> HealedAt st > 0
                then let r = op_rate st in if r > 0 then st\<lparr>Failures := Failures st * (RateAt st now / r)\<rparr> else st
                else st);
          st = st\<lparr>Failures := Failures st + failure\<rparr>
      in if failure > 0 then st\<lparr>CleanRun := 0, HealedAt := 0\<rparr>
         else let n = CleanRun st + 1; st = st\<lparr>CleanRun := n\<rparr> in
           if n = operatorHealAfter then st\<lparr>HealedAt := unix_of now\<rparr> else st)"

definition op_record :: "opTracker \<Rightarrow> opID \<Rightarrow> real \<Rightarrow> time \<Rightarrow> opTracker" where
  "op_record t oid failure now =
     mark (t\<lparr>stats := AList.update oid (record_stat (decayTo (stat_of t oid) now (halfLife t)) failure now) (stats t)\<rparr>) oid"

definition recordN :: "opTracker \<Rightarrow> opID \<Rightarrow> real \<Rightarrow> real \<Rightarrow> time \<Rightarrow> opTracker" where
  "recordN t oid n failures now =
     (let st = decayTo (stat_of t oid) now (halfLife t) in
      t\<lparr>stats := AList.update oid (st\<lparr>Attempts := Attempts st + n, Failures := Failures st + failures\<rparr>) (stats t)\<rparr>)"

definition op_get :: "opTracker \<Rightarrow> opID \<Rightarrow> time \<Rightarrow> OperatorStat option" where
  "op_get t oid now = map_option (\<lambda>st. decayTo st now (halfLife t)) (map_of (stats t) oid)"

definition op_snapshot :: "opTracker \<Rightarrow> time \<Rightarrow> (opID, OperatorStat) gomap \<times> opTracker" where
  "op_snapshot t now =
     (let kept = filter (\<lambda>(oid, st). \<not> Attempts (decayTo st now (halfLife t)) < 1) (stats t)
      in (map (\<lambda>(oid, st). (oid, decayTo st now (halfLife t))) kept, t\<lparr>stats := kept\<rparr>))"

definition takeDirty :: "opTracker \<Rightarrow> time \<Rightarrow> (opID, OperatorStat) gomap \<times> opTracker" where
  "takeDirty t now =
     (case dirty t of
        None \<Rightarrow> ([], t)
      | Some [] \<Rightarrow> ([], t)
      | Some oids \<Rightarrow> (map (\<lambda>oid. (oid, decayTo (stat_of t oid) now (halfLife t))) oids, t\<lparr>dirty := Some []\<rparr>))"

fun op_merge :: "opTracker \<Rightarrow> (string, OperatorStat) gomap \<Rightarrow> time \<Rightarrow> nat \<times> opTracker" where
  "op_merge t [] now = (0, t)"
| "op_merge t ((field, st) # stored) now =
     (case parseOperatorField field of
        None \<Rightarrow> op_merge t stored now
      | Some oid \<Rightarrow>
          let aged = decayTo st now (halfLife t) in
          if (case map_of (stats t) oid of None \<Rightarrow> False
              | Some cur \<Rightarrow> Attempts (decayTo cur now (halfLife t)) \<ge> Attempts aged)
          then op_merge t stored now
          else case op_merge (t\<lparr>stats := AList.update oid aged (stats t)\<rparr>) stored now of
                 (n, t') \<Rightarrow> (Suc n, t'))"

definition op_reset :: "opTracker \<Rightarrow> service_id \<Rightarrow> string \<Rightarrow> time \<Rightarrow> nat \<times> opTracker" where
  "op_reset t sid operator now =
     (let hit = (\<lambda>oid. fst oid = sid \<and> fst (snd oid) = operator);
          oids = filter hit (map fst (stats t))
      in (length oids,
          fold (\<lambda>oid t. mark t oid) oids
            (t\<lparr>stats := map (\<lambda>(oid, st). (oid, if hit oid then no_stat\<lparr>UpdatedAt := unix_of now\<rparr> else st)) (stats t)\<rparr>)))"

definition op_len :: "opTracker \<Rightarrow> nat" where
  "op_len t = length (stats t)"

section \<open>Lemmas: one counter\<close>

definition stat_ok :: "OperatorStat \<Rightarrow> bool" where
  "stat_ok s \<longleftrightarrow> 0 \<le> Failures s \<and> Failures s \<le> Attempts s"

lemma half_factor_bounds:
  assumes "0 < hl" and "0 < elapsed"
  shows "0 < half_factor elapsed hl" "half_factor elapsed hl < 1"
  using assms by (simp_all add: half_factor_def seconds_of_def)

lemma decayTo_ok: "stat_ok s \<Longrightarrow> stat_ok (decayTo s now hl)"
  using half_factor_bounds [of hl "time_sub now (time_unix (UpdatedAt s))"]
  by (auto simp: stat_ok_def decayTo_def Let_def intro: mult_right_mono)

lemma decayTo_attempts_le: "0 \<le> Attempts s \<Longrightarrow> Attempts (decayTo s now hl) \<le> Attempts s"
  using half_factor_bounds [of hl "time_sub now (time_unix (UpdatedAt s))"]
  by (auto simp: decayTo_def Let_def mult_left_le)

lemma op_rate_bounds: "stat_ok s \<Longrightarrow> 0 \<le> op_rate s" "op_rate s \<le> 1"
  by (auto simp: op_rate_def stat_ok_def minOperatorAttempts_def divide_le_eq)

lemma op_rate_ok: "stat_ok s \<Longrightarrow> minOperatorAttempts \<le> Attempts s \<Longrightarrow> op_rate s = Failures s / Attempts s"
  by (simp add: op_rate_def stat_ok_def minOperatorAttempts_def)

definition forgiven :: "OperatorStat \<Rightarrow> time \<Rightarrow> real" where
  "forgiven s now =
     (let since = time_sub now (time_unix (HealedAt s)) in
      if HealedAt s \<le> 0 \<or> since \<le> 0 then 1 else half_factor since operatorHealHalfLife)"

lemma RateAt_forgiven: "RateAt s now = op_rate s * forgiven s now"
  by (auto simp: RateAt_def forgiven_def Let_def)

lemma forgiven_bounds: "0 < forgiven s now" "forgiven s now \<le> 1"
  using half_factor_bounds [of operatorHealHalfLife "time_sub now (time_unix (HealedAt s))"]
  by (auto simp: forgiven_def Let_def operatorHealHalfLife_def)

lemma RateAt_bounds: "stat_ok s \<Longrightarrow> 0 \<le> RateAt s now" "stat_ok s \<Longrightarrow> RateAt s now \<le> op_rate s"
  using op_rate_bounds forgiven_bounds [of s now] by (simp_all add: RateAt_forgiven mult_left_le)

lemma record_stat_ok:
  assumes "stat_ok s" and "0 \<le> w" and "w \<le> 1"
  shows "stat_ok (record_stat s w now)"
proof -
  let ?s = "s\<lparr>Attempts := Attempts s + 1\<rparr>"
  have ok: "stat_ok ?s" using assms(1) by (simp add: stat_ok_def)
  have part: "0 \<le> RateAt ?s now / op_rate ?s" "RateAt ?s now / op_rate ?s \<le> 1" if "0 < op_rate ?s"
    using that RateAt_bounds [OF ok, of now] by (simp_all add: divide_le_eq_1)
  have F: "0 \<le> Failures s" "Failures s \<le> Attempts s" using assms(1) by (auto simp: stat_ok_def)
  have scaled: "0 \<le> Failures s * (RateAt ?s now / op_rate ?s)" "Failures s * (RateAt ?s now / op_rate ?s) \<le> Attempts s"
    if "0 < op_rate ?s"
  proof -
    show "0 \<le> Failures s * (RateAt ?s now / op_rate ?s)" using part(1) [OF that] F(1) by (intro mult_nonneg_nonneg)
    have "Failures s * (RateAt ?s now / op_rate ?s) \<le> Failures s * 1"
      using part(2) [OF that] F(1) by (intro mult_left_mono)
    then show "Failures s * (RateAt ?s now / op_rate ?s) \<le> Attempts s" using F(2) by simp
  qed
  show ?thesis
    using F scaled assms(2,3) by (auto simp: record_stat_def stat_ok_def Let_def)
qed

text \<open>A failure after a recovery keeps the forgiveness earned so far.\<close>

lemma record_failure_rate:
  assumes ok: "stat_ok s" and big: "minOperatorAttempts \<le> Attempts s" and w: "0 < w" "w \<le> 1"
  shows "RateAt (record_stat s w now) now \<le> RateAt s now + w / (Attempts s + 1)"
proof -
  let ?s = "s\<lparr>Attempts := Attempts s + 1\<rparr>"
  have A: "0 < Attempts s" using big by (simp add: minOperatorAttempts_def)
  have F: "0 \<le> Failures s" "Failures s \<le> Attempts s" using ok by (auto simp: stat_ok_def)
  have ok1: "stat_ok ?s" using ok by (simp add: stat_ok_def)
  have r1: "op_rate ?s = Failures s / (Attempts s + 1)" using op_rate_ok [OF ok1] big by simp
  have r0: "op_rate s = Failures s / Attempts s" using op_rate_ok [OF ok big] .
  have f: "forgiven ?s now = forgiven s now" by (simp add: forgiven_def)
  let ?k = "if 0 < HealedAt s \<and> 0 < op_rate ?s then forgiven s now else 1"
  have fail: "Failures (record_stat s w now) = Failures s * ?k + w" "Attempts (record_stat s w now) = Attempts s + 1"
    "HealedAt (record_stat s w now) = 0"
    using w(1) by (auto simp: record_stat_def Let_def RateAt_forgiven f)
  have "RateAt (record_stat s w now) now = op_rate (record_stat s w now)" by (simp add: RateAt_def fail(3))
  also have "\<dots> \<le> (Failures s * ?k + w) / (Attempts s + 1)" using fail big by (simp add: op_rate_def)
  also have "\<dots> = Failures s * ?k / (Attempts s + 1) + w / (Attempts s + 1)" by (rule add_divide_distrib)
  also have "Failures s * ?k / (Attempts s + 1) \<le> Failures s * ?k / Attempts s"
    using A F(1) forgiven_bounds(1) [of s now] by (intro divide_left_mono mult_nonneg_nonneg mult_pos_pos) (auto intro: less_imp_le)
  also have "Failures s * ?k / Attempts s = RateAt s now"
  proof (cases "0 < HealedAt s \<and> 0 < op_rate ?s")
    case True
    then show ?thesis by (simp add: RateAt_forgiven r0)
  next
    case False
    then have "HealedAt s \<le> 0 \<or> Failures s = 0" using r1 A F(1) by (auto simp: not_less divide_le_0_iff)
    then show ?thesis using False by (auto simp: RateAt_forgiven r0 forgiven_def)
  qed
  finally show ?thesis by simp
qed

text \<open>Ageing is meant to be by the clock. The stamp is kept in whole seconds while the age is taken in
  nanoseconds, so a reading that is not on a whole second takes its fraction off again on every call.\<close>

lemma decay_repeats_fraction:
  assumes "0 < UpdatedAt s" and "UpdatedAt s = unix_of now" and "0 < now mod second" and "0 < hl" and "0 < Attempts s"
  shows "UpdatedAt (decayTo s now hl) = UpdatedAt s" "Attempts (decayTo s now hl) < Attempts s"
proof -
  have "now - time_unix (unix_of now) = now mod second"
    by (simp add: time_unix_def unix_of_def minus_div_mult_eq_mod)
  then have "time_sub now (time_unix (unix_of now)) = now mod second"
    using pos_mod_bound [of second now] assms(3) by (simp add: time_sub_def min_duration_def max_duration_def)
  then have e: "0 < time_sub now (time_unix (UpdatedAt s))" using assms(2,3) by simp
  show "UpdatedAt (decayTo s now hl) = UpdatedAt s" using assms(2) by (simp add: decayTo_def Let_def)
  show "Attempts (decayTo s now hl) < Attempts s"
    using e assms half_factor_bounds [OF assms(4) e] by (simp add: decayTo_def Let_def)
qed

section \<open>Lemmas: fields and tracker\<close>

lemma parseOperatorField_OperatorField:
  assumes "CHR ''|'' \<notin> set sid" and "CHR ''|'' \<notin> set op" and "CHR ''|'' \<notin> set rpc" and "sid \<noteq> []" and "op \<noteq> []"
  shows "parseOperatorField (OperatorField sid op rpc) = Some (sid, op, rpc)"
  using assms by (simp add: parseOperatorField_def OperatorField_def str_split_append str_split_none)

definition tracker_ok :: "opTracker \<Rightarrow> bool" where
  "tracker_ok t \<longleftrightarrow> 0 < halfLife t \<and> gomap_ok (stats t) \<and> (\<forall>oid st. map_of (stats t) oid = Some st \<longrightarrow> stat_ok st)"

lemma tracker_okD: "tracker_ok t \<Longrightarrow> map_of (stats t) oid = Some st \<Longrightarrow> stat_ok st"
  unfolding tracker_ok_def by blast

lemma tracker_ok_new: "tracker_ok (newOpTracker hl)"
  by (simp add: tracker_ok_def newOpTracker_def DefaultOperatorHalfLife_def)

lemma no_stat_ok [simp]: "stat_ok no_stat" "stat_ok (no_stat\<lparr>UpdatedAt := u\<rparr>)"
  by (simp_all add: stat_ok_def no_stat_def)

lemma stat_of_ok: "tracker_ok t \<Longrightarrow> stat_ok (stat_of t oid)"
  using tracker_okD by (auto simp: stat_of_def split: option.splits)

lemma tracker_ok_update:
  "tracker_ok t \<Longrightarrow> stat_ok st \<Longrightarrow> tracker_ok (t\<lparr>stats := AList.update oid st (stats t)\<rparr>)"
  by (auto simp: tracker_ok_def gomap_simps split: if_splits)

lemma tracker_ok_dirty [simp]: "tracker_ok (t\<lparr>dirty := d\<rparr>) = tracker_ok t" "tracker_ok (mark t oid) = tracker_ok t"
  by (simp_all add: tracker_ok_def mark_def)

lemma tracker_ok_record: "tracker_ok t \<Longrightarrow> 0 \<le> w \<Longrightarrow> w \<le> 1 \<Longrightarrow> tracker_ok (op_record t oid w now)"
  by (simp add: op_record_def tracker_ok_update record_stat_ok decayTo_ok stat_of_ok)

lemma tracker_ok_recordN: "tracker_ok t \<Longrightarrow> 0 \<le> f \<Longrightarrow> f \<le> n \<Longrightarrow> tracker_ok (recordN t oid n f now)"
  using decayTo_ok [OF stat_of_ok, of t oid now "halfLife t"]
  by (auto simp: recordN_def Let_def stat_ok_def intro!: tracker_ok_update)

lemma tracker_ok_snapshot: "tracker_ok t \<Longrightarrow> tracker_ok (snd (op_snapshot t now))"
proof -
  assume ok: "tracker_ok t"
  let ?P = "\<lambda>oid st. \<not> Attempts (decayTo st now (halfLife t)) < 1"
  have "stats (snd (op_snapshot t now)) = keep_entries ?P (stats t)" "halfLife (snd (op_snapshot t now)) = halfLife t"
    by (simp_all add: op_snapshot_def Let_def keep_entries_def)
  then show ?thesis using ok
    by (auto simp: tracker_ok_def gomap_simps split: option.splits if_splits)
qed

lemma tracker_ok_takeDirty: "tracker_ok t \<Longrightarrow> tracker_ok (snd (takeDirty t now))"
  by (auto simp: takeDirty_def split: option.splits list.splits)

lemma tracker_ok_merge:
  "tracker_ok t \<Longrightarrow> \<forall>(f, st) \<in> set stored. stat_ok st \<Longrightarrow> tracker_ok (snd (op_merge t stored now))"
proof (induction t stored now rule: op_merge.induct)
  case (1 t now)
  then show ?case by simp
next
  case (2 t field st stored now)
  have rest: "\<forall>(f, st) \<in> set stored. stat_ok st" and "stat_ok st" using "2.prems"(2) by auto
  show ?case
  proof (cases "parseOperatorField field")
    case None
    then show ?thesis using "2.IH"(1) [OF None "2.prems"(1) rest] by simp
  next
    case (Some oid)
    let ?t = "t\<lparr>stats := AList.update oid (decayTo st now (halfLife t)) (stats t)\<rparr>"
    let ?keep = "case map_of (stats t) oid of None \<Rightarrow> False
      | Some cur \<Rightarrow> Attempts (decayTo cur now (halfLife t)) \<ge> Attempts (decayTo st now (halfLife t))"
    have ok: "tracker_ok ?t" using tracker_ok_update [OF "2.prems"(1) decayTo_ok [OF \<open>stat_ok st\<close>]] .
    show ?thesis
    proof (cases ?keep)
      case True
      then show ?thesis using "2.IH"(2) [OF Some refl True "2.prems"(1) rest] by (simp add: Some Let_def)
    next
      case False
      have "snd (op_merge t ((field, st) # stored) now) = snd (op_merge ?t stored now)"
        using False by (simp only: op_merge.simps Some option.case Let_def if_False) (simp split: prod.splits)
      then show ?thesis using "2.IH"(3) [OF Some refl False ok rest] by simp
    qed
  qed
qed

lemma fold_mark: "stats (fold (\<lambda>oid t. mark t oid) oids t) = stats t" "halfLife (fold (\<lambda>oid t. mark t oid) oids t) = halfLife t"
  by (induction oids arbitrary: t) (simp_all add: mark_def)

lemma tracker_ok_reset: "tracker_ok t \<Longrightarrow> tracker_ok (snd (op_reset t sid op now))"
  using gomap_ok_map_snd [of "\<lambda>oid st. if fst oid = sid \<and> fst (snd oid) = op then no_stat\<lparr>UpdatedAt := unix_of now\<rparr> else st" "stats t"]
  by (auto simp: tracker_ok_def op_reset_def Let_def fold_mark map_of_map_snd split: if_splits)

text \<open>The tracker as a state machine.\<close>

inductive op_step :: "opTracker \<Rightarrow> opTracker \<Rightarrow> bool" where
  step_record: "0 \<le> w \<Longrightarrow> w \<le> 1 \<Longrightarrow> op_step t (op_record t oid w now)"
| step_recordN: "0 \<le> f \<Longrightarrow> f \<le> n \<Longrightarrow> op_step t (recordN t oid n f now)"
| step_snapshot: "op_step t (snd (op_snapshot t now))"
| step_take: "op_step t (snd (takeDirty t now))"
| step_merge: "\<forall>(f, st) \<in> set stored. stat_ok st \<Longrightarrow> op_step t (snd (op_merge t stored now))"
| step_reset: "op_step t (snd (op_reset t sid op now))"

inductive op_reachable :: "opTracker \<Rightarrow> bool" where
  op_start: "op_reachable (newOpTracker hl)"
| op_next: "op_reachable t \<Longrightarrow> op_step t t' \<Longrightarrow> op_reachable t'"

lemma op_step_ok: "op_step t t' \<Longrightarrow> tracker_ok t \<Longrightarrow> tracker_ok t'"
  by (induction rule: op_step.induct)
    (simp_all add: tracker_ok_record tracker_ok_recordN tracker_ok_snapshot tracker_ok_takeDirty tracker_ok_merge tracker_ok_reset)

lemma op_reachable_ok: "op_reachable t \<Longrightarrow> tracker_ok t"
  by (induction rule: op_reachable.induct) (simp_all add: tracker_ok_new op_step_ok)

section \<open>Properties\<close>

text \<open>What an operator is charged is a rate, and recovery is not undone by one bad answer. In every
  tracker reached by recording attempts, ageing, storing, adopting stored counters and resetting: every counter,
  read at any instant, gives a rate between zero and one, no higher than its unforgiven rate; and recording one
  more failure of weight \<open>w\<close> raises the rate charged by at most \<open>w\<close> over the attempts, so the forgiveness earned
  since the operator healed is kept.\<close>

lemma operator_rate_bounded:
  assumes "op_reachable t" and "op_get t oid now = Some st"
  shows "0 \<le> RateAt st now \<and> RateAt st now \<le> op_rate st \<and> op_rate st \<le> 1 \<and>
    (minOperatorAttempts \<le> Attempts st \<and> 0 < w \<and> w \<le> 1 \<longrightarrow>
      RateAt (stat_of (op_record t oid w now) oid) now \<le> RateAt st now + w / (Attempts st + 1))"
proof -
  obtain s where s: "map_of (stats t) oid = Some s" "st = decayTo s now (halfLife t)"
    using assms(2) by (auto simp: op_get_def)
  have ok: "stat_ok st" using decayTo_ok tracker_okD [OF op_reachable_ok [OF assms(1)] s(1)] s(2) by simp
  have "stat_of (op_record t oid w now) oid = record_stat st w now"
    by (simp add: op_record_def stat_of_def mark_def gomap_simps s)
  then show ?thesis
    using RateAt_bounds [OF ok] op_rate_bounds(1) [OF ok] op_rate_bounds(2) [of st] record_failure_rate [OF ok] by simp
qed

lemma operator_rate_bounded_witness:
  "let t = recordN (newOpTracker 0) (''eth'', ''a.io'', ''json_rpc'') 300 30 (time_unix 1000);
       st = stat_of t (''eth'', ''a.io'', ''json_rpc'') in
   op_rate st = 1 / 10 \<and>
   RateAt (stat_of (op_record t (''eth'', ''a.io'', ''json_rpc'') 1 (time_unix 1000)) (''eth'', ''a.io'', ''json_rpc'')) (time_unix 1000)
     \<le> 1 / 10 + 1 / 301"
proof -
  let ?id = "(''eth'', ''a.io'', ''json_rpc'')" and ?now = "time_unix 1000"
  let ?t = "recordN (newOpTracker 0) ?id 300 30 ?now"
  have "op_step (newOpTracker 0) ?t" by (rule step_recordN) simp_all
  then have r: "op_reachable ?t" by (rule op_next [OF op_start])
  have g: "op_get ?t ?id ?now = Some \<lparr>Attempts = 300, Failures = 30, UpdatedAt = 1000, CleanRun = 0, HealedAt = 0\<rparr>"
    by (simp add: op_get_def recordN_def newOpTracker_def stat_of_def no_stat_def decayTo_def Let_def
      DefaultOperatorHalfLife_def gomap_simps)
  have st: "stat_of ?t ?id = \<lparr>Attempts = 300, Failures = 30, UpdatedAt = 1000, CleanRun = 0, HealedAt = 0\<rparr>"
    by (simp add: recordN_def newOpTracker_def stat_of_def no_stat_def decayTo_def Let_def gomap_simps)
  show ?thesis
    using operator_rate_bounded [OF r g, of 1] unfolding st Let_def
    by (simp add: op_rate_def RateAt_def minOperatorAttempts_def)
qed

end
