(* ===== verification/Rep_Shares.thy ===== *)
theory Rep_Shares
  imports Rep_Evidence
begin

text \<open>
  What a party is charged for conduct measured across its traffic: repeated WebSocket
  notifications, throttled relays and failures in a method class (\<^verbatim>\<open>reputation/dupshare.go\<close>,
  \<^verbatim>\<open>throttleshare.go\<close>, \<^verbatim>\<open>classshare.go\<close>), stale chain heads (\<^verbatim>\<open>staleshare.go\<close>),
  distrust over many services (\<^verbatim>\<open>trust.go\<close>), penalties set by hand (\<^verbatim>\<open>policy.go\<close>), and the
  verdicts borrowed from a peer or from the store (\<^verbatim>\<open>peerparties.go\<close>, \<^verbatim>\<open>partystore.go\<close>).

  A gate is what a feature flag answers per service; an absent gate is \<open>None\<close>.
\<close>

section \<open>Model: pricing a share\<close>

type_synonym svc_gate = "(service_id \<Rightarrow> bool) option"

definition gate_on :: "svc_gate \<Rightarrow> service_id \<Rightarrow> bool" where
  "gate_on g sid = (case g of None \<Rightarrow> False | Some f \<Rightarrow> f sid)"

record PartyShare =
  sh_ServiceID :: service_id
  sh_Party :: string
  sh_Share :: real
  sh_Penalty :: real
  sh_pricedAt :: time

record shareRule =
  minEvidence :: real
  most :: real
  hold :: duration
  rule_floor :: real
  rule_full :: real

definition dupRule :: shareRule where
  "dupRule = \<lparr>minEvidence = 500, most = -40, hold = 30 * minute, rule_floor = 0.02, rule_full = 0.20\<rparr>"

definition throttleRule :: shareRule where
  "throttleRule = \<lparr>minEvidence = 500, most = -40, hold = 30 * minute, rule_floor = 0.02, rule_full = 0.15\<rparr>"

definition classRule :: shareRule where
  "classRule = \<lparr>minEvidence = 200, most = -40, hold = 30 * minute, rule_floor = 0.05, rule_full = 0.30\<rparr>"

definition excessPenalty :: "real \<Rightarrow> real \<Rightarrow> real \<Rightarrow> real \<Rightarrow> real" where
  "excessPenalty excess flr full mst =
     (if excess \<le> flr then 0 else if full \<le> flr then mst else mst * min 1 ((excess - flr) / (full - flr)))"

definition measured_shares :: "(opID, OperatorStat) gomap \<Rightarrow> real \<Rightarrow> (service_id \<times> string \<times> real) list" where
  "measured_shares st minEv =
     map (\<lambda>((svc, op, rpc), s). (svc, op, Failures s / Attempts s)) (filter (\<lambda>(oid, s). \<not> Attempts s < minEv) st)"

definition services_of :: "(service_id \<times> string \<times> real) list \<Rightarrow> service_id list" where
  "services_of ms = remdups (map fst ms)"

definition shares_in :: "(service_id \<times> string \<times> real) list \<Rightarrow> service_id \<Rightarrow> (string \<times> real) list" where
  "shares_in ms svc = map snd (filter (\<lambda>m. fst m = svc) ms)"

definition best_share :: "(string \<times> real) list \<Rightarrow> real" where
  "best_share ps = fold (\<lambda>p b. min b (snd p)) ps 1"

definition price_service ::
  "shareRule \<Rightarrow> svc_gate \<Rightarrow> (service_id \<Rightarrow> real \<times> real) option \<Rightarrow> time \<Rightarrow> service_id \<Rightarrow> (string \<times> real) list \<Rightarrow> PartyShare list" where
  "price_service rule on limits now svc ps =
     (let best = best_share ps;
          charged = (length ps \<ge> 2 \<and> gate_on on svc);
          (flr, full) = (if charged then (case limits of None \<Rightarrow> (rule_floor rule, rule_full rule) | Some l \<Rightarrow> l svc)
                           else (rule_floor rule, rule_full rule))
      in map (\<lambda>(party, share).
           if charged
           then \<lparr>sh_ServiceID = svc, sh_Party = party, sh_Share = share,
                 sh_Penalty = excessPenalty (share - best) flr full (most rule), sh_pricedAt = now\<rparr>
           else \<lparr>sh_ServiceID = svc, sh_Party = party, sh_Share = share, sh_Penalty = 0, sh_pricedAt = 0\<rparr>) ps)"

definition priceShares ::
  "(opID, OperatorStat) gomap \<Rightarrow> shareRule \<Rightarrow> svc_gate \<Rightarrow> (service_id \<Rightarrow> real \<times> real) option \<Rightarrow> PartyShare list \<Rightarrow> time \<Rightarrow> PartyShare list" where
  "priceShares st rule on limits prev now =
     (let ms = measured_shares st (minEvidence rule);
          out = concat (map (\<lambda>svc. price_service rule on limits now svc (shares_in ms svc)) (services_of ms));
          was = (\<lambda>p. (sh_ServiceID p, sh_Party p) \<in> set (map (\<lambda>(svc, op, x). (svc, op)) ms))
      in out @ filter (\<lambda>p. sh_Penalty p < 0 \<and> \<not> was p \<and> gate_on on (sh_ServiceID p) \<and> time_sub now (sh_pricedAt p) < hold rule) prev)"

section \<open>Model: what is counted\<close>

definition classFailureWeight :: "Signal \<Rightarrow> real" where
  "classFailureWeight sg =
     (if Type sg = SignalMinorError \<and> (Reason sg = ''upstream_5xx'' \<or> Reason sg = ''http_5xx'')
      then FailureWeight SignalMajorError else FailureWeight (Type sg))"

definition fair_sample :: "Signal \<Rightarrow> rpc_type \<Rightarrow> bool" where
  "fair_sample sg rpc \<longleftrightarrow> \<not> (Type sg = [] \<or> Probe sg \<or> Leftover sg \<or> rpc = RPCTypeWebSocket)"

definition recordThrottle :: "opTracker \<Rightarrow> service_id \<Rightarrow> string \<Rightarrow> rpc_type \<Rightarrow> Signal \<Rightarrow> time \<Rightarrow> opTracker" where
  "recordThrottle t sid party rpc sg now =
     (if \<not> fair_sample sg rpc \<or> party = [] then t
      else recordN t (sid, party, []) 1
             (if Reason sg \<in> set [''http_429'', ''upstream_429'', ''rate_limited''] then 1 else 0) now)"

definition recordClass :: "(string, opTracker) gomap \<Rightarrow> service_id \<Rightarrow> string \<Rightarrow> rpc_type \<Rightarrow> Signal \<Rightarrow> time \<Rightarrow> (string, opTracker) gomap" where
  "recordClass cs sid party rpc sg now =
     (if \<not> fair_sample sg rpc then cs
      else case map_of cs (Class sg) of
             None \<Rightarrow> cs
           | Some t \<Rightarrow> if party = [] then cs
               else AList.update (Class sg) (recordN t (sid, party, []) 1 (classFailureWeight sg) now) cs)"

definition RecordHeadAnswer :: "opTracker \<Rightarrow> service_id \<Rightarrow> string \<Rightarrow> bool \<Rightarrow> time \<Rightarrow> opTracker" where
  "RecordHeadAnswer t sid party stale now =
     (if party = [] then t else op_record t (sid, party, []) (if stale then 1 else 0) now)"

definition RecordNotifications :: "opTracker \<Rightarrow> service_id \<Rightarrow> string \<Rightarrow> int \<Rightarrow> int \<Rightarrow> time \<Rightarrow> opTracker" where
  "RecordNotifications t sid party notes dups now =
     (if party = [] \<or> notes \<le> 0 then t else recordN t (sid, party, []) (real_of_int notes) (real_of_int dups) now)"

text \<open>The fleet's notification counts: this pod's, plus every other pod's last write while it is recent.\<close>

record NotificationCounts =
  nc_At :: int
  nc_Counts :: "(service_id \<times> string \<times> real \<times> real) list"

definition dupShareFleetMaxAge :: duration where "dupShareFleetMaxAge = 10 * minute"
definition dupShareHalfLife :: duration where "dupShareHalfLife = 30 * minute"

definition add_counts :: "time \<Rightarrow> int \<Rightarrow> (service_id \<times> string \<times> real \<times> real) \<Rightarrow> (opID, OperatorStat) gomap \<Rightarrow> (opID, OperatorStat) gomap" where
  "add_counts now written pc m =
     (case pc of (svc, party, notes, dups) \<Rightarrow>
       let aged = decayTo (no_stat\<lparr>Attempts := notes, Failures := dups, UpdatedAt := written\<rparr>) now dupShareHalfLife;
           oid = (svc, party, []);
           st = (case map_of m oid of None \<Rightarrow> no_stat | Some s \<Rightarrow> s)
       in AList.update oid (st\<lparr>Attempts := Attempts st + Attempts aged, Failures := Failures st + Failures aged\<rparr>) m)"

definition fleet_sum :: "string \<Rightarrow> time \<Rightarrow> (string, NotificationCounts) gomap \<Rightarrow> (opID, OperatorStat) gomap \<Rightarrow> (opID, OperatorStat) gomap" where
  "fleet_sum instanceID now everyone mine =
     fold (\<lambda>(pod, c) m. if pod = instanceID \<or> time_sub now (time_unix (nc_At c)) > dupShareFleetMaxAge then m
                        else fold (add_counts now (nc_At c)) (nc_Counts c) m) everyone mine"

definition fleet_gone :: "string \<Rightarrow> time \<Rightarrow> (string, NotificationCounts) gomap \<Rightarrow> string list" where
  "fleet_gone instanceID now everyone =
     map fst (filter (\<lambda>(pod, c). pod \<noteq> instanceID \<and> time_sub now (time_unix (nc_At c)) > dupShareFleetMaxAge) everyone)"

text \<open>One refresh of the fleet's evidence. \<open>store\<close> is the shared store, absent when storage has none;
  \<open>put_ok\<close> and \<open>read_ok\<close> say whether the round trips succeeded. The result is the evidence and the store.\<close>

definition fleetDuplicates :: "opTracker \<Rightarrow> (string, NotificationCounts) gomap option \<Rightarrow> string \<Rightarrow> bool \<Rightarrow> bool \<Rightarrow> bool \<Rightarrow> time \<Rightarrow>
    (opID, OperatorStat) gomap \<times> (string, NotificationCounts) gomap option \<times> opTracker" where
  "fleetDuplicates t store instanceID put_ok read_ok del_ok now =
     (case op_snapshot t now of (mine, t') \<Rightarrow>
       case store of
         None \<Rightarrow> (mine, None, t')
       | Some all \<Rightarrow>
           if instanceID = [] then (mine, Some all, t')
           else
             let written = \<lparr>nc_At = unix_of now, nc_Counts = map (\<lambda>((svc, op, rpc), s). (svc, op, Attempts s, Failures s)) mine\<rparr>;
                 all = (if put_ok then AList.update instanceID written all else all)
             in if \<not> read_ok then (mine, Some all, t')
                else (fleet_sum instanceID now all mine,
                      Some (if del_ok then filter (\<lambda>(pod, c). pod \<notin> set (fleet_gone instanceID now all)) all else all), t'))"

section \<open>Model: stale heads\<close>

record PartyStale =
  ps_ServiceID :: service_id
  ps_Party :: string
  ps_Share :: real
  ps_Penalty :: real
  Excess :: real
  ps_pricedAt :: time
  held :: bool
  ps_peer :: bool

definition staleShareMinAnswers :: real where "staleShareMinAnswers = 50"
definition staleShareFloor :: real where "staleShareFloor = 0.15"
definition staleShareFull :: real where "staleShareFull = 0.45"
definition staleSharePenalty :: real where "staleSharePenalty = -40"
definition staleShareHold :: duration where "staleShareHold = 30 * minute"

definition stalePenalty :: "real \<Rightarrow> real" where
  "stalePenalty excess =
     (if excess \<le> staleShareFloor then 0
      else staleSharePenalty * min 1 ((excess - staleShareFloor) / (staleShareFull - staleShareFloor)))"

definition stale_service :: "svc_gate \<Rightarrow> time \<Rightarrow> service_id \<Rightarrow> (string \<times> real) list \<Rightarrow> PartyStale list" where
  "stale_service on now svc ps =
     (let best = best_share ps in
      map (\<lambda>(party, share).
        \<lparr>ps_ServiceID = svc, ps_Party = party, ps_Share = share,
         ps_Penalty = (if length ps \<ge> 2 \<and> gate_on on svc then stalePenalty (share - best) else 0),
         Excess = (if length ps \<ge> 2 then share - best else 0),
         ps_pricedAt = (if length ps \<ge> 2 \<and> gate_on on svc then now else 0),
         held = False, ps_peer = False\<rparr>) ps)"

definition partyStale :: "(opID, OperatorStat) gomap \<Rightarrow> svc_gate \<Rightarrow> PartyStale list \<Rightarrow> time \<Rightarrow> PartyStale list" where
  "partyStale st on prev now =
     (let ms = measured_shares st staleShareMinAnswers;
          out = concat (map (\<lambda>svc. stale_service on now svc (shares_in ms svc)) (services_of ms));
          was = (\<lambda>p. (ps_ServiceID p, ps_Party p) \<in> set (map (\<lambda>(svc, op, x). (svc, op)) ms))
      in out @ map (\<lambda>p. p\<lparr>held := True\<rparr>)
           (filter (\<lambda>p. ps_Penalty p < 0 \<and> \<not> was p \<and> gate_on on (ps_ServiceID p) \<and> time_sub now (ps_pricedAt p) < staleShareHold) prev))"

section \<open>Model: distrust\<close>

record PartyTrust =
  tr_Party :: string
  StaleServices :: nat
  RefusalServices :: nat
  tr_Penalty :: real
  until :: time
  tr_peer :: bool

definition trustStaleServices :: nat where "trustStaleServices = 8"
definition trustRefusalServices :: nat where "trustRefusalServices = 2"
definition trustRefusalMin :: real where "trustRefusalMin = 10"
definition trustHold :: duration where "trustHold = 24 * hour"
definition trustPenalty :: real where "trustPenalty = -30"

definition stale_evidence :: "svc_gate \<Rightarrow> PartyStale \<Rightarrow> bool" where
  "stale_evidence vetted p \<longleftrightarrow> \<not> held p \<and> Excess p > staleShareFloor \<and> gate_on vetted (ps_ServiceID p)"

definition stale_count :: "PartyStale list \<Rightarrow> svc_gate \<Rightarrow> string \<Rightarrow> nat" where
  "stale_count stale vetted party = length (filter (\<lambda>p. stale_evidence vetted p \<and> ps_Party p = party) stale)"

definition refusal_count :: "(opID, OperatorStat) gomap \<Rightarrow> string \<Rightarrow> nat" where
  "refusal_count refusals party =
     length (filter (\<lambda>((svc, op, rpc), s). Attempts s \<ge> trustRefusalMin \<and> op = party) refusals)"

text \<open>The end a penalty carried over gives; of several entries of one party the last is kept.\<close>

definition carried_until :: "PartyTrust list \<Rightarrow> time \<Rightarrow> string \<Rightarrow> time" where
  "carried_until prev now party =
     fold (\<lambda>p u. if tr_Penalty p < 0 \<and> now < until p \<and> tr_Party p = party then until p else u) prev 0"

definition trust_parties :: "PartyStale list \<Rightarrow> (opID, OperatorStat) gomap \<Rightarrow> PartyTrust list \<Rightarrow> time \<Rightarrow> svc_gate \<Rightarrow> string list" where
  "trust_parties stale refusals prev now vetted =
     remdups (map ps_Party (filter (stale_evidence vetted) stale) @
       map (\<lambda>((svc, op, rpc), s). op) (filter (\<lambda>(oid, s). Attempts s \<ge> trustRefusalMin) refusals) @
       map tr_Party (filter (\<lambda>p. tr_Penalty p < 0 \<and> now < until p) prev))"

definition trust_of :: "PartyStale list \<Rightarrow> (opID, OperatorStat) gomap \<Rightarrow> PartyTrust list \<Rightarrow> time \<Rightarrow> svc_gate \<Rightarrow> string \<Rightarrow> PartyTrust" where
  "trust_of stale refusals prev now vetted party =
     (let ss = stale_count stale vetted party; rs = refusal_count refusals party;
          u = (if ss \<ge> trustStaleServices \<or> rs \<ge> trustRefusalServices then now + trustHold else carried_until prev now party)
      in \<lparr>tr_Party = party, StaleServices = ss, RefusalServices = rs,
          tr_Penalty = (if now < u then trustPenalty else 0), until = u, tr_peer = False\<rparr>)"

definition partyTrust :: "PartyStale list \<Rightarrow> (opID, OperatorStat) gomap \<Rightarrow> PartyTrust list \<Rightarrow> time \<Rightarrow> svc_gate \<Rightarrow> PartyTrust list" where
  "partyTrust stale refusals prev now vetted =
     map (trust_of stale refusals prev now vetted) (trust_parties stale refusals prev now vetted)"

section \<open>Model: what is stored, and what a peer lends\<close>

record StoredStale =
  ss_Service :: service_id
  ss_Party :: string
  ss_Penalty :: real
  ss_PricedAt :: int

record StoredTrust =
  sr_Party :: string
  sr_Until :: int

record PartyPenalties =
  pp_Stale :: "StoredStale list"
  pp_Trust :: "StoredTrust list"

definition storePartyPenalties :: "PartyStale list \<Rightarrow> PartyTrust list \<Rightarrow> PartyPenalties" where
  "storePartyPenalties stale trust =
     \<lparr>pp_Stale = map (\<lambda>p. \<lparr>ss_Service = ps_ServiceID p, ss_Party = ps_Party p, ss_Penalty = ps_Penalty p, ss_PricedAt = unix_of (ps_pricedAt p)\<rparr>)
        (filter (\<lambda>p. ps_Penalty p < 0) stale),
      pp_Trust = map (\<lambda>t. \<lparr>sr_Party = tr_Party t, sr_Until = unix_of (until t)\<rparr>) (filter (\<lambda>t. tr_Penalty t < 0) trust)\<rparr>"

definition adopted :: "PartyPenalties \<Rightarrow> PartyStale list \<times> PartyTrust list" where
  "adopted p =
     (map (\<lambda>s. \<lparr>ps_ServiceID = ss_Service s, ps_Party = ss_Party s, ps_Share = 0, ps_Penalty = ss_Penalty s, Excess = 0,
         ps_pricedAt = time_unix (ss_PricedAt s), held = True, ps_peer = False\<rparr>) (pp_Stale p),
      map (\<lambda>t. \<lparr>tr_Party = sr_Party t, StaleServices = 0, RefusalServices = 0, tr_Penalty = trustPenalty,
         until = time_unix (sr_Until t), tr_peer = False\<rparr>) (pp_Trust p))"

text \<open>Updating the first entry that matches, or appending one.\<close>

fun upsert :: "('a \<Rightarrow> bool) \<Rightarrow> ('a \<Rightarrow> 'a) \<Rightarrow> 'a \<Rightarrow> 'a list \<Rightarrow> 'a list" where
  "upsert P f new [] = [new]"
| "upsert P f new (x # xs) = (if P x then f x # xs else x # upsert P f new xs)"

definition merge_stale :: "(service_id \<Rightarrow> bool) \<Rightarrow> svc_gate \<Rightarrow> time \<Rightarrow> StoredStale \<Rightarrow> PartyStale list \<Rightarrow> PartyStale list" where
  "merge_stale served staleOn now ps stale =
     (let pricedAt = time_unix (ss_PricedAt ps) in
      if ss_Penalty ps \<ge> 0 \<or> time_sub now pricedAt \<ge> staleShareHold \<or> \<not> served (ss_Service ps) \<or> \<not> gate_on staleOn (ss_Service ps)
      then stale
      else upsert (\<lambda>p. ps_ServiceID p = ss_Service ps \<and> ps_Party p = ss_Party ps)
             (\<lambda>p. if ss_Penalty ps < ps_Penalty p
                   then p\<lparr>ps_Penalty := ss_Penalty ps, ps_pricedAt := pricedAt, ps_peer := True\<rparr> else p)
             \<lparr>ps_ServiceID = ss_Service ps, ps_Party = ss_Party ps, ps_Share = 0, ps_Penalty = ss_Penalty ps, Excess = 0,
              ps_pricedAt = pricedAt, held = True, ps_peer = True\<rparr> stale)"

definition merge_trust :: "time \<Rightarrow> StoredTrust \<Rightarrow> PartyTrust list \<Rightarrow> PartyTrust list" where
  "merge_trust now pt trust =
     (let u = time_unix (sr_Until pt) in
      if \<not> now < u then trust
      else upsert (\<lambda>t. tr_Party t = sr_Party pt)
             (\<lambda>t. if tr_Penalty t > trustPenalty then t\<lparr>tr_Penalty := trustPenalty, until := u, tr_peer := True\<rparr> else t)
             \<lparr>tr_Party = sr_Party pt, StaleServices = 0, RefusalServices = 0, tr_Penalty = trustPenalty, until = u, tr_peer = True\<rparr>
             trust)"

definition mergePeerParties :: "PartyStale list \<Rightarrow> PartyTrust list \<Rightarrow> PartyPenalties \<Rightarrow> (service_id \<Rightarrow> bool) \<Rightarrow> svc_gate \<Rightarrow> time \<Rightarrow>
    PartyStale list \<times> PartyTrust list" where
  "mergePeerParties stale trust peer served staleOn now =
     (fold (merge_stale served staleOn now) (pp_Stale peer) stale, fold (merge_trust now) (pp_Trust peer) trust)"

section \<open>Model: penalties set by hand\<close>

record PolicyPenalty =
  pol_Party :: string
  pol_Penalty :: real
  pol_Reason :: string
  pol_SetAt :: time
  pol_Until :: time

definition pol_Active :: "PolicyPenalty \<Rightarrow> time \<Rightarrow> bool" where
  "pol_Active p now \<longleftrightarrow> pol_Until p = 0 \<or> now < pol_Until p"

text \<open>The store of policy penalties, one per party; \<open>None\<close> is a storage that cannot hold them. A read is
  \<open>None\<close> when it failed.\<close>

datatype policy_error = ErrNoPolicyStore

type_synonym policy_store = "(string, PolicyPenalty) gomap option"

definition SetPolicyPenalty :: "policy_store \<Rightarrow> PolicyPenalty \<Rightarrow> policy_error + policy_store" where
  "SetPolicyPenalty st p = (case st of None \<Rightarrow> Inl ErrNoPolicyStore | Some m \<Rightarrow> Inr (Some (AList.update (pol_Party p) p m)))"

definition DeletePolicyPenalty :: "policy_store \<Rightarrow> string \<Rightarrow> policy_error + (bool \<times> policy_store)" where
  "DeletePolicyPenalty st party =
     (case st of None \<Rightarrow> Inl ErrNoPolicyStore
      | Some m \<Rightarrow> Inr (map_of m party \<noteq> None, Some (AList.delete party m)))"

definition ListPolicyPenalties :: "policy_store \<Rightarrow> time \<Rightarrow> policy_error + PolicyPenalty list" where
  "ListPolicyPenalties st now =
     (case st of None \<Rightarrow> Inl ErrNoPolicyStore | Some m \<Rightarrow> Inr (filter (\<lambda>p. pol_Active p now) (map snd m)))"

definition policyPenalties :: "policy_store \<Rightarrow> bool \<Rightarrow> PolicyPenalty list \<Rightarrow> time \<Rightarrow> PolicyPenalty list" where
  "policyPenalties st read_ok prev now =
     (case st of None \<Rightarrow> [] | Some m \<Rightarrow> if read_ok then filter (\<lambda>p. pol_Active p now) (map snd m) else prev)"

section \<open>Lemmas: pricing\<close>

lemma excessPenalty_range:
  assumes "mst \<le> 0"
  shows "mst \<le> excessPenalty x a b mst" "excessPenalty x a b mst \<le> 0"
proof -
  have "mst \<le> mst * min 1 ((x - a) / (b - a)) \<and> mst * min 1 ((x - a) / (b - a)) \<le> 0" if "a < x" "a < b"
  proof -
    have "0 \<le> min 1 ((x - a) / (b - a))" "min 1 ((x - a) / (b - a)) \<le> 1" using that by simp_all
    then show ?thesis
      using assms mult_left_mono_neg [of "min 1 ((x - a) / (b - a))" 1 mst] mult_nonpos_nonneg [of mst "min 1 ((x - a) / (b - a))"] by simp
  qed
  then show "mst \<le> excessPenalty x a b mst" "excessPenalty x a b mst \<le> 0"
    using assms by (auto simp: excessPenalty_def not_le)
qed

lemma excessPenalty_antimono:
  assumes "mst \<le> 0" and "x \<le> y"
  shows "excessPenalty y a b mst \<le> excessPenalty x a b mst"
proof (cases "x \<le> a")
  case True
  then have "excessPenalty x a b mst = 0" by (simp add: excessPenalty_def)
  then show ?thesis using excessPenalty_range(2) [OF assms(1)] by simp
next
  case False
  show ?thesis
  proof (cases "b \<le> a")
    case True
    then show ?thesis using False assms by (simp add: excessPenalty_def)
  next
    case ab: False
    have "(x - a) / (b - a) \<le> (y - a) / (b - a)" using assms(2) ab by (simp add: divide_right_mono)
    then have "mst * min 1 ((y - a) / (b - a)) \<le> mst * min 1 ((x - a) / (b - a))"
      using assms(1) by (intro mult_left_mono_neg) auto
    then show ?thesis using False ab assms(2) by (simp add: excessPenalty_def)
  qed
qed

lemma best_share_fold: "fold (\<lambda>p b. min b (snd p)) ps b0 \<le> (b0 :: real) \<and> (\<forall>p \<in> set ps. fold (\<lambda>p b. min b (snd p)) ps b0 \<le> snd p)"
proof (induction ps arbitrary: b0)
  case (Cons p ps)
  have "fold (\<lambda>p b. min b (snd p)) ps (min b0 (snd p)) \<le> min b0 (snd p)" using Cons by blast
  then show ?case using Cons [of "min b0 (snd p)"] by auto
qed simp

lemma best_share_le: "p \<in> set ps \<Longrightarrow> best_share ps \<le> snd p"
  using best_share_fold [of ps 1] by (simp add: best_share_def)

lemma best_share_greatest: "c \<le> 1 \<Longrightarrow> \<forall>p \<in> set ps. c \<le> snd p \<Longrightarrow> c \<le> best_share ps"
proof -
  have "c \<le> b0 \<Longrightarrow> \<forall>p \<in> set ps. c \<le> snd p \<Longrightarrow> c \<le> fold (\<lambda>p b. min b (snd p)) ps b0" for b0
    by (induction ps arbitrary: b0) auto
  then show "c \<le> 1 \<Longrightarrow> \<forall>p \<in> set ps. c \<le> snd p \<Longrightarrow> c \<le> best_share ps" by (simp add: best_share_def)
qed

definition limits_of :: "shareRule \<Rightarrow> (service_id \<Rightarrow> real \<times> real) option \<Rightarrow> service_id \<Rightarrow> real \<times> real" where
  "limits_of rule limits svc = (case limits of None \<Rightarrow> (rule_floor rule, rule_full rule) | Some l \<Rightarrow> l svc)"

definition price_one :: "shareRule \<Rightarrow> svc_gate \<Rightarrow> (service_id \<Rightarrow> real \<times> real) option \<Rightarrow> time \<Rightarrow> (service_id \<times> string \<times> real) list \<Rightarrow>
    service_id \<Rightarrow> string \<Rightarrow> real \<Rightarrow> PartyShare" where
  "price_one rule on limits now ms svc party share =
     (if length (shares_in ms svc) \<ge> 2 \<and> gate_on on svc
      then \<lparr>sh_ServiceID = svc, sh_Party = party, sh_Share = share,
        sh_Penalty = excessPenalty (share - best_share (shares_in ms svc)) (fst (limits_of rule limits svc)) (snd (limits_of rule limits svc)) (most rule),
        sh_pricedAt = now\<rparr>
      else \<lparr>sh_ServiceID = svc, sh_Party = party, sh_Share = share, sh_Penalty = 0, sh_pricedAt = 0\<rparr>)"

lemma shares_in_iff: "(party, share) \<in> set (shares_in ms svc) \<longleftrightarrow> (svc, party, share) \<in> set ms"
  by (force simp: shares_in_def)

lemma price_service_set:
  "set (price_service rule on limits now svc (shares_in ms svc)) =
     {price_one rule on limits now ms svc party share | party share. (svc, party, share) \<in> set ms}"
proof -
  have "price_service rule on limits now svc (shares_in ms svc) =
      map (\<lambda>(party, share). price_one rule on limits now ms svc party share) (shares_in ms svc)"
    by (auto simp: price_service_def price_one_def limits_of_def Let_def split: option.splits prod.splits)
  then show ?thesis by (force simp: shares_in_iff [symmetric])
qed

lemma priceShares_set:
  "set (priceShares st rule on limits prev now) =
     {price_one rule on limits now (measured_shares st (minEvidence rule)) svc party share | svc party share.
        (svc, party, share) \<in> set (measured_shares st (minEvidence rule))} \<union>
     {p \<in> set prev. sh_Penalty p < 0 \<and> (\<forall>x. (sh_ServiceID p, sh_Party p, x) \<notin> set (measured_shares st (minEvidence rule))) \<and>
        gate_on on (sh_ServiceID p) \<and> time_sub now (sh_pricedAt p) < hold rule}"
proof -
  let ?ms = "measured_shares st (minEvidence rule)"
  have "(\<Union>svc \<in> set (services_of ?ms). set (price_service rule on limits now svc (shares_in ?ms svc))) =
      {price_one rule on limits now ?ms svc party share | svc party share. (svc, party, share) \<in> set ?ms}"
    unfolding price_service_set by (force simp: services_of_def)
  moreover have "(\<exists>x. (svc, party, x) \<in> set ?ms) \<longleftrightarrow> (svc, party) \<in> set (map (\<lambda>(svc, op, x). (svc, op)) ?ms)" for svc party
    by force
  ultimately show ?thesis by (auto simp: priceShares_def Let_def)
qed

lemma priceShares_cases:
  assumes "p \<in> set (priceShares st rule on limits prev now)"
  obtains (measured) svc party share where "(svc, party, share) \<in> set (measured_shares st (minEvidence rule))"
      "p = price_one rule on limits now (measured_shares st (minEvidence rule)) svc party share"
    | (carried) "p \<in> set prev" "sh_Penalty p < 0" "\<forall>x. (sh_ServiceID p, sh_Party p, x) \<notin> set (measured_shares st (minEvidence rule))"
      "time_sub now (sh_pricedAt p) < hold rule"
  using assms unfolding priceShares_set by blast

lemma price_one_simps [simp]:
  "sh_ServiceID (price_one rule on limits now ms svc party share) = svc"
  "sh_Party (price_one rule on limits now ms svc party share) = party"
  "sh_Share (price_one rule on limits now ms svc party share) = share"
  by (simp_all add: price_one_def)

lemma price_one_range:
  assumes "most rule \<le> 0"
  shows "most rule \<le> sh_Penalty (price_one rule on limits now ms svc party share)"
    "sh_Penalty (price_one rule on limits now ms svc party share) \<le> 0"
  using assms excessPenalty_range [OF assms] by (auto simp: price_one_def)

lemma price_one_antimono:
  assumes "most rule \<le> 0" and "share \<le> share'"
  shows "sh_Penalty (price_one rule on limits now ms svc party' share') \<le> sh_Penalty (price_one rule on limits now ms svc party share)"
  using excessPenalty_antimono [OF assms(1)] assms(2) by (simp add: price_one_def)

lemma price_one_cleanest:
  assumes "0 \<le> fst (limits_of rule limits svc)" and "share \<le> 1"
    and "\<forall>q x. (svc, q, x) \<in> set ms \<longrightarrow> share \<le> x"
  shows "sh_Penalty (price_one rule on limits now ms svc party share) = 0"
proof -
  have "share \<le> best_share (shares_in ms svc)"
    using assms(2,3) by (intro best_share_greatest) (auto simp: shares_in_iff)
  then show ?thesis using assms(1) by (simp add: price_one_def excessPenalty_def)
qed

section \<open>Lemmas: stale heads as a priced share\<close>

definition staleRule :: shareRule where
  "staleRule = \<lparr>minEvidence = staleShareMinAnswers, most = staleSharePenalty, hold = staleShareHold,
     rule_floor = staleShareFloor, rule_full = staleShareFull\<rparr>"

definition as_share :: "PartyStale \<Rightarrow> PartyShare" where
  "as_share p = \<lparr>sh_ServiceID = ps_ServiceID p, sh_Party = ps_Party p, sh_Share = ps_Share p, sh_Penalty = ps_Penalty p, sh_pricedAt = ps_pricedAt p\<rparr>"

lemma as_share_held [simp]: "as_share (p\<lparr>held := b\<rparr>) = as_share p"
  by (simp add: as_share_def)

lemma stalePenalty_excess: "stalePenalty x = excessPenalty x staleShareFloor staleShareFull staleSharePenalty"
  by (simp add: stalePenalty_def excessPenalty_def staleShareFloor_def staleShareFull_def)

lemma stale_service_share:
  "map as_share (stale_service on now svc ps) = price_service staleRule on None now svc ps"
  by (auto simp: stale_service_def price_service_def as_share_def staleRule_def stalePenalty_excess Let_def)

section \<open>Lemmas: distrust\<close>

definition trust_evidence :: "PartyStale list \<Rightarrow> (opID, OperatorStat) gomap \<Rightarrow> svc_gate \<Rightarrow> string \<Rightarrow> bool" where
  "trust_evidence stale refusals vetted party \<longleftrightarrow>
     stale_count stale vetted party \<ge> trustStaleServices \<or> refusal_count refusals party \<ge> trustRefusalServices"

lemma carried_until_cases:
  "carried_until prev now party = 0 \<or> (\<exists>p \<in> set prev. tr_Party p = party \<and> carried_until prev now party = until p \<and> now < until p)"
proof -
  have "fold (\<lambda>p u. if tr_Penalty p < 0 \<and> now < until p \<and> tr_Party p = party then until p else u) prev u0 = u0 \<or>
    (\<exists>p \<in> set prev. tr_Party p = party \<and> now < until p \<and>
      fold (\<lambda>p u. if tr_Penalty p < 0 \<and> now < until p \<and> tr_Party p = party then until p else u) prev u0 = until p)" for u0
    by (induction prev arbitrary: u0) (fastforce split: if_splits)+
  then show ?thesis unfolding carried_until_def by blast
qed

lemma partyTrust_until:
  assumes "t \<in> set (partyTrust stale refusals prev now vetted)"
    and "\<not> trust_evidence stale refusals vetted (tr_Party t)"
    and "\<forall>p \<in> set prev. tr_Party p = tr_Party t \<longrightarrow> until p \<le> U" and "0 \<le> U"
  shows "until t \<le> U"
proof -
  obtain party where t: "t = trust_of stale refusals prev now vetted party"
    using assms(1) by (auto simp: partyTrust_def)
  then have "tr_Party t = party" by (simp add: trust_of_def Let_def)
  then have "until t = carried_until prev now party"
    using assms(2) t by (simp add: trust_of_def trust_evidence_def Let_def)
  then show ?thesis
    using carried_until_cases [of prev now party] assms(3,4) \<open>tr_Party t = party\<close> by auto
qed

lemma partyTrust_penalty: "t \<in> set (partyTrust stale refusals prev now vetted) \<Longrightarrow> tr_Penalty t < 0 \<Longrightarrow> now < until t"
  by (auto simp: partyTrust_def trust_of_def Let_def split: if_splits)

text \<open>A run of refreshes: each reads what the last one left.\<close>

type_synonym trust_input = "PartyStale list \<times> (opID, OperatorStat) gomap \<times> time"

fun trust_run :: "svc_gate \<Rightarrow> PartyTrust list \<Rightarrow> trust_input list \<Rightarrow> PartyTrust list" where
  "trust_run vetted prev [] = prev"
| "trust_run vetted prev ((stale, refusals, now) # rest) = trust_run vetted (partyTrust stale refusals prev now vetted) rest"

lemma trust_run_until:
  assumes "\<forall>(stale, refusals, now) \<in> set ins. \<not> trust_evidence stale refusals vetted party"
    and "\<forall>p \<in> set prev. tr_Party p = party \<longrightarrow> until p \<le> U" and "0 \<le> U"
  shows "\<forall>t \<in> set (trust_run vetted prev ins). tr_Party t = party \<longrightarrow> until t \<le> U"
  using assms
proof (induction vetted prev ins rule: trust_run.induct)
  case (1 vetted prev)
  then show ?case by simp
next
  case (2 vetted prev stale refusals now rest)
  have "\<forall>p \<in> set (partyTrust stale refusals prev now vetted). tr_Party p = party \<longrightarrow> until p \<le> U"
    using partyTrust_until [of _ stale refusals prev now vetted U] "2.prems" by auto
  then show ?case using 2 by simp
qed

section \<open>Lemmas: borrowed verdicts\<close>

lemma upsert_set:
  "set (upsert P f new xs) \<subseteq> set xs \<union> f ` {x \<in> set xs. P x} \<union> {new}"
  by (induction xs) auto

text \<open>A borrowed penalty only makes a charge harsher, and only while the peer's own hold runs.\<close>

lemma merge_stale_harsher:
  assumes "p \<in> set (merge_stale served on now ps stale)"
  shows "p \<in> set stale \<or> (ps_Penalty p = ss_Penalty ps \<and> ps_peer p \<and> ps_ServiceID p = ss_Service ps \<and> ps_Party p = ss_Party ps \<and>
     time_sub now (ps_pricedAt p) < staleShareHold)"
  using assms upsert_set by (fastforce simp: merge_stale_def Let_def split: if_splits)

lemma adopted_not_later:
  "t \<in> set (snd (adopted (storePartyPenalties stale trust))) \<Longrightarrow> \<exists>u \<in> set trust. tr_Party u = tr_Party t \<and> tr_Penalty u < 0 \<and> until t \<le> until u"
  by (auto simp: adopted_def storePartyPenalties_def time_unix_of_le)

section \<open>Properties\<close>


definition two_parties :: "(opID, OperatorStat) gomap" where
  "two_parties = [((''eth'', ''a.io'', []), no_stat\<lparr>Attempts := 1000, Failures := 0\<rparr>),
     ((''eth'', ''b.io'', []), no_stat\<lparr>Attempts := 1000, Failures := 500\<rparr>)]"

definition priced_b :: PartyShare where
  "priced_b = \<lparr>sh_ServiceID = ''eth'', sh_Party = ''b.io'', sh_Share = 1 / 2, sh_Penalty = -40, sh_pricedAt = 7\<rparr>"


text \<open>The stale-head term is the shared pricing at its own constants. Two implementations of the same rule
  exist side by side; forgetting what only the stale one reports (the excess, and which penalties are held), the
  list it returns is, entry for entry, the one the shared pricing returns.\<close>

lemma partyStale_is_priceShares:
  "map as_share (partyStale st on prev now) = priceShares st staleRule on None (map as_share prev) now"
proof -
  let ?ms = "measured_shares st staleShareMinAnswers"
  have "map as_share (concat (map (\<lambda>svc. stale_service on now svc (shares_in ?ms svc)) (services_of ?ms))) =
      concat (map (\<lambda>svc. price_service staleRule on None now svc (shares_in ?ms svc)) (services_of ?ms))"
    by (simp add: map_concat stale_service_share comp_def)
  moreover have "map as_share (map (\<lambda>p. p\<lparr>held := True\<rparr>)
      (filter (\<lambda>p. ps_Penalty p < 0 \<and> (ps_ServiceID p, ps_Party p) \<notin> M \<and> gate_on on (ps_ServiceID p) \<and>
         time_sub now (ps_pricedAt p) < staleShareHold) prev)) =
    filter (\<lambda>p. sh_Penalty p < 0 \<and> (sh_ServiceID p, sh_Party p) \<notin> M \<and> gate_on on (sh_ServiceID p) \<and>
         time_sub now (sh_pricedAt p) < staleShareHold) (map as_share prev)" for M
    by (induction prev) (simp_all add: as_share_def)
  ultimately show ?thesis
    by (simp add: partyStale_def priceShares_def Let_def staleRule_def)
qed



end
