(* ===== verification/Concentration.thy ===== *)
theory Concentration
  imports Domain_Types
begin

text \<open>
  The per-operator concentration cap (\<^verbatim>\<open>reputation/concentration.go\<close>) and the weighted draw
  it and the load spreading use (\<^verbatim>\<open>pickIndex\<close> of \<^verbatim>\<open>reputation/selector.go\<close>,
  \<^verbatim>\<open>reputation/selector_spread.go\<close>).

  Randomness is an input: \<open>rnd\<close> is what \<^verbatim>\<open>rand.Float64\<close> returned at the place in question,
  in the half-open unit interval; \<open>pos\<close> is what \<^verbatim>\<open>rand.IntN\<close> returned. Pooled scratch
  buffers hold no state between calls.
\<close>

section \<open>The weighted draw\<close>

fun draw :: "nat \<Rightarrow> real list \<Rightarrow> real \<Rightarrow> nat option \<Rightarrow> nat option" where
  "draw i [] r lst = lst"
| "draw i (w # ws) r lst =
     (if w \<le> 0 then draw (Suc i) ws r lst
      else if r < w then Some i else draw (Suc i) ws (r - w) (Some i))"

definition total_weight :: "real list \<Rightarrow> real" where
  "total_weight ws = sum_list (map (\<lambda>w. if w > 0 then w else 0) ws)"

definition pickIndex :: "real list \<Rightarrow> real \<Rightarrow> nat option" where
  "pickIndex ws rnd =
     (let total = total_weight ws in if total \<le> 0 then None else draw 0 ws (rnd * total) None)"

definition pickWeightedByInverseLoad ::
  "endpoint_addr list \<Rightarrow> (endpoint_addr, int) gomap \<Rightarrow> real \<Rightarrow> nat \<Rightarrow> endpoint_addr" where
  "pickWeightedByInverseLoad candidates load rnd pos =
     (if candidates = [] then []
      else if length candidates = 1 then hd candidates
      else if load = [] then candidates ! pos
      else case pickIndex (map (\<lambda>ep. 1 / real_of_int (1 + (case map_of load ep of None \<Rightarrow> 0 | Some n \<Rightarrow> n))) candidates) rnd of
             None \<Rightarrow> candidates ! pos
           | Some i \<Rightarrow> candidates ! i)"

section \<open>The cap\<close>

definition DefaultMaxOperatorShare :: real where "DefaultMaxOperatorShare = 0.50"
definition DefaultTwoOperatorMaxShare :: real where "DefaultTwoOperatorMaxShare = 0.65"
definition DefaultDisplacementCeiling :: real where "DefaultDisplacementCeiling = 3.0"

record OperatorCapConfig =
  MaxShare :: real
  TwoOperatorMaxShare :: real
  DisplacementCeiling :: real

definition resolve_cap :: "OperatorCapConfig \<Rightarrow> (real \<times> real \<times> real) option" where
  "resolve_cap c =
     (let maxShare = (if MaxShare c = 0 then DefaultMaxOperatorShare else MaxShare c) in
      if maxShare < 0 then None
      else
        let two = (if TwoOperatorMaxShare c = 0 then DefaultTwoOperatorMaxShare else TwoOperatorMaxShare c);
            two = (if two < 0 then maxShare else two);
            ceil = (if DisplacementCeiling c = 0 then DefaultDisplacementCeiling else DisplacementCeiling c);
            ceil = (if ceil < 0 then 0 else ceil)
        in Some (maxShare, two, ceil))"

record opGroup =
  og_operator :: string
  og_count :: nat
  mass :: real
  og_pick :: endpoint_addr
  entitlement :: real
  weight :: real

definition fill_eps :: real where "fill_eps = 1 / 10 ^ 9"

definition limit :: "real \<Rightarrow> real \<Rightarrow> opGroup \<Rightarrow> real" where
  "limit capShare ceil g = (if ceil > 0 then min capShare (ceil * entitlement g) else capShare)"

definition over_cap :: "real \<Rightarrow> opGroup \<Rightarrow> bool" where
  "over_cap capShare g \<longleftrightarrow> weight g > capShare + fill_eps"

definition waterFill :: "opGroup list \<Rightarrow> real \<Rightarrow> real \<Rightarrow> opGroup list" where
  "waterFill groups capShare ceil =
     (let excess = sum_list (map (\<lambda>g. if over_cap capShare g then weight g - capShare else 0) groups);
          overEntitlement = sum_list (map (\<lambda>g. if over_cap capShare g then entitlement g else 0) groups);
          g1 = map (\<lambda>g. if over_cap capShare g then g\<lparr>weight := capShare\<rparr> else g) groups
      in if excess \<le> fill_eps then g1
      else
        let headroom = sum_list (map (\<lambda>g. let h = limit capShare ceil g - weight g in if h > 0 then h else 0) g1);
            give = min excess headroom;
            g2 = (if give > fill_eps
                  then map (\<lambda>g. let h = limit capShare ceil g - weight g in
                         if h > 0 then g\<lparr>weight := weight g + give * h / headroom\<rparr> else g) g1
                  else g1);
            leftover = excess - give
        in if leftover > fill_eps \<and> overEntitlement > 0
           then map (\<lambda>g. if weight g \<ge> capShare - fill_eps \<and> entitlement g > capShare
                         then g\<lparr>weight := weight g + leftover * entitlement g / overEntitlement\<rparr> else g) g2
           else g2)"

text \<open>Adding one candidate of weight \<open>w\<close> to the groups, with the draw that decides whether it
  replaces the representative of its operator.\<close>

fun add_to_group :: "string \<Rightarrow> endpoint_addr \<Rightarrow> real \<Rightarrow> real \<Rightarrow> opGroup list \<Rightarrow> opGroup list" where
  "add_to_group op ep w rnd [] =
     [\<lparr>og_operator = op, og_count = 1, mass = w, og_pick = ep, entitlement = 0, weight = 0\<rparr>]"
| "add_to_group op ep w rnd (g # gs) =
     (if og_operator g = op
      then g\<lparr>og_count := og_count g + 1, mass := mass g + w,
             og_pick := (if rnd < w / (mass g + w) then ep else og_pick g)\<rparr> # gs
      else g # add_to_group op ep w rnd gs)"

text \<open>The candidates that take part, with their weights and draws: \<open>keep\<close> and \<open>weight\<close> are
  per index.\<close>

fun group_candidates :: "psl \<Rightarrow> nat \<Rightarrow> endpoint_addr list \<Rightarrow> (nat \<Rightarrow> bool) \<Rightarrow> (nat \<Rightarrow> real) \<Rightarrow> (nat \<Rightarrow> real) \<Rightarrow>
    opGroup list \<times> real \<Rightarrow> opGroup list \<times> real" where
  "group_candidates psl i [] keep wt rnd acc = acc"
| "group_candidates psl i (ep # eps) keep wt rnd acc =
     group_candidates psl (Suc i) eps keep wt rnd
       (if \<not> keep i \<or> wt i \<le> 0 then acc
        else (add_to_group (operator_of psl ep) ep (wt i) (rnd i) (fst acc), snd acc + wt i))"

definition cappedPickWeighted :: "psl \<Rightarrow> OperatorCapConfig \<Rightarrow> endpoint_addr list \<Rightarrow> (nat \<Rightarrow> bool) \<Rightarrow> (nat \<Rightarrow> real) \<Rightarrow>
    (nat \<Rightarrow> real) \<Rightarrow> real \<Rightarrow> (string \<times> endpoint_addr) option" where
  "cappedPickWeighted psl cfg candidates keep wt rnd final =
     (case resolve_cap cfg of
        None \<Rightarrow> None
      | Some (maxShare, twoOpShare, ceil) \<Rightarrow>
          if length candidates < 2 then None
          else case group_candidates psl 0 candidates keep wt rnd ([], 0) of
            (groups, totalMass) \<Rightarrow>
              if length groups < 2 \<or> totalMass \<le> 0 then None
              else
                let capShare = (if length groups = 2 then twoOpShare else maxShare);
                    gs = map (\<lambda>g. g\<lparr>entitlement := mass g / totalMass, weight := mass g / totalMass\<rparr>) groups;
                    filled = waterFill gs capShare ceil
                in case pickIndex (map weight filled) final of
                     None \<Rightarrow> None
                   | Some i \<Rightarrow> Some (og_operator (filled ! i), og_pick (filled ! i)))"

section \<open>Lemmas: the draw\<close>

lemma total_weight_nonneg: "0 \<le> total_weight ws"
  by (induction ws) (auto simp: total_weight_def)

lemma total_weight_Cons: "total_weight (w # ws) = (if w > 0 then w else 0) + total_weight ws"
  by (simp add: total_weight_def)

text \<open>With the draw inside the total, the index found is the one whose interval of the running sum
  holds it.\<close>

lemma draw_spec:
  assumes "0 \<le> r" and "r < total_weight ws"
  shows "\<exists>j. draw i ws r lst = Some (i + j) \<and> j < length ws \<and> 0 < ws ! j \<and>
    total_weight (take j ws) \<le> r \<and> r < total_weight (take (Suc j) ws)"
  using assms
proof (induction ws arbitrary: i r lst)
  case Nil
  then show ?case by (simp add: total_weight_def)
next
  case (Cons w ws)
  show ?case
  proof (cases "w \<le> 0")
    case True
    with Cons.prems have "r < total_weight ws" by (simp add: total_weight_Cons)
    from Cons.IH [OF Cons.prems(1) this, of "Suc i" lst] obtain j where
      "draw (Suc i) ws r lst = Some (Suc i + j)" "j < length ws" "0 < ws ! j"
      "total_weight (take j ws) \<le> r" "r < total_weight (take (Suc j) ws)" by blast
    with True show ?thesis by (intro exI [of _ "Suc j"]) (simp add: total_weight_Cons)
  next
    case False
    show ?thesis
    proof (cases "r < w")
      case True
      with False Cons.prems show ?thesis by (intro exI [of _ 0]) (simp add: total_weight_Cons total_weight_def)
    next
      case ge: False
      with False Cons.prems have "0 \<le> r - w" "r - w < total_weight ws" by (auto simp: total_weight_Cons)
      from Cons.IH [OF this, of "Suc i" "Some i"] obtain j where
        "draw (Suc i) ws (r - w) (Some i) = Some (Suc i + j)" "j < length ws" "0 < ws ! j"
        "total_weight (take j ws) \<le> r - w" "r - w < total_weight (take (Suc j) ws)" by blast
      with False ge show ?thesis by (intro exI [of _ "Suc j"]) (auto simp: total_weight_Cons)
    qed
  qed
qed

lemma total_weight_pos_iff: "0 < total_weight ws \<longleftrightarrow> (\<exists>w \<in> set ws. 0 < w)"
proof (induction ws)
  case Nil
  then show ?case by (simp add: total_weight_def)
next
  case (Cons w ws)
  then show ?case
    using total_weight_nonneg [of ws] by (auto simp: total_weight_Cons add_pos_nonneg)
qed

lemma pickIndex_spec:
  assumes "0 \<le> rnd" and "rnd < 1"
  shows "case pickIndex ws rnd of
      None \<Rightarrow> \<forall>w \<in> set ws. w \<le> 0
    | Some i \<Rightarrow> i < length ws \<and> 0 < ws ! i \<and>
        total_weight (take i ws) \<le> rnd * total_weight ws \<and> rnd * total_weight ws < total_weight (take (Suc i) ws)"
proof (cases "total_weight ws \<le> 0")
  case True
  then show ?thesis using total_weight_pos_iff [of ws] by (auto simp: pickIndex_def not_less)
next
  case False
  then have "0 \<le> rnd * total_weight ws" "rnd * total_weight ws < total_weight ws" using assms by auto
  from draw_spec [OF this, of 0 None] False show ?thesis
    by (auto simp: pickIndex_def)
qed

lemma pickIndex_SomeD:
  assumes "pickIndex ws rnd = Some i" and "0 \<le> rnd" and "rnd < 1"
  shows "i < length ws" "0 < ws ! i"
  using pickIndex_spec [OF assms(2,3), of ws] assms(1) by auto

lemma pickIndex_Some:
  assumes "w \<in> set ws" and "0 < w" and "0 \<le> rnd" and "rnd < 1"
  shows "pickIndex ws rnd \<noteq> None"
  using pickIndex_spec [OF assms(3,4), of ws] assms(1,2) by (fastforce split: option.splits)

section \<open>Lemmas: grouping\<close>

lemma add_to_group_ops:
  "og_operator ` set (add_to_group op ep w rnd gs) = insert op (og_operator ` set gs)"
  by (induction gs) auto

lemma add_to_group_distinct:
  "distinct (map og_operator gs) \<Longrightarrow> distinct (map og_operator (add_to_group op ep w rnd gs))"
proof (induction gs)
  case (Cons g gs)
  have "og_operator g \<notin> og_operator ` set (add_to_group op ep w rnd gs)" if "og_operator g \<noteq> op"
    using that Cons.prems by (simp add: add_to_group_ops)
  with Cons show ?case by auto
qed simp

definition pick_ok :: "psl \<Rightarrow> endpoint_addr set \<Rightarrow> opGroup \<Rightarrow> bool" where
  "pick_ok psl E g \<longleftrightarrow> og_pick g \<in> E \<and> operator_of psl (og_pick g) = og_operator g \<and> 0 < mass g"

definition members :: "psl \<Rightarrow> endpoint_addr set \<Rightarrow> opGroup list \<Rightarrow> bool" where
  "members psl E gs \<longleftrightarrow> distinct (map og_operator gs) \<and> (\<forall>g \<in> set gs. pick_ok psl E g)"

lemma pick_ok_add:
  assumes "pick_ok psl E g" and "ep \<in> E" and "0 < w" and "og_operator g = operator_of psl ep"
  shows "pick_ok psl E (g\<lparr>og_count := n, mass := mass g + w, og_pick := if b then ep else og_pick g\<rparr>)"
  using assms by (simp add: pick_ok_def)

lemma add_to_group_members:
  assumes "members psl E gs" and "ep \<in> E" and "0 < w"
  shows "members psl E (add_to_group (operator_of psl ep) ep w rnd gs)"
proof -
  have "\<forall>g \<in> set (add_to_group (operator_of psl ep) ep w rnd gs). pick_ok psl E g"
    if "\<forall>g \<in> set gs. pick_ok psl E g" for gs
    using that
  proof (induction gs)
    case Nil
    then show ?case using assms(2,3) by (simp add: pick_ok_def)
  next
    case (Cons g gs)
    then show ?case
      using pick_ok_add [OF _ assms(2,3), where g = g] by (cases "og_operator g = operator_of psl ep") simp_all
  qed
  then show ?thesis using assms(1) add_to_group_distinct unfolding members_def by blast
qed

lemma add_to_group_mass:
  "sum_list (map mass (add_to_group op ep w rnd gs)) = sum_list (map mass gs) + w"
  by (induction gs) auto

definition taking :: "nat \<Rightarrow> endpoint_addr list \<Rightarrow> (nat \<Rightarrow> bool) \<Rightarrow> (nat \<Rightarrow> real) \<Rightarrow> endpoint_addr set" where
  "taking i eps keep wt = {eps ! j | j. j < length eps \<and> keep (i + j) \<and> 0 < wt (i + j)}"

lemma taking_Cons:
  "taking i (ep # eps) keep wt = (if keep i \<and> 0 < wt i then {ep} else {}) \<union> taking (Suc i) eps keep wt"
proof -
  have "{(ep # eps) ! j | j. j < Suc (length eps) \<and> keep (i + j) \<and> 0 < wt (i + j)} =
      (if keep i \<and> 0 < wt i then {ep} else {}) \<union>
      {eps ! j | j. j < length eps \<and> keep (Suc (i + j)) \<and> 0 < wt (Suc (i + j))}"
    (is "?l = ?r")
  proof
    show "?l \<subseteq> ?r"
    proof
      fix x assume "x \<in> ?l"
      then obtain j where "x = (ep # eps) ! j" "j < Suc (length eps)" "keep (i + j)" "0 < wt (i + j)" by auto
      then show "x \<in> ?r" by (cases j) auto
    qed
    show "?r \<subseteq> ?l"
    proof
      fix x assume "x \<in> ?r"
      then consider "x = ep" "keep i" "0 < wt i"
        | j where "x = eps ! j" "j < length eps" "keep (Suc (i + j))" "0 < wt (Suc (i + j))"
        by (auto split: if_splits)
      then show "x \<in> ?l"
      proof cases
        case 1
        then show ?thesis by (intro CollectI exI [of _ 0]) simp
      next
        case 2
        then show ?thesis by (intro CollectI exI [of _ "Suc j"]) simp
      qed
    qed
  qed
  then show ?thesis by (simp add: taking_def)
qed

lemma group_candidates_spec:
  assumes "members psl E gs" and "taking i eps keep wt \<subseteq> E" and "snd acc = sum_list (map mass gs)" and "fst acc = gs"
  shows "let r = group_candidates psl i eps keep wt rnd acc in
    members psl E (fst r) \<and> snd r = sum_list (map mass (fst r)) \<and>
    og_operator ` set (fst r) = og_operator ` set gs \<union> operator_of psl ` taking i eps keep wt"
  using assms
proof (induction eps arbitrary: i acc gs)
  case Nil
  then show ?case by (simp add: taking_def)
next
  case (Cons ep eps)
  have sub: "taking (Suc i) eps keep wt \<subseteq> E" using Cons.prems(2) by (simp add: taking_Cons)
  show ?case
  proof (cases "keep i \<and> 0 < wt i")
    case True
    then have "ep \<in> E" using Cons.prems(2) by (simp add: taking_Cons)
    let ?gs = "add_to_group (operator_of psl ep) ep (wt i) (rnd i) gs"
    have "members psl E ?gs" using Cons.prems(1) \<open>ep \<in> E\<close> True by (intro add_to_group_members) auto
    from Cons.IH [OF this sub, of "(?gs, snd acc + wt i)"] Cons.prems(3,4) True show ?thesis
      by (auto simp: add_to_group_mass add_to_group_ops taking_Cons Let_def)
  next
    case False
    with Cons.IH [OF Cons.prems(1) sub Cons.prems(3,4)] show ?thesis
      by (auto simp: taking_Cons Let_def)
  qed
qed

lemma group_candidates_0:
  "let r = group_candidates psl 0 eps keep wt rnd ([], 0) in
    members psl (taking 0 eps keep wt) (fst r) \<and> snd r = sum_list (map mass (fst r)) \<and>
    og_operator ` set (fst r) = operator_of psl ` taking 0 eps keep wt"
  using group_candidates_spec [of psl "taking 0 eps keep wt" "[]" 0 eps keep wt "([], 0)" rnd]
  by (simp add: members_def Let_def)

section \<open>Lemmas: water-filling\<close>

text \<open>Water-filling changes weights only, each by a function of the group and of the three sums.\<close>

definition wf_excess :: "real \<Rightarrow> opGroup list \<Rightarrow> real" where
  "wf_excess c gs = sum_list (map (\<lambda>g. if over_cap c g then weight g - c else 0) gs)"

definition wf_over :: "real \<Rightarrow> opGroup list \<Rightarrow> real" where
  "wf_over c gs = sum_list (map (\<lambda>g. if over_cap c g then entitlement g else 0) gs)"

definition wf_first :: "real \<Rightarrow> opGroup \<Rightarrow> real" where
  "wf_first c g = (if over_cap c g then c else weight g)"

definition wf_room :: "real \<Rightarrow> real \<Rightarrow> opGroup \<Rightarrow> real" where
  "wf_room c ceil g = (let h = limit c ceil g - wf_first c g in if h > 0 then h else 0)"

definition wf_headroom :: "real \<Rightarrow> real \<Rightarrow> opGroup list \<Rightarrow> real" where
  "wf_headroom c ceil gs = sum_list (map (wf_room c ceil) gs)"

definition wf_weight :: "real \<Rightarrow> real \<Rightarrow> opGroup list \<Rightarrow> opGroup \<Rightarrow> real" where
  "wf_weight c ceil gs g =
     (let X = wf_excess c gs; H = wf_headroom c ceil gs; OE = wf_over c gs; give = min X H; w1 = wf_first c g;
          w2 = (if give > fill_eps \<and> wf_room c ceil g > 0 then w1 + give * wf_room c ceil g / H else w1)
      in if X \<le> fill_eps then w1
         else if X - give > fill_eps \<and> OE > 0 \<and> w2 \<ge> c - fill_eps \<and> entitlement g > c
         then w2 + (X - give) * entitlement g / OE else w2)"

lemma limit_weight [simp]: "limit c ceil (g\<lparr>weight := w\<rparr>) = limit c ceil g"
  by (simp add: limit_def)

lemma first_update: "(if over_cap c g then g\<lparr>weight := c\<rparr> else g) = g\<lparr>weight := wf_first c g\<rparr>"
  by (simp add: wf_first_def)

lemma waterFill_weights: "waterFill gs c ceil = map (\<lambda>g. g\<lparr>weight := wf_weight c ceil gs g\<rparr>) gs"
proof -
  let ?X = "wf_excess c gs" and ?H = "wf_headroom c ceil gs" and ?OE = "wf_over c gs"
  let ?g1 = "map (\<lambda>g. g\<lparr>weight := wf_first c g\<rparr>) gs"
  have h: "sum_list (map (\<lambda>g. let h = limit c ceil g - weight g in if h > 0 then h else 0) ?g1) = ?H"
    unfolding wf_headroom_def wf_room_def by (simp add: comp_def Let_def cong: if_cong)
  show ?thesis
    unfolding waterFill_def wf_excess_def [symmetric] wf_over_def [symmetric] first_update Let_def
    unfolding h [unfolded Let_def]
    by (auto simp: wf_weight_def Let_def wf_room_def)
qed

definition shares :: "opGroup list \<Rightarrow> real \<Rightarrow> bool" where
  "shares gs c \<longleftrightarrow> (\<forall>g \<in> set gs. weight g = entitlement g \<and> 0 \<le> entitlement g) \<and>
     sum_list (map entitlement gs) = 1 \<and> 1 / 2 \<le> c"

lemma fill_eps_pos: "0 < fill_eps"
  by (simp add: fill_eps_def)

lemma sum_list_zero: "\<forall>g \<in> set gs. f g = 0 \<Longrightarrow> sum_list (map f gs) = (0 :: real)"
  by (induction gs) auto

lemma wf_weight_no_over:
  assumes "shares gs c" and none: "\<forall>g \<in> set gs. \<not> over_cap c g" and "g \<in> set gs"
  shows "wf_weight c ceil gs g = entitlement g"
proof -
  have "wf_excess c gs = 0" using none unfolding wf_excess_def by (intro sum_list_zero) simp
  then show ?thesis using assms fill_eps_pos by (simp add: wf_weight_def Let_def wf_first_def shares_def)
qed

text \<open>With a cap of at least one half there is at most one operator over it.\<close>

lemma sum_list_nonneg_map: "\<forall>g \<in> set gs. 0 \<le> (f g :: real) \<Longrightarrow> 0 \<le> sum_list (map f gs)"
  by (auto intro!: sum_list_nonneg)

lemma one_over:
  assumes "shares gs c" and "g \<in> set gs" and "over_cap c g"
  obtains pre post where "gs = pre @ g # post" "\<forall>x \<in> set pre \<union> set post. entitlement x < 1 / 2 \<and> \<not> over_cap c x"
    "sum_list (map entitlement pre) + sum_list (map entitlement post) = 1 - entitlement g"
proof -
  obtain pre post where gs: "gs = pre @ g # post" using assms(2) by (meson split_list)
  have tot: "sum_list (map entitlement pre) + sum_list (map entitlement post) = 1 - entitlement g"
    using assms(1) by (simp add: shares_def gs)
  have g: "entitlement g > 1 / 2" using assms fill_eps_pos by (auto simp: shares_def over_cap_def)
  have nn: "\<forall>x \<in> set pre. 0 \<le> entitlement x" "\<forall>x \<in> set post. 0 \<le> entitlement x"
    using assms(1) by (auto simp: shares_def gs)
  have "entitlement x < 1 / 2 \<and> \<not> over_cap c x" if "x \<in> set pre \<union> set post" for x
  proof -
    have "entitlement x \<le> sum_list (map entitlement pre) + sum_list (map entitlement post)"
      using that nn sum_list_nonneg_map [OF nn(1)] sum_list_nonneg_map [OF nn(2)]
        member_le_sum_list [of "entitlement x" "map entitlement pre"]
        member_le_sum_list [of "entitlement x" "map entitlement post"] by force
    then have "entitlement x < 1 / 2" using tot g by simp
    moreover have "weight x = entitlement x" using that assms(1) by (auto simp: shares_def gs)
    ultimately show ?thesis using assms(1) fill_eps_pos by (simp add: over_cap_def shares_def)
  qed
  with gs tot that show ?thesis by blast
qed

lemma over_sums:
  assumes "gs = pre @ g # post" and "over_cap c g" and others: "\<forall>x \<in> set pre \<union> set post. \<not> over_cap c x"
  shows "wf_excess c gs = weight g - c" "wf_over c gs = entitlement g"
proof -
  have "sum_list (map (\<lambda>x. if over_cap c x then f x else 0) xs) = 0"
    if "set xs \<subseteq> set pre \<union> set post" for f :: "opGroup \<Rightarrow> real" and xs :: "opGroup list"
    using that others by (intro sum_list_zero) auto
  then show "wf_excess c gs = weight g - c" "wf_over c gs = entitlement g"
    using assms(1,2) unfolding wf_excess_def wf_over_def by simp_all
qed

lemma wf_room_nonneg: "0 \<le> wf_room c ceil g"
  by (simp add: wf_room_def Let_def)

lemma wf_room_over: "over_cap c g \<Longrightarrow> wf_room c ceil g = 0"
  by (simp add: wf_room_def wf_first_def limit_def)

lemma wf_headroom_split:
  "wf_headroom c ceil (pre @ g # post) = wf_headroom c ceil pre + wf_room c ceil g + wf_headroom c ceil post"
  by (simp add: wf_headroom_def)

lemma wf_headroom_nonneg: "0 \<le> wf_headroom c ceil gs"
  unfolding wf_headroom_def by (intro sum_list_nonneg_map) (simp add: wf_room_nonneg)

text \<open>What one pass leaves with an operator that was not over, and with the one that was.\<close>

definition wf_give :: "real \<Rightarrow> real \<Rightarrow> opGroup list \<Rightarrow> real" where
  "wf_give c ceil gs = (let give = min (wf_excess c gs) (wf_headroom c ceil gs) in if give > fill_eps then give else 0)"

lemma weight_receiver:
  assumes "\<not> over_cap c x" and "entitlement x \<le> c" and "wf_excess c gs > fill_eps"
  shows "wf_weight c ceil gs x = weight x + wf_give c ceil gs * wf_room c ceil x / wf_headroom c ceil gs"
  using assms wf_room_nonneg [of c ceil x]
  by (auto simp: wf_weight_def wf_give_def Let_def wf_first_def)

lemma weight_over:
  assumes "gs = pre @ g # post" and "over_cap c g" and "\<forall>x \<in> set pre \<union> set post. \<not> over_cap c x"
    and "weight g = entitlement g" and "0 \<le> c"
  shows "wf_weight c ceil gs g =
    (let left = entitlement g - c - min (entitlement g - c) (wf_headroom c ceil gs)
     in c + (if left > fill_eps then left else 0))"
proof -
  note sums = over_sums [OF assms(1-3)]
  have "entitlement g > c + fill_eps" using assms(2,4) by (simp add: over_cap_def)
  moreover have "0 < fill_eps" by (rule fill_eps_pos)
  ultimately have "entitlement g > c" "entitlement g > 0" "entitlement g - c > fill_eps" using assms(5) by linarith+
  then show ?thesis
    using assms(2,4) fill_eps_pos
    by (auto simp: wf_weight_def Let_def sums wf_first_def wf_room_over)
qed

lemma receivers_total:
  assumes "\<forall>x \<in> set xs. \<not> over_cap c x \<and> entitlement x \<le> c \<and> weight x = entitlement x"
    and "wf_excess c gs > fill_eps"
  shows "sum_list (map (wf_weight c ceil gs) xs) =
    sum_list (map entitlement xs) + wf_give c ceil gs * wf_headroom c ceil xs / wf_headroom c ceil gs"
  using assms(1)
proof (induction xs)
  case Nil
  then show ?case by (simp add: wf_headroom_def)
next
  case (Cons x xs)
  have "wf_weight c ceil gs x = entitlement x + wf_give c ceil gs * wf_room c ceil x / wf_headroom c ceil gs"
    using Cons.prems weight_receiver [OF _ _ assms(2), of x ceil] by simp
  with Cons show ?case by (simp add: wf_headroom_def distrib_left add_divide_distrib)
qed

lemma receiver_bounds:
  assumes "\<not> over_cap c x" and "entitlement x \<le> c" and "weight x = entitlement x" and "wf_excess c gs > fill_eps"
  shows "entitlement x \<le> wf_weight c ceil gs x" "wf_weight c ceil gs x \<le> max (entitlement x) (limit c ceil x)"
proof -
  let ?H = "wf_headroom c ceil gs" and ?r = "wf_room c ceil x" and ?G = "wf_give c ceil gs"
  have w: "wf_weight c ceil gs x = entitlement x + ?G * ?r / ?H"
    using weight_receiver [OF assms(1,2,4), of ceil] assms(3) by simp
  have G: "0 \<le> ?G" "?G \<le> ?H"
    using fill_eps_pos wf_headroom_nonneg [of c ceil gs] by (auto simp: wf_give_def Let_def)
  then show "entitlement x \<le> wf_weight c ceil gs x"
    using w wf_room_nonneg [of c ceil x] wf_headroom_nonneg [of c ceil gs] by simp
  have "?G * ?r / ?H \<le> ?r"
  proof (cases "?H = 0")
    case True
    then show ?thesis using wf_room_nonneg [of c ceil x] by simp
  next
    case False
    then have "0 < ?H" using wf_headroom_nonneg [of c ceil gs] by simp
    then have "?G / ?H \<le> 1" "0 \<le> ?G / ?H" using G by (simp_all add: divide_le_eq)
    then have "?G / ?H * ?r \<le> 1 * ?r" using wf_room_nonneg [of c ceil x] by (intro mult_right_mono)
    then show ?thesis by simp
  qed
  then have "wf_weight c ceil gs x \<le> entitlement x + ?r" using w by simp
  also have "\<dots> \<le> max (entitlement x) (limit c ceil x)"
    using assms(1,3) by (simp add: wf_room_def wf_first_def Let_def)
  finally show "wf_weight c ceil gs x \<le> max (entitlement x) (limit c ceil x)" .
qed

lemma over_bounds:
  assumes "gs = pre @ g # post" and "over_cap c g" and "\<forall>x \<in> set pre \<union> set post. \<not> over_cap c x"
    and "weight g = entitlement g" and "0 \<le> c"
  shows "c \<le> wf_weight c ceil gs g" "wf_weight c ceil gs g \<le> entitlement g"
proof -
  have "entitlement g > c" using assms(2,4) fill_eps_pos by (simp add: over_cap_def)
  then show "c \<le> wf_weight c ceil gs g" "wf_weight c ceil gs g \<le> entitlement g"
    unfolding weight_over [OF assms] Let_def
    using fill_eps_pos wf_headroom_nonneg [of c ceil gs] by (auto split: if_splits)
qed

lemma wf_give_zero: "wf_headroom c ceil gs = 0 \<Longrightarrow> wf_give c ceil gs = 0"
  using fill_eps_pos by (simp add: wf_give_def Let_def)

lemma moved_or_returned:
  fixes X H :: real
  defines "m \<equiv> min X H"
  shows "(if fill_eps < m then m else 0) + (if fill_eps < X - m then X - m else 0) \<le> X \<or> X < 0 \<or> H < 0"
    "X - 2 * fill_eps \<le> (if fill_eps < m then m else 0) + (if fill_eps < X - m then X - m else 0)"
  using fill_eps_pos unfolding m_def by (auto simp: min_def)

lemma over_total:
  assumes "shares gs c" and "g \<in> set gs" and "over_cap c g"
  shows "sum_list (map (wf_weight c ceil gs) gs) \<le> 1" "1 - 2 * fill_eps \<le> sum_list (map (wf_weight c ceil gs) gs)"
proof -
  obtain pre post where gs: "gs = pre @ g # post"
    and others: "\<forall>x \<in> set pre \<union> set post. entitlement x < 1 / 2 \<and> \<not> over_cap c x"
    and tot: "sum_list (map entitlement pre) + sum_list (map entitlement post) = 1 - entitlement g"
    using one_over [OF assms] .
  let ?H = "wf_headroom c ceil gs" and ?G = "wf_give c ceil gs" and ?W = "\<lambda>xs. sum_list (map (wf_weight c ceil gs) xs)"
  have c: "1 / 2 \<le> c" and start: "\<forall>x \<in> set gs. weight x = entitlement x" using assms(1) by (auto simp: shares_def)
  have ov: "\<forall>x \<in> set pre \<union> set post. \<not> over_cap c x" using others by blast
  have X: "wf_excess c gs = entitlement g - c" using over_sums(1) [OF gs assms(3) ov] start assms(2) by simp
  have big: "wf_excess c gs > fill_eps" using X assms(2,3) start by (simp add: over_cap_def)
  have rec: "?W xs = sum_list (map entitlement xs) + ?G * wf_headroom c ceil xs / ?H"
    if "set xs \<subseteq> set pre \<union> set post" for xs
  proof (rule receivers_total [OF _ big], intro ballI conjI)
    fix x assume "x \<in> set xs"
    then have x: "x \<in> set pre \<union> set post" using that by blast
    then show "\<not> over_cap c x" "weight x = entitlement x" using others start gs by auto
    from x others have "entitlement x < 1 / 2" by blast
    then show "entitlement x \<le> c" using c by linarith
  qed
  have H: "?H = wf_headroom c ceil pre + wf_headroom c ceil post"
    using wf_room_over [OF assms(3)] by (simp add: gs wf_headroom_split)
  have "?G * wf_headroom c ceil pre / ?H + ?G * wf_headroom c ceil post / ?H =
      ?G * (wf_headroom c ceil pre + wf_headroom c ceil post) / ?H"
    by (simp only: distrib_left add_divide_distrib)
  also have "\<dots> = ?G" using wf_give_zero [of c ceil gs] unfolding H [symmetric] by (cases "?H = 0") auto
  finally have moved: "?G * wf_headroom c ceil pre / ?H + ?G * wf_headroom c ceil post / ?H = ?G" .
  have "sum_list (map f gs) = sum_list (map f pre) + f g + sum_list (map f post)" for f :: "opGroup \<Rightarrow> real"
    by (simp add: gs)
  then have "?W gs = ?W pre + wf_weight c ceil gs g + ?W post" .
  also have "\<dots> = 1 - entitlement g + ?G + wf_weight c ceil gs g"
    using rec [of pre] rec [of post] tot moved by simp
  also have "\<dots> = 1 - (entitlement g - c) + (?G + (wf_weight c ceil gs g - c))" by simp
  finally have W: "?W gs = 1 - (entitlement g - c) + (?G + (wf_weight c ceil gs g - c))" .
  have g: "weight g = entitlement g" "0 \<le> c" using start assms(2) c by auto
  let ?m = "min (entitlement g - c) ?H"
  have "?G = (if fill_eps < ?m then ?m else 0)" by (simp add: wf_give_def X Let_def)
  moreover have "wf_weight c ceil gs g - c = (if fill_eps < entitlement g - c - ?m then entitlement g - c - ?m else 0)"
    using weight_over [OF gs assms(3) ov g, of ceil] by (simp add: Let_def)
  moreover have "0 \<le> entitlement g - c" using big X fill_eps_pos by linarith
  ultimately show "?W gs \<le> 1" "1 - 2 * fill_eps \<le> ?W gs"
    using W moved_or_returned [of "entitlement g - c" ?H] wf_headroom_nonneg [of c ceil gs] by linarith+
qed

lemma waterFill_shares:
  assumes "shares gs c" and "g \<in> set gs"
  shows "if over_cap c g then c \<le> wf_weight c ceil gs g \<and> wf_weight c ceil gs g \<le> entitlement g
    else entitlement g \<le> wf_weight c ceil gs g \<and> wf_weight c ceil gs g \<le> max (entitlement g) (limit c ceil g)"
proof (cases "\<exists>b \<in> set gs. over_cap c b")
  case False
  then have "\<not> over_cap c g" "\<forall>g \<in> set gs. \<not> over_cap c g" using assms(2) by blast+
  then show ?thesis using wf_weight_no_over [OF assms(1) _ assms(2)] by simp
next
  case True
  then obtain b where b: "b \<in> set gs" "over_cap c b" by blast
  obtain pre post where gs: "gs = pre @ b # post"
    and others: "\<forall>x \<in> set pre \<union> set post. entitlement x < 1 / 2 \<and> \<not> over_cap c x"
    and "sum_list (map entitlement pre) + sum_list (map entitlement post) = 1 - entitlement b"
    using one_over [OF assms(1) b] .
  have start: "weight g = entitlement g" "weight b = entitlement b"
    using assms b(1) unfolding shares_def by blast+
  have c: "1 / 2 \<le> c" using assms(1) by (simp add: shares_def)
  have ov: "\<forall>x \<in> set pre \<union> set post. \<not> over_cap c x" using others by blast
  have mem: "g = b \<or> g \<in> set pre \<union> set post" using assms(2) unfolding gs by auto
  show ?thesis
  proof (cases "over_cap c g")
    case True
    then have "g = b" using mem ov by blast
    moreover have "0 \<le> c" using c by linarith
    ultimately show ?thesis using over_bounds [OF gs b(2) ov start(2), where ceil = ceil] b(2) by simp
  next
    case False
    then have "entitlement g < 1 / 2" using mem others b(2) by blast
    then have "entitlement g \<le> c" using c by linarith
    moreover have "wf_excess c gs > fill_eps"
      using over_sums(1) [OF gs b(2) ov] b(2) unfolding over_cap_def by linarith
    ultimately show ?thesis
      using receiver_bounds [OF False _ start(1), where gs = gs and ceil = ceil] False by simp
  qed
qed

text \<open>Whatever the cap, no operator is left without a share.\<close>

lemma wf_over_nonneg: "\<forall>g \<in> set gs. 0 \<le> entitlement g \<Longrightarrow> 0 \<le> wf_over c gs"
  unfolding wf_over_def by (intro sum_list_nonneg_map) simp

lemma wf_weight_pos:
  assumes "0 < c" and "0 < weight g" and "0 \<le> entitlement g"
  shows "0 < wf_weight c ceil gs g"
proof -
  let ?X = "wf_excess c gs" and ?H = "wf_headroom c ceil gs" and ?w = "wf_first c g" and ?r = "wf_room c ceil g"
  have w: "0 < ?w" using assms by (simp add: wf_first_def)
  have "0 \<le> ?r" "0 \<le> ?H" by (rule wf_room_nonneg, rule wf_headroom_nonneg)
  then have step: "0 \<le> min ?X ?H * ?r / ?H" if "fill_eps < min ?X ?H" using that fill_eps_pos by simp
  let ?w2 = "if min ?X ?H > fill_eps \<and> ?r > 0 then ?w + min ?X ?H * ?r / ?H else ?w"
  have w2: "0 < ?w2" using w step by auto
  have "0 \<le> (?X - min ?X ?H) * entitlement g / wf_over c gs" if "0 < wf_over c gs"
    using that assms(3) by simp
  then show ?thesis using w w2 unfolding wf_weight_def Let_def by (auto intro: add_pos_nonneg)
qed

lemma resolve_cap_pos:
  assumes "resolve_cap cfg = Some (m, two, ceil)"
  shows "0 < m" "0 < two"
  using assms
  by (auto simp: resolve_cap_def Let_def DefaultMaxOperatorShare_def DefaultTwoOperatorMaxShare_def split: if_splits)

lemma resolve_cap_None: "resolve_cap cfg = None \<longleftrightarrow> MaxShare cfg < 0"
  by (auto simp: resolve_cap_def Let_def DefaultMaxOperatorShare_def)

definition entitled :: "opGroup list \<Rightarrow> real \<Rightarrow> opGroup list" where
  "entitled groups tm = map (\<lambda>g. g\<lparr>entitlement := mass g / tm, weight := mass g / tm\<rparr>) groups"

lemma pick_from_filled:
  assumes "members psl E groups" and "groups \<noteq> []" and "0 < tm" and "0 < c" and "0 \<le> rnd" and "rnd < 1"
    and filled: "filled = waterFill (entitled groups tm) c ceil"
  obtains i where "pickIndex (map weight filled) rnd = Some i" "og_pick (filled ! i) \<in> E"
    "operator_of psl (og_pick (filled ! i)) = og_operator (filled ! i)"
proof -
  have len: "length filled = length groups" by (simp add: filled waterFill_weights entitled_def)
  have ok: "pick_ok psl E g" if "g \<in> set groups" for g using that assms(1) by (simp add: members_def)
  have "0 < weight g" if "g \<in> set filled" for g
    using that ok assms(3,4) unfolding filled waterFill_weights entitled_def
    by (auto simp: pick_ok_def less_imp_le intro!: wf_weight_pos)
  moreover have "hd filled \<in> set filled" using len assms(2) by (metis hd_in_set length_0_conv)
  ultimately have "pickIndex (map weight filled) rnd \<noteq> None"
    using assms(5,6) by (intro pickIndex_Some [where w = "weight (hd filled)"]) auto
  then obtain i where i: "pickIndex (map weight filled) rnd = Some i" by blast
  then have "i < length groups" using pickIndex_SomeD(1) [OF i assms(5,6)] len by simp
  then have "og_pick (filled ! i) = og_pick (groups ! i)" "og_operator (filled ! i) = og_operator (groups ! i)"
    "pick_ok psl E (groups ! i)"
    by (simp_all add: filled waterFill_weights entitled_def ok)
  with i that show ?thesis by (simp add: pick_ok_def)
qed

lemma taking_0: "taking 0 eps keep wt = {eps ! i | i. i < length eps \<and> keep i \<and> 0 < wt i}"
  by (simp add: taking_def)

lemma card_operators_le: "card (operator_of psl ` taking 0 eps keep wt) \<le> length eps"
proof -
  have "taking 0 eps keep wt \<subseteq> set eps" by (auto simp: taking_def)
  then have "card (operator_of psl ` taking 0 eps keep wt) \<le> card (operator_of psl ` set eps)"
    by (intro card_mono) auto
  also have "\<dots> \<le> card (set eps)" by (rule card_image_le) simp
  also have "\<dots> \<le> length eps" by (rule card_length)
  finally show ?thesis .
qed

lemma capped_cases:
  assumes "0 \<le> final" and "final < 1"
  shows "case cappedPickWeighted psl cfg cands keep wt rnd final of
      None \<Rightarrow> MaxShare cfg < 0 \<or> card (operator_of psl ` taking 0 cands keep wt) < 2
    | Some (op, ep) \<Rightarrow> 0 \<le> MaxShare cfg \<and> 2 \<le> card (operator_of psl ` taking 0 cands keep wt) \<and>
        operator_of psl ep = op \<and> ep \<in> taking 0 cands keep wt"
proof (cases "resolve_cap cfg")
  case None
  then show ?thesis by (simp add: cappedPickWeighted_def resolve_cap_None [symmetric])
next
  case (Some q)
  obtain m two ceil where q: "q = (m, two, ceil)" by (cases q)
  note pos = resolve_cap_pos [OF Some [unfolded q]]
  have on: "0 \<le> MaxShare cfg" using Some resolve_cap_None [of cfg] by force
  obtain groups tm where r: "group_candidates psl 0 cands keep wt rnd ([], 0) = (groups, tm)" by fastforce
  let ?E = "taking 0 cands keep wt"
  have mem: "members psl ?E groups" and tot: "tm = sum_list (map mass groups)"
    and ops: "og_operator ` set groups = operator_of psl ` ?E"
    using group_candidates_0 [of psl cands keep wt rnd] by (simp_all add: r Let_def)
  have "length groups = card (og_operator ` set groups)"
    using mem unfolding members_def by (metis distinct_card length_map set_map)
  then have len: "length groups = card (operator_of psl ` ?E)" by (simp add: ops)
  show ?thesis
  proof (cases "length groups < 2")
    case True
    then show ?thesis using Some by (simp add: cappedPickWeighted_def q r len)
  next
    case False
    then have ne: "groups \<noteq> []" by auto
    have "0 < mass g" if "g \<in> set groups" for g using that mem by (simp add: members_def pick_ok_def)
    then have "0 < mass (hd groups)" "\<forall>g \<in> set (tl groups). 0 \<le> mass g"
      using ne by (auto intro: less_imp_le dest: list.set_sel(2) [rotated])
    then have "0 < mass (hd groups)" "0 \<le> sum_list (map mass (tl groups))"
      using sum_list_nonneg_map by blast+
    then have pos_tm: "0 < tm" unfolding tot using ne by (cases groups) auto
    have big: "\<not> length cands < 2" using card_operators_le [of psl cands keep wt] False len by linarith
    let ?c = "if length groups = 2 then two else m"
    have "0 < ?c" using pos by simp
    then obtain i where i: "pickIndex (map weight (waterFill (entitled groups tm) ?c ceil)) final = Some i"
      "og_pick (waterFill (entitled groups tm) ?c ceil ! i) \<in> ?E"
      "operator_of psl (og_pick (waterFill (entitled groups tm) ?c ceil ! i)) =
        og_operator (waterFill (entitled groups tm) ?c ceil ! i)"
      using pick_from_filled [OF mem ne pos_tm _ assms refl] by blast
    have "cappedPickWeighted psl cfg cands keep wt rnd final =
      Some (og_operator (waterFill (entitled groups tm) ?c ceil ! i), og_pick (waterFill (entitled groups tm) ?c ceil ! i))"
      using False big pos_tm i(1) Some
      by (simp add: cappedPickWeighted_def q r entitled_def [symmetric] Let_def not_le del: map_map)
    then show ?thesis using i(2,3) False on len by simp
  qed
qed

text \<open>Below one half two operators can be over the cap at once; what nobody absorbs is then shared by
  entitlement and not by what was taken, and the smaller of the two ends above its own entitlement.\<close>

lemma low_cap_overshoots:
  "let g = (\<lambda>op e. \<lparr>og_operator = op, og_count = 1, mass = e, og_pick = op, entitlement = e, weight = e\<rparr>);
       gs = [g ''a'' (35 / 100), g ''b'' (60 / 100), g ''c'' (5 / 100)] in
   weight (waterFill gs (3 / 10) 3 ! 0) > 39 / 100"
  by (simp add: waterFill_def Let_def over_cap_def limit_def fill_eps_def)

section \<open>Properties\<close>

text \<open>The cap bounds concentration and does not invent or lose traffic. Take operators whose shares
  are their entitlements, non-negative and summing to one, and a cap of at least one half (both shipped caps
  are). After the redistribution the groups are the same operators with the same sampled members; an operator
  that was over the cap ends between the cap and what it was entitled to; every other operator keeps at least
  its entitlement, and is pushed beyond it no further than the cap and the displacement ceiling allow; and the
  shares still sum to one, up to twice the tolerance below which the code does not move a share.\<close>

lemma waterFill_caps:
  assumes "\<forall>g \<in> set gs. weight g = entitlement g \<and> 0 \<le> entitlement g"
    and "sum_list (map entitlement gs) = 1" and "1 / 2 \<le> capShare"
  shows "let out = waterFill gs capShare ceil in
    map og_operator out = map og_operator gs \<and> map og_pick out = map og_pick gs \<and>
    (\<forall>i < length gs. let e = entitlement (gs ! i); w = weight (out ! i) in
       if e > capShare + fill_eps then capShare \<le> w \<and> w \<le> e
       else e \<le> w \<and> w \<le> max e capShare \<and> (0 < ceil \<longrightarrow> w \<le> max e (ceil * e))) \<and>
    1 - 2 * fill_eps \<le> sum_list (map weight out) \<and> sum_list (map weight out) \<le> 1"
proof -
  have sh: "shares gs capShare" using assms by (simp add: shares_def)
  let ?w = "wf_weight capShare ceil gs"
  have each: "if entitlement g > capShare + fill_eps then capShare \<le> ?w g \<and> ?w g \<le> entitlement g
      else entitlement g \<le> ?w g \<and> ?w g \<le> max (entitlement g) capShare \<and>
        (0 < ceil \<longrightarrow> ?w g \<le> max (entitlement g) (ceil * entitlement g))" if "g \<in> set gs" for g
    using waterFill_shares [OF sh that, of ceil] assms(1) that by (auto simp: over_cap_def limit_def split: if_splits)
  have "1 - 2 * fill_eps \<le> sum_list (map ?w gs) \<and> sum_list (map ?w gs) \<le> 1"
  proof (cases "\<exists>g \<in> set gs. over_cap capShare g")
    case True
    then show ?thesis using over_total [OF sh] by blast
  next
    case False
    then have "map ?w gs = map entitlement gs" by (intro map_cong) (auto intro: wf_weight_no_over [OF sh])
    then have "sum_list (map ?w gs) = 1" using assms(2) by (simp only:)
    then show ?thesis using fill_eps_pos by simp
  qed
  then show ?thesis using each by (simp add: waterFill_weights Let_def comp_def)
qed

lemma waterFill_caps_witness:
  "let g = (\<lambda>op e. \<lparr>og_operator = op, og_count = 1, mass = e, og_pick = op, entitlement = e, weight = e\<rparr>);
       gs = [g ''a'' (8 / 10), g ''b'' (15 / 100), g ''c'' (5 / 100)] in
   map weight (waterFill gs (1 / 2) 3) = [1 / 2, 3 / 8, 1 / 8] \<and>
   sum_list (map weight (waterFill gs (1 / 2) 3)) \<le> 1"
proof -
  let ?g = "\<lambda>op e. \<lparr>og_operator = op, og_count = 1, mass = e, og_pick = op, entitlement = e, weight = e :: real\<rparr>"
  let ?gs = "[?g ''a'' (8 / 10), ?g ''b'' (15 / 100), ?g ''c'' (5 / 100)]"
  have "sum_list (map weight (waterFill ?gs (1 / 2) 3)) \<le> 1"
    using waterFill_caps [of ?gs "1 / 2" 3] by (simp add: Let_def)
  moreover have "map weight (waterFill ?gs (1 / 2) 3) = [1 / 2, 3 / 8, 1 / 8]"
    by (simp add: waterFill_def Let_def over_cap_def limit_def fill_eps_def)
  ultimately show ?thesis by (simp add: Let_def)
qed

text \<open>C15. When the cap applies, and to whom. It declines exactly when it is disabled or when the candidates
  that take part (kept, with positive weight) belong to fewer than two operators, so it never turns a pool into
  no endpoint; otherwise it returns an operator and one of that operator's own endpoints among those candidates.\<close>

theorem cappedPickWeighted_spec:
  assumes "0 \<le> final" and "final < 1"
  shows "let T = {cands ! i | i. i < length cands \<and> keep i \<and> 0 < wt i} in
    case cappedPickWeighted psl cfg cands keep wt rnd final of
      None \<Rightarrow> MaxShare cfg < 0 \<or> card (operator_of psl ` T) < 2
    | Some (op, ep) \<Rightarrow> 0 \<le> MaxShare cfg \<and> 2 \<le> card (operator_of psl ` T) \<and> operator_of psl ep = op \<and> ep \<in> T"
  using capped_cases [OF assms, where psl = psl and cfg = cfg and cands = cands and keep = keep and wt = wt and rnd = rnd]
  unfolding taking_0 Let_def .

theorem cappedPickWeighted_spec_witness:
  "let cfg = \<lparr>MaxShare = 0, TwoOperatorMaxShare = 0, DisplacementCeiling = 0\<rparr>;
       out = cappedPickWeighted (\<lambda>h. None) cfg [''s1-https://a.io'', ''s2-https://b.io'']
         (\<lambda>i. True) (\<lambda>i. 1) (\<lambda>i. 0) (3 / 4) in
   out = Some (''b.io'', ''s2-https://b.io'') \<and>
   operator_of (\<lambda>h. None) ''s2-https://b.io'' = ''b.io''"
proof -
  let ?cfg = "\<lparr>MaxShare = 0, TwoOperatorMaxShare = 0, DisplacementCeiling = 0\<rparr>"
  let ?out = "cappedPickWeighted (\<lambda>h. None) ?cfg [''s1-https://a.io'', ''s2-https://b.io'']
         (\<lambda>i. True) (\<lambda>i. 1) (\<lambda>i. 0) (3 / 4)"
  have out: "?out = Some (''b.io'', ''s2-https://b.io'')" by code_simp
  have "operator_of (\<lambda>h. None) ''s2-https://b.io'' = ''b.io''"
    using cappedPickWeighted_spec [of "3 / 4" "[''s1-https://a.io'', ''s2-https://b.io'']" "\<lambda>i. True" "\<lambda>i. 1"
      ?cfg "\<lambda>h. None" "\<lambda>i. 0"] out by (simp add: Let_def)
  then show ?thesis using out by (simp add: Let_def)
qed

end
