(* ===== verification/Selector.thy ===== *)
theory Selector
  imports Concentration Interfaces
begin

text \<open>
  Tiered selection (\<^verbatim>\<open>reputation/selector.go\<close>): scores put endpoints into tiers, one
  endpoint is drawn from the best tier that has any, and a small share of requests tries a
  probation or tier-2 endpoint first.

  Draws are inputs (\<open>draws\<close>): \<open>intN i n\<close> is what \<^verbatim>\<open>rand.IntN(n)\<close> returned while
  endpoint \<open>i\<close> was looked at. The configuration is loaded anew for every endpoint and once more
  at the end, so it is a sequence: \<open>cfgs i\<close> is what load \<open>i\<close> returned.
\<close>

section \<open>Model\<close>

record SelectorConfig =
  Tier1Threshold :: real
  Tier2Threshold :: real
  MinThreshold :: real
  ProbationThreshold :: real
  ProbationPct :: int
  Tier2Pct :: int

definition DefaultSelectorConfig :: SelectorConfig where
  "DefaultSelectorConfig = \<lparr>Tier1Threshold = 80, Tier2Threshold = 50, MinThreshold = 10,
     ProbationThreshold = 30, ProbationPct = 10, Tier2Pct = 5\<rparr>"

datatype tier = Tier1 | Tier2 | Tier3 | Probation

type_synonym score_fn = "service_id \<Rightarrow> endpoint_addr \<Rightarrow> rpc_type \<Rightarrow> real \<times> bool"

record TieredSelector =
  sel_cfg :: SelectorConfig
  scores :: score_fn
  latency :: "score_fn option"
  latencyGate :: "(service_id \<Rightarrow> bool) option"
  operatorCap :: OperatorCapConfig
  capGate :: "(service_id \<Rightarrow> bool) option"

definition NewTieredSelector :: "SelectorConfig \<Rightarrow> score_fn \<Rightarrow> TieredSelector" where
  "NewTieredSelector c f = \<lparr>sel_cfg = c, scores = f, latency = None, latencyGate = None,
     operatorCap = \<lparr>MaxShare = 0, TwoOperatorMaxShare = 0, DisplacementCeiling = 0\<rparr>, capGate = None\<rparr>"

definition SetConfig :: "TieredSelector \<Rightarrow> SelectorConfig \<Rightarrow> OperatorCapConfig \<Rightarrow> TieredSelector" where
  "SetConfig s c cap = s\<lparr>sel_cfg := c, operatorCap := cap\<rparr>"

definition SetOperatorCap :: "TieredSelector \<Rightarrow> OperatorCapConfig \<Rightarrow> (service_id \<Rightarrow> bool) option \<Rightarrow> TieredSelector" where
  "SetOperatorCap s cap gate = s\<lparr>operatorCap := cap, capGate := gate\<rparr>"

definition SetLatencyTieBreak :: "TieredSelector \<Rightarrow> score_fn option \<Rightarrow> (service_id \<Rightarrow> bool) option \<Rightarrow> TieredSelector" where
  "SetLatencyTieBreak s f gate = s\<lparr>latency := f, latencyGate := gate\<rparr>"

definition latencyFloorMS :: real where "latencyFloorMS = 20"

definition gate_open :: "(service_id \<Rightarrow> bool) option \<Rightarrow> service_id \<Rightarrow> bool" where
  "gate_open g sid = (case g of None \<Rightarrow> False | Some f \<Rightarrow> f sid)"

definition tieBreakActive :: "TieredSelector \<Rightarrow> service_id \<Rightarrow> bool" where
  "tieBreakActive s sid \<longleftrightarrow> latency s \<noteq> None \<and> gate_open (latencyGate s) sid"

definition capActive :: "TieredSelector \<Rightarrow> service_id \<Rightarrow> bool" where
  "capActive s sid \<longleftrightarrow> gate_open (capGate s) sid"

definition classify :: "SelectorConfig \<Rightarrow> real \<times> bool \<Rightarrow> tier option \<times> real" where
  "classify c sc =
     (case sc of (score, ok) \<Rightarrow>
       if \<not> ok then (Some Tier3, score)
       else if score < MinThreshold c then (None, score)
       else if score < ProbationThreshold c then (Some Probation, score)
       else if score \<ge> Tier1Threshold c then (Some Tier1, score)
       else if score \<ge> Tier2Threshold c then (Some Tier2, score)
       else (Some Tier3, score))"

text \<open>One pass over the endpoints: a reservoir of size one per tier, and the least-bad rejected endpoint.\<close>

record scan =
  pick :: "tier \<Rightarrow> endpoint_addr"
  count :: "tier \<Rightarrow> nat"
  fallback :: endpoint_addr
  fallbackScore :: real
  fallbackTies :: nat

definition scan0 :: scan where
  "scan0 = \<lparr>pick = (\<lambda>t. []), count = (\<lambda>t. 0), fallback = [], fallbackScore = 0, fallbackTies = 0\<rparr>"

definition scan_step ::
  "(nat \<Rightarrow> endpoint_addr \<Rightarrow> tier option \<times> real) \<Rightarrow> (nat \<Rightarrow> nat \<Rightarrow> nat) \<Rightarrow> nat \<times> endpoint_addr \<Rightarrow> scan \<Rightarrow> scan" where
  "scan_step cls intN ie st =
     (case ie of (i, ep) \<Rightarrow>
       case cls i ep of
         (None, score) \<Rightarrow>
           if fallback st = [] \<or> score > fallbackScore st
           then st\<lparr>fallback := ep, fallbackScore := score, fallbackTies := 1\<rparr>
           else if score = fallbackScore st
           then let n = fallbackTies st + 1 in
             st\<lparr>fallbackTies := n, fallback := (if intN i n = 0 then ep else fallback st)\<rparr>
           else st
       | (Some t, score) \<Rightarrow>
           let n = count st t + 1 in
             st\<lparr>count := (count st)(t := n),
                pick := (if intN i n = 0 then (pick st)(t := ep) else pick st)\<rparr>)"

definition scan_all ::
  "(nat \<Rightarrow> endpoint_addr \<Rightarrow> tier option \<times> real) \<Rightarrow> (nat \<Rightarrow> nat \<Rightarrow> nat) \<Rightarrow> endpoint_addr list \<Rightarrow> scan" where
  "scan_all cls intN eps = fold (scan_step cls intN) (enumerate 0 eps) scan0"

definition raw_latency :: "(endpoint_addr \<Rightarrow> real \<times> bool) \<Rightarrow> (nat \<Rightarrow> tier option) \<Rightarrow> nat \<times> endpoint_addr \<Rightarrow> real" where
  "raw_latency lat tiers ie =
     (if tiers (fst ie) \<noteq> Some Tier1 then 0
      else case lat (snd ie) of (ms, ok) \<Rightarrow> if ok \<and> ms > 0 then ms else -1)"

definition tier1Weights :: "(endpoint_addr \<Rightarrow> real \<times> bool) \<Rightarrow> endpoint_addr list \<Rightarrow> (nat \<Rightarrow> tier option) \<Rightarrow> real list option" where
  "tier1Weights lat endpoints tiers =
     (let weights = map (raw_latency lat tiers) (enumerate 0 endpoints);
          candidates = length (filter (\<lambda>w. w \<noteq> 0) weights);
          known = length (filter (\<lambda>w. w > 0) weights);
          sum = sum_list (filter (\<lambda>w. w > 0) weights)
      in if candidates < 2 \<or> known = 0 then None
         else let mean = sum / real known in
           Some (map (\<lambda>w. if w = 0 then 0
                          else 1 / max latencyFloorMS (if w < 0 then 2 * mean else w)) weights))"

record draws =
  intN :: "nat \<Rightarrow> nat \<Rightarrow> nat"
  memberRnd :: "nat \<Rightarrow> real"
  operatorRnd :: real
  weightRnd :: real
  probationDraw :: int
  tier2Draw :: int

definition cascade :: "scan \<Rightarrow> tier option" where
  "cascade st =
     (if count st Tier1 > 0 then Some Tier1
      else if count st Tier2 > 0 then Some Tier2
      else if count st Tier3 > 0 then Some Tier3 else None)"

definition repick :: "psl \<Rightarrow> TieredSelector \<Rightarrow> service_id \<Rightarrow> rpc_type \<Rightarrow> endpoint_addr list \<Rightarrow>
    (nat \<Rightarrow> tier option) \<Rightarrow> scan \<Rightarrow> tier \<Rightarrow> draws \<Rightarrow> endpoint_addr" where
  "repick psl s sid rpc endpoints tiers st best d =
     (let selected = pick st best;
          weights = (if tieBreakActive s sid \<and> best = Tier1 \<and> count st Tier1 > 1
                     then tier1Weights (\<lambda>ep. the (latency s) sid ep rpc) endpoints tiers else None);
          capped = (if capActive s sid \<and> count st best > 1
                    then cappedPickWeighted psl (operatorCap s) endpoints (\<lambda>i. tiers i = Some best)
                           (case weights of None \<Rightarrow> (\<lambda>i. 1) | Some w \<Rightarrow> (\<lambda>i. w ! i)) (memberRnd d) (operatorRnd d)
                    else None)
      in case capped of
           Some (_, ep) \<Rightarrow> ep
         | None \<Rightarrow> (case weights of
                     None \<Rightarrow> selected
                   | Some w \<Rightarrow> (case pickIndex w (weightRnd d) of None \<Rightarrow> selected | Some i \<Rightarrow> endpoints ! i)))"

text \<open>The result carries what the collapse hook is told, if it is called.\<close>

definition Select :: "psl \<Rightarrow> TieredSelector \<Rightarrow> (nat \<Rightarrow> SelectorConfig) \<Rightarrow> service_id \<Rightarrow> endpoint_addr list \<Rightarrow> rpc_type \<Rightarrow>
    draws \<Rightarrow> endpoint_addr list \<times> endpoint_addr list option" where
  "Select psl s cfgs sid endpoints rpc d =
     (if endpoints = [] then ([], None)
      else
        let cls = (\<lambda>i ep. classify (cfgs i) (scores s sid ep rpc));
            tiers = (\<lambda>i. fst (cls i (endpoints ! i)));
            st = scan_all cls (intN d) endpoints
        in case cascade st of
             None \<Rightarrow> if count st Probation > 0 then ([pick st Probation], None)
                     else if fallback st \<noteq> [] then ([fallback st], Some [fallback st])
                     else ([], None)
           | Some best \<Rightarrow>
               let selected = repick psl s sid rpc endpoints tiers st best d;
                   c = cfgs (length endpoints)
               in if count st Probation > 0 \<and> ProbationPct c > 0 \<and> probationDraw d < ProbationPct c
                  then ([pick st Probation, selected], None)
                  else if best = Tier1 \<and> count st Tier2 > 0 \<and> Tier2Pct c > 0 \<and> tier2Draw d < Tier2Pct c
                  then ([pick st Tier2, selected], None)
                  else ([selected], None))"

section \<open>Model: the whole of the best tier\<close>

fun tier_index :: "tier \<Rightarrow> nat" where
  "tier_index Tier1 = 0"
| "tier_index Tier2 = 1"
| "tier_index Tier3 = 2"
| "tier_index Probation = 3"

definition best_step :: "(endpoint_addr \<Rightarrow> tier option \<times> real) \<Rightarrow> endpoint_addr \<Rightarrow>
    tier option \<times> real option \<Rightarrow> tier option \<times> real option" where
  "best_step cls ep acc =
     (case (acc, cls ep) of
        ((best, rej), (None, score)) \<Rightarrow>
          (best, (case rej of None \<Rightarrow> Some score | Some r \<Rightarrow> if score > r then Some score else Some r))
      | ((best, rej), (Some t, score)) \<Rightarrow>
          ((case best of None \<Rightarrow> Some t | Some b \<Rightarrow> if tier_index t < tier_index b then Some t else Some b), rej))"

definition TopTierCandidates :: "TieredSelector \<Rightarrow> service_id \<Rightarrow> rpc_type \<Rightarrow> endpoint_addr list \<Rightarrow>
    endpoint_addr list \<times> endpoint_addr list option" where
  "TopTierCandidates s sid rpc endpoints =
     (let cls = (\<lambda>ep. classify (sel_cfg s) (scores s sid ep rpc)) in
      case fold (best_step cls) endpoints (None, None) of
        (None, None) \<Rightarrow> ([], None)
      | (None, Some r) \<Rightarrow>
          let out = filter (\<lambda>ep. snd (cls ep) = r) endpoints in (out, Some out)
      | (Some best, _) \<Rightarrow> (filter (\<lambda>ep. fst (cls ep) = Some best) endpoints, None))"

section \<open>Lemmas: the scan\<close>

definition entries :: "(nat \<Rightarrow> endpoint_addr \<Rightarrow> tier option \<times> real) \<Rightarrow> (nat \<times> endpoint_addr) list \<Rightarrow> tier \<Rightarrow> (nat \<times> endpoint_addr) list" where
  "entries cls xs t = filter (\<lambda>(i, ep). fst (cls i ep) = Some t) xs"

definition rejected :: "(nat \<Rightarrow> endpoint_addr \<Rightarrow> tier option \<times> real) \<Rightarrow> (nat \<times> endpoint_addr) list \<Rightarrow> (nat \<times> endpoint_addr) list" where
  "rejected cls xs = filter (\<lambda>(i, ep). fst (cls i ep) = None) xs"

definition draws_ok :: "(nat \<Rightarrow> nat \<Rightarrow> nat) \<Rightarrow> bool" where
  "draws_ok r \<longleftrightarrow> (\<forall>i n. 0 < n \<longrightarrow> r i n < n)"

definition scan_tiers :: "(nat \<Rightarrow> endpoint_addr \<Rightarrow> tier option \<times> real) \<Rightarrow> (nat \<times> endpoint_addr) list \<Rightarrow> scan \<Rightarrow> bool" where
  "scan_tiers cls xs st \<longleftrightarrow> (\<forall>t. count st t = length (entries cls xs t) \<and>
     (entries cls xs t \<noteq> [] \<longrightarrow> pick st t \<in> snd ` set (entries cls xs t)))"

definition scan_fallback :: "(nat \<Rightarrow> endpoint_addr \<Rightarrow> tier option \<times> real) \<Rightarrow> (nat \<times> endpoint_addr) list \<Rightarrow> scan \<Rightarrow> bool" where
  "scan_fallback cls xs st \<longleftrightarrow>
     (if rejected cls xs = [] then fallback st = []
      else (\<exists>i. (i, fallback st) \<in> set (rejected cls xs) \<and> snd (cls i (fallback st)) = fallbackScore st) \<and>
        (\<forall>(i, ep) \<in> set (rejected cls xs). snd (cls i ep) \<le> fallbackScore st))"

lemma entries_append [simp]: "entries cls (xs @ ys) t = entries cls xs t @ entries cls ys t"
  by (simp add: entries_def)

lemma rejected_append [simp]: "rejected cls (xs @ ys) = rejected cls xs @ rejected cls ys"
  by (simp add: rejected_def)

lemma entries_single [simp]: "entries cls [(i, ep)] t = (if fst (cls i ep) = Some t then [(i, ep)] else [])"
  by (simp add: entries_def)

lemma rejected_single [simp]: "rejected cls [(i, ep)] = (if fst (cls i ep) = None then [(i, ep)] else [])"
  by (simp add: rejected_def)

lemma draws_ok_1: "draws_ok r \<Longrightarrow> r i (Suc 0) = 0"
  unfolding draws_ok_def by (metis less_Suc0 zero_less_Suc)

lemma scan_tiers_step:
  assumes "scan_tiers cls xs st" and "draws_ok r"
  shows "scan_tiers cls (xs @ [(i, ep)]) (scan_step cls r (i, ep) st)"
proof (cases "cls i ep")
  case (Pair to score)
  show ?thesis
  proof (cases to)
    case None
    then show ?thesis using assms(1) Pair
      by (auto simp: scan_tiers_def scan_step_def Let_def)
  next
    case (Some t)
    have "r i (count st t + 1) = 0 \<or> entries cls xs t \<noteq> []"
      using draws_ok_1 [OF assms(2), of i] assms(1) by (cases "entries cls xs t") (auto simp: scan_tiers_def)
    then show ?thesis
      using assms(1) Pair Some by (auto simp: scan_tiers_def scan_step_def Let_def)
  qed
qed

lemma scan_fallback_step:
  assumes "scan_fallback cls xs st" and "\<forall>(i, ep) \<in> set xs. ep \<noteq> []"
  shows "scan_fallback cls (xs @ [(i, ep)]) (scan_step cls r (i, ep) st)"
proof (cases "cls i ep")
  case (Pair to score)
  show ?thesis
  proof (cases to)
    case (Some t)
    then show ?thesis using assms(1) Pair
      by (simp add: scan_fallback_def scan_step_def Let_def)
  next
    case None
    have new: "rejected cls (xs @ [(i, ep)]) = rejected cls xs @ [(i, ep)]"
      using Pair None by (simp add: rejected_def)
    show ?thesis
    proof (cases "rejected cls xs = []")
      case True
      then have "fallback st = []" using assms(1) by (simp add: scan_fallback_def)
      then show ?thesis using True Pair None unfolding scan_fallback_def new
        by (simp add: scan_step_def)
    next
      case False
      then obtain j where j: "(j, fallback st) \<in> set (rejected cls xs)" "snd (cls j (fallback st)) = fallbackScore st"
        and le: "\<forall>(i, ep) \<in> set (rejected cls xs). snd (cls i ep) \<le> fallbackScore st"
        using assms(1) by (auto simp: scan_fallback_def)
      have "fallback st \<noteq> []" using j(1) assms(2) by (auto simp: rejected_def)
      then show ?thesis using j le Pair None unfolding scan_fallback_def new
        by (auto simp: scan_step_def Let_def)
    qed
  qed
qed

lemma scan_fallbackD:
  assumes "scan_fallback cls xs st" and "rejected cls xs \<noteq> []"
  shows "\<exists>i. (i, fallback st) \<in> set (rejected cls xs) \<and> snd (cls i (fallback st)) = fallbackScore st"
    "\<forall>(i, ep) \<in> set (rejected cls xs). snd (cls i ep) \<le> fallbackScore st"
  using assms unfolding scan_fallback_def by simp_all

lemma scan_fold_tiers: "draws_ok r \<Longrightarrow> scan_tiers cls xs (fold (scan_step cls r) xs scan0)"
proof (induction xs rule: rev_induct)
  case Nil
  then show ?case by (simp add: scan_tiers_def entries_def scan0_def)
next
  case (snoc x xs)
  then show ?case by (cases x) (simp add: scan_tiers_step)
qed

lemma scan_fold_fallback:
  "\<forall>(i, ep) \<in> set xs. ep \<noteq> [] \<Longrightarrow> scan_fallback cls xs (fold (scan_step cls r) xs scan0)"
proof (induction xs rule: rev_induct)
  case Nil
  then show ?case by (simp add: scan_fallback_def rejected_def scan0_def)
next
  case (snoc x xs)
  then show ?case by (cases x) (simp add: scan_fallback_step)
qed

text \<open>The same, by position in the endpoint list.\<close>

definition in_tier :: "(nat \<Rightarrow> endpoint_addr \<Rightarrow> tier option \<times> real) \<Rightarrow> endpoint_addr list \<Rightarrow> tier option \<Rightarrow> endpoint_addr set" where
  "in_tier cls eps t = {eps ! i | i. i < length eps \<and> fst (cls i (eps ! i)) = t}"

lemma entries_enumerate: "snd ` set (entries cls (enumerate 0 eps) t) = in_tier cls eps (Some t)"
  by (force simp: entries_def in_tier_def in_set_enumerate_eq image_iff)

lemma in_tier_empty: "in_tier cls eps (Some t) = {} \<longleftrightarrow> entries cls (enumerate 0 eps) t = []"
  using entries_enumerate [of cls eps t] by (metis image_is_empty set_empty)

lemma in_tier_subset: "in_tier cls eps t \<subseteq> set eps"
  by (auto simp: in_tier_def)

lemma scan_count_pos:
  "draws_ok r \<Longrightarrow> 0 < count (scan_all cls r eps) t \<longleftrightarrow> in_tier cls eps (Some t) \<noteq> {}"
  using scan_fold_tiers [of r cls "enumerate 0 eps"] by (simp add: scan_all_def scan_tiers_def in_tier_empty)

lemma scan_pick:
  "draws_ok r \<Longrightarrow> in_tier cls eps (Some t) \<noteq> {} \<Longrightarrow> pick (scan_all cls r eps) t \<in> in_tier cls eps (Some t)"
  using scan_fold_tiers [of r cls "enumerate 0 eps"]
  by (simp add: scan_all_def scan_tiers_def in_tier_empty entries_enumerate)

definition least_bad :: "(nat \<Rightarrow> endpoint_addr \<Rightarrow> tier option \<times> real) \<Rightarrow> endpoint_addr list \<Rightarrow> endpoint_addr set" where
  "least_bad cls eps = {eps ! i | i. i < length eps \<and> fst (cls i (eps ! i)) = None \<and>
     (\<forall>j < length eps. fst (cls j (eps ! j)) = None \<longrightarrow> snd (cls j (eps ! j)) \<le> snd (cls i (eps ! i)))}"

lemma in_rejected_enumerate:
  "(i, ep) \<in> set (rejected cls (enumerate 0 eps)) \<longleftrightarrow> i < length eps \<and> eps ! i = ep \<and> fst (cls i ep) = None"
  by (auto simp: rejected_def in_set_enumerate_eq)

lemma scan_least_bad:
  assumes "[] \<notin> set eps" and "in_tier cls eps None \<noteq> {}"
  shows "fallback (scan_all cls r eps) \<in> least_bad cls eps" "fallback (scan_all cls r eps) \<noteq> []"
proof -
  let ?st = "scan_all cls r eps" and ?R = "rejected cls (enumerate 0 eps)"
  have "\<forall>(i, ep) \<in> set (enumerate 0 eps). ep \<noteq> []"
  proof (clarify)
    fix i assume "(i, []) \<in> set (enumerate 0 eps)"
    then have "[] \<in> snd ` set (enumerate 0 eps)" by force
    then show False using assms(1) by (metis list.set_map map_snd_enumerate)
  qed
  from scan_fold_fallback [OF this, of cls r] have fb: "scan_fallback cls (enumerate 0 eps) ?st"
    by (simp add: scan_all_def)
  obtain k where "k < length eps" "fst (cls k (eps ! k)) = None" using assms(2) by (auto simp: in_tier_def)
  then have "(k, eps ! k) \<in> set ?R" by (simp add: in_rejected_enumerate)
  then have "?R \<noteq> []" by auto
  note max = scan_fallbackD [OF fb this]
  from max(1) obtain i where i: "(i, fallback ?st) \<in> set ?R" "snd (cls i (fallback ?st)) = fallbackScore ?st"
    by blast
  from i(1) have pos: "i < length eps" "eps ! i = fallback ?st" "fst (cls i (fallback ?st)) = None"
    by (auto simp: in_rejected_enumerate)
  have "snd (cls j (eps ! j)) \<le> snd (cls i (eps ! i))" if "j < length eps" "fst (cls j (eps ! j)) = None" for j
  proof -
    have "(j, eps ! j) \<in> set ?R" using that by (simp add: in_rejected_enumerate)
    then have "snd (cls j (eps ! j)) \<le> fallbackScore ?st" using max(2) by blast
    then show ?thesis using i(2) pos(2) by simp
  qed
  then show "fallback ?st \<in> least_bad cls eps" using pos unfolding least_bad_def by (intro CollectI exI [of _ i]) simp
  have "fallback ?st \<in> set eps" using nth_mem [OF pos(1)] pos(2) by simp
  then show "fallback ?st \<noteq> []" using assms(1) by metis
qed

section \<open>Lemmas: the pick within the winning tier\<close>

definition good_draws :: "draws \<Rightarrow> bool" where
  "good_draws d \<longleftrightarrow> draws_ok (intN d) \<and> 0 \<le> operatorRnd d \<and> operatorRnd d < 1 \<and> 0 \<le> weightRnd d \<and> weightRnd d < 1"

lemma raw_latency_zero: "raw_latency lat tiers (i, ep) = 0 \<longleftrightarrow> tiers i \<noteq> Some Tier1"
  by (auto simp: raw_latency_def split: prod.splits)

lemma tier1Weights_pos:
  assumes "tier1Weights lat eps tiers = Some w"
  shows "length w = length eps" "i < length eps \<Longrightarrow> 0 < w ! i \<Longrightarrow> tiers i = Some Tier1"
    "i < length eps \<Longrightarrow> tiers i = Some Tier1 \<Longrightarrow> 0 < w ! i \<and> w ! i \<le> 1 / latencyFloorMS"
proof -
  let ?ws = "map (raw_latency lat tiers) (enumerate 0 eps)"
  obtain mean where w: "w = map (\<lambda>w. if w = 0 then 0 else 1 / max latencyFloorMS (if w < 0 then 2 * mean else w)) ?ws"
    using assms by (auto simp: tier1Weights_def Let_def split: if_splits)
  then show "length w = length eps" by simp
  have at_i: "w ! i = (if tiers i \<noteq> Some Tier1 then 0 else
      1 / max latencyFloorMS (if raw_latency lat tiers (i, eps ! i) < 0 then 2 * mean else raw_latency lat tiers (i, eps ! i)))"
    if "i < length eps" for i
    using that by (simp add: w nth_enumerate_eq raw_latency_zero)
  then show "i < length eps \<Longrightarrow> 0 < w ! i \<Longrightarrow> tiers i = Some Tier1" by (auto split: if_splits)
  have "0 < 1 / max latencyFloorMS x \<and> 1 / max latencyFloorMS x \<le> 1 / latencyFloorMS" for x
  proof -
    have "0 < latencyFloorMS" by (simp add: latencyFloorMS_def)
    then show ?thesis by (intro conjI divide_pos_pos divide_left_mono mult_pos_pos) auto
  qed
  then show "i < length eps \<Longrightarrow> tiers i = Some Tier1 \<Longrightarrow> 0 < w ! i \<and> w ! i \<le> 1 / latencyFloorMS"
    using at_i by presburger
qed

lemma repick_in_tier:
  assumes "good_draws d" and tiers: "tiers = (\<lambda>i. fst (cls i (eps ! i)))" and "pick st best \<in> in_tier cls eps (Some best)"
  shows "repick psl s sid rpc eps tiers st best d \<in> in_tier cls eps (Some best)"
proof -
  define weights where "weights = (if tieBreakActive s sid \<and> best = Tier1 \<and> count st Tier1 > 1
    then tier1Weights (\<lambda>ep. the (latency s) sid ep rpc) eps tiers else None)"
  define wt where "wt = (case weights of None \<Rightarrow> (\<lambda>i. 1) | Some w \<Rightarrow> (\<lambda>i. w ! i))"
  define capped where "capped = (if capActive s sid \<and> count st best > 1
    then cappedPickWeighted psl (operatorCap s) eps (\<lambda>i. tiers i = Some best) wt (memberRnd d) (operatorRnd d) else None)"
  have eq: "repick psl s sid rpc eps tiers st best d = (case capped of
      Some (_, ep) \<Rightarrow> ep
    | None \<Rightarrow> (case weights of None \<Rightarrow> pick st best
      | Some w \<Rightarrow> (case pickIndex w (weightRnd d) of None \<Rightarrow> pick st best | Some i \<Rightarrow> eps ! i)))"
    unfolding repick_def Let_def capped_def wt_def weights_def by (rule refl)
  have rnd: "0 \<le> operatorRnd d" "operatorRnd d < 1" "0 \<le> weightRnd d" "weightRnd d < 1"
    using assms(1) by (auto simp: good_draws_def)
  show ?thesis
  proof (cases capped)
    case (Some p)
    obtain op ep where p: "p = (op, ep)" by (cases p)
    have "ep \<in> taking 0 eps (\<lambda>i. tiers i = Some best) wt"
      using capped_cases [OF rnd(1,2), where psl = psl and cfg = "operatorCap s" and cands = eps
          and keep = "\<lambda>i. tiers i = Some best" and wt = wt and rnd = "memberRnd d"] Some
      by (simp add: p capped_def split: if_splits)
    then show ?thesis unfolding eq Some p by (auto simp: taking_0 in_tier_def tiers)
  next
    case None
    show ?thesis
    proof (cases "\<exists>w i. weights = Some w \<and> pickIndex w (weightRnd d) = Some i")
      case True
      then obtain w i where w: "weights = Some w" "pickIndex w (weightRnd d) = Some i" by blast
      then have best: "best = Tier1" and tw: "tier1Weights (\<lambda>ep. the (latency s) sid ep rpc) eps tiers = Some w"
        by (auto simp: weights_def split: if_splits)
      have "i < length eps" "0 < w ! i"
        using pickIndex_SomeD [OF w(2) rnd(3,4)] tier1Weights_pos(1) [OF tw] by auto
      then have "tiers i = Some Tier1" using tier1Weights_pos(2) [OF tw] by blast
      moreover have "repick psl s sid rpc eps tiers st best d = eps ! i" unfolding eq None w(1) by (simp add: w(2))
      ultimately show ?thesis using \<open>i < length eps\<close> best unfolding in_tier_def tiers by auto
    next
      case False
      then show ?thesis using assms(3) unfolding eq None by (auto split: option.splits)
    qed
  qed
qed

section \<open>Lemmas: selection\<close>

definition Select_cls :: "TieredSelector \<Rightarrow> (nat \<Rightarrow> SelectorConfig) \<Rightarrow> service_id \<Rightarrow> rpc_type \<Rightarrow> nat \<Rightarrow> endpoint_addr \<Rightarrow> tier option \<times> real" where
  "Select_cls s cfgs sid rpc i ep = classify (cfgs i) (scores s sid ep rpc)"

text \<open>The class the answer comes from: the best tier with a member, else probation, else the least bad.\<close>

definition winners :: "(nat \<Rightarrow> endpoint_addr \<Rightarrow> tier option \<times> real) \<Rightarrow> endpoint_addr list \<Rightarrow> endpoint_addr set" where
  "winners cls eps =
     (if in_tier cls eps (Some Tier1) \<noteq> {} then in_tier cls eps (Some Tier1)
      else if in_tier cls eps (Some Tier2) \<noteq> {} then in_tier cls eps (Some Tier2)
      else if in_tier cls eps (Some Tier3) \<noteq> {} then in_tier cls eps (Some Tier3)
      else if in_tier cls eps (Some Probation) \<noteq> {} then in_tier cls eps (Some Probation)
      else least_bad cls eps)"

lemma in_tier_total:
  assumes "eps \<noteq> []" and "\<forall>t. in_tier cls eps (Some t) = {}"
  shows "in_tier cls eps None \<noteq> {}"
proof -
  have "eps ! 0 \<in> in_tier cls eps (fst (cls 0 (eps ! 0)))" using assms(1) by (auto simp: in_tier_def)
  then show ?thesis using assms(2) by (cases "fst (cls 0 (eps ! 0))") auto
qed

lemma least_bad_subset: "least_bad cls eps \<subseteq> set eps"
  by (auto simp: least_bad_def)

lemma winners_subset: "winners cls eps \<subseteq> set eps"
  using in_tier_subset least_bad_subset unfolding winners_def by (simp split: if_splits)

lemma cascade_spec:
  assumes "draws_ok r"
  shows "cascade (scan_all cls r eps) =
    (if in_tier cls eps (Some Tier1) \<noteq> {} then Some Tier1
     else if in_tier cls eps (Some Tier2) \<noteq> {} then Some Tier2
     else if in_tier cls eps (Some Tier3) \<noteq> {} then Some Tier3 else None)"
  by (simp add: cascade_def scan_count_pos [OF assms])

lemma cascade_winners:
  assumes "draws_ok r" and "cascade (scan_all cls r eps) = Some best"
  shows "in_tier cls eps (Some best) \<noteq> {}" "winners cls eps = in_tier cls eps (Some best)"
    "best = Tier1 \<longleftrightarrow> in_tier cls eps (Some Tier1) \<noteq> {}" "\<exists>t. in_tier cls eps (Some t) \<noteq> {}"
  using assms(2) unfolding cascade_spec [OF assms(1)] winners_def by (auto split: if_splits)

lemma all_tiers: "(\<exists>t. P t) \<longleftrightarrow> P Tier1 \<or> P Tier2 \<or> P Tier3 \<or> P Probation"
  by (metis tier.exhaust)

text \<open>What \<open>Select\<close> returns, by the tiers that have members.\<close>

definition select_ok :: "(nat \<Rightarrow> endpoint_addr \<Rightarrow> tier option \<times> real) \<Rightarrow> endpoint_addr list \<Rightarrow>
    endpoint_addr list \<times> endpoint_addr list option \<Rightarrow> bool" where
  "select_ok cls eps r \<longleftrightarrow>
     (if \<exists>t. in_tier cls eps (Some t) \<noteq> {}
      then snd r = None \<and> (\<exists>w \<in> winners cls eps. fst r = [w] \<or>
        (\<exists>p. fst r = [p, w] \<and> (p \<in> in_tier cls eps (Some Probation) \<or>
           p \<in> in_tier cls eps (Some Tier2) \<and> in_tier cls eps (Some Tier1) \<noteq> {})))
      else (\<exists>w \<in> winners cls eps. r = ([w], Some [w])))"

lemma select_ok_last: "select_ok cls eps r \<Longrightarrow> fst r \<noteq> [] \<and> last (fst r) \<in> winners cls eps"
  by (auto simp: select_ok_def split: if_splits)

lemma Select_ok:
  assumes "good_draws d" and "[] \<notin> set eps" and "eps \<noteq> []"
  shows "select_ok (Select_cls s cfgs sid rpc) eps (Select psl s cfgs sid eps rpc d)"
proof -
  define cls where "cls = Select_cls s cfgs sid rpc"
  define st where "st = scan_all cls (intN d) eps"
  have r: "draws_ok (intN d)" using assms(1) by (simp add: good_draws_def)
  have picks: "in_tier cls eps (Some t) \<noteq> {} \<Longrightarrow> pick st t \<in> in_tier cls eps (Some t)" for t
    using scan_pick [OF r] unfolding st_def .
  have pos: "0 < count st t \<longleftrightarrow> in_tier cls eps (Some t) \<noteq> {}" for t
    using scan_count_pos [OF r] unfolding st_def .
  have unfold: "Select psl s cfgs sid eps rpc d = (case cascade st of
      None \<Rightarrow> if count st Probation > 0 then ([pick st Probation], None)
        else if fallback st \<noteq> [] then ([fallback st], Some [fallback st]) else ([], None)
    | Some best \<Rightarrow>
        let selected = repick psl s sid rpc eps (\<lambda>i. fst (cls i (eps ! i))) st best d; c = cfgs (length eps)
        in if count st Probation > 0 \<and> ProbationPct c > 0 \<and> probationDraw d < ProbationPct c
           then ([pick st Probation, selected], None)
           else if best = Tier1 \<and> count st Tier2 > 0 \<and> Tier2Pct c > 0 \<and> tier2Draw d < Tier2Pct c
           then ([pick st Tier2, selected], None) else ([selected], None))"
    using assms(3) unfolding Select_def st_def cls_def Select_cls_def [abs_def] Let_def by simp
  have "select_ok cls eps (Select psl s cfgs sid eps rpc d)"
  proof (cases "cascade st")
    case (Some best)
    note w = cascade_winners [OF r Some [unfolded st_def]]
    have sel: "repick psl s sid rpc eps (\<lambda>i. fst (cls i (eps ! i))) st best d \<in> winners cls eps"
      using repick_in_tier [OF assms(1) refl picks [OF w(1)]] w(2) by simp
    show ?thesis unfolding unfold Some select_ok_def
      using sel w(3,4) picks pos by (auto simp: Let_def)
  next
    case None
    then have none: "in_tier cls eps (Some Tier1) = {}" "in_tier cls eps (Some Tier2) = {}" "in_tier cls eps (Some Tier3) = {}"
      unfolding st_def cascade_spec [OF r] by (auto split: if_splits)
    show ?thesis
    proof (cases "in_tier cls eps (Some Probation) = {}")
      case False
      then show ?thesis unfolding unfold None select_ok_def all_tiers
        using picks [of Probation] pos [of Probation] none by (simp add: winners_def)
    next
      case True
      have "in_tier cls eps (Some t) = {}" for t using none True by (cases t) auto
      then have "in_tier cls eps None \<noteq> {}" using in_tier_total [OF assms(3)] by blast
      from scan_least_bad [OF assms(2) this, of "intN d"]
      have "fallback st \<in> least_bad cls eps" "fallback st \<noteq> []" by (simp_all add: st_def)
      then show ?thesis unfolding unfold None select_ok_def all_tiers
        using pos [of Probation] none True by (simp add: winners_def)
    qed
  qed
  then show ?thesis by (simp add: cls_def)
qed

section \<open>Lemmas: the whole of the best tier\<close>

definition best_of :: "(endpoint_addr \<Rightarrow> tier option \<times> real) \<Rightarrow> endpoint_addr set \<Rightarrow> tier option \<Rightarrow> bool" where
  "best_of cls E b \<longleftrightarrow> (case b of
      None \<Rightarrow> \<forall>ep \<in> E. fst (cls ep) = None
    | Some t \<Rightarrow> (\<exists>ep \<in> E. fst (cls ep) = Some t) \<and> (\<forall>ep \<in> E. \<forall>u. fst (cls ep) = Some u \<longrightarrow> tier_index t \<le> tier_index u))"

definition max_rejected :: "(endpoint_addr \<Rightarrow> tier option \<times> real) \<Rightarrow> endpoint_addr set \<Rightarrow> real option \<Rightarrow> bool" where
  "max_rejected cls E r \<longleftrightarrow> (case r of
      None \<Rightarrow> \<forall>ep \<in> E. fst (cls ep) \<noteq> None
    | Some x \<Rightarrow> (\<exists>ep \<in> E. fst (cls ep) = None \<and> snd (cls ep) = x) \<and> (\<forall>ep \<in> E. fst (cls ep) = None \<longrightarrow> snd (cls ep) \<le> x))"

lemma best_step_ok:
  assumes "best_of cls E (fst acc)" and "max_rejected cls E (snd acc)"
  shows "best_of cls (insert ep E) (fst (best_step cls ep acc))" "max_rejected cls (insert ep E) (snd (best_step cls ep acc))"
proof -
  obtain b r where acc: "acc = (b, r)" by (cases acc)
  obtain t x where c: "cls ep = (t, x)" by (cases "cls ep")
  show "best_of cls (insert ep E) (fst (best_step cls ep acc))"
    using assms(1) c unfolding best_of_def best_step_def acc by (cases t; cases b) force+
  show "max_rejected cls (insert ep E) (snd (best_step cls ep acc))"
    using assms(2) c unfolding max_rejected_def best_step_def acc by (cases t; cases r) force+
qed

lemma best_fold:
  "best_of cls (set eps) (fst (fold (best_step cls) eps (None, None))) \<and>
   max_rejected cls (set eps) (snd (fold (best_step cls) eps (None, None)))"
proof (induction eps rule: rev_induct)
  case Nil
  then show ?case by (simp add: best_of_def max_rejected_def)
next
  case (snoc ep eps)
  then show ?case by (simp add: best_step_ok)
qed

lemma in_tier_const: "in_tier (\<lambda>i. cls) eps t = {ep \<in> set eps. fst (cls ep) = t}"
  by (auto simp: in_tier_def in_set_conv_nth)

lemma least_bad_const:
  "least_bad (\<lambda>i. cls) eps = {ep \<in> set eps. fst (cls ep) = None \<and>
     (\<forall>e \<in> set eps. fst (cls e) = None \<longrightarrow> snd (cls e) \<le> snd (cls ep))}"
  unfolding least_bad_def all_set_conv_all_nth by (auto simp: in_set_conv_nth)

definition cls_now :: "TieredSelector \<Rightarrow> service_id \<Rightarrow> rpc_type \<Rightarrow> endpoint_addr \<Rightarrow> tier option \<times> real" where
  "cls_now s sid rpc ep = classify (sel_cfg s) (scores s sid ep rpc)"

lemma Select_cls_const: "Select_cls s (\<lambda>i. sel_cfg s) sid rpc = (\<lambda>i. cls_now s sid rpc)"
  by (simp add: Select_cls_def cls_now_def fun_eq_iff)

lemma classify_rejects: "fst (classify c sc) = None \<longleftrightarrow> snd sc \<and> fst sc < MinThreshold c"
  by (simp add: classify_def split: prod.splits)

lemma winners_const:
  assumes "best_of cls (set eps) (Some b)"
  shows "winners (\<lambda>i. cls) eps = {ep \<in> set eps. fst (cls ep) = Some b}"
proof -
  have le: "tier_index b \<le> tier_index u" if "ep \<in> set eps" "fst (cls ep) = Some u" for ep u
    using assms that by (auto simp: best_of_def)
  have empty: "{ep \<in> set eps. fst (cls ep) = Some u} = {}" if "tier_index u < tier_index b" for u
    using le that by fastforce
  have ne: "{ep \<in> set eps. fst (cls ep) = Some b} \<noteq> {}" using assms by (auto simp: best_of_def)
  show ?thesis using ne empty [of Tier1] empty [of Tier2] empty [of Tier3]
    unfolding winners_def in_tier_const by (cases b) simp_all
qed

lemma winners_none:
  assumes "best_of cls (set eps) None" and "max_rejected cls (set eps) (Some r)"
  shows "winners (\<lambda>i. cls) eps = {ep \<in> set eps. snd (cls ep) = r}"
proof -
  have none: "fst (cls ep) = None" if "ep \<in> set eps" for ep using assms(1) that by (simp add: best_of_def)
  then have "winners (\<lambda>i. cls) eps = least_bad (\<lambda>i. cls) eps"
    unfolding winners_def in_tier_const by auto
  also have "\<dots> = {ep \<in> set eps. \<forall>e \<in> set eps. snd (cls e) \<le> snd (cls ep)}"
    using none by (auto simp: least_bad_const)
  also have "\<dots> = {ep \<in> set eps. snd (cls ep) = r}"
  proof (intro Collect_cong conj_cong refl)
    fix ep assume ep: "ep \<in> set eps"
    obtain e0 where e0: "e0 \<in> set eps" "snd (cls e0) = r" using assms(2) by (auto simp: max_rejected_def)
    have "snd (cls e) \<le> r" if "e \<in> set eps" for e using assms(2) none that by (simp add: max_rejected_def)
    then show "(\<forall>e \<in> set eps. snd (cls e) \<le> snd (cls ep)) \<longleftrightarrow> snd (cls ep) = r"
      using e0 ep by (metis order_antisym)
  qed
  finally show ?thesis .
qed

lemma TopTier_unfold:
  "TopTierCandidates s sid rpc eps =
     (case fold (best_step (cls_now s sid rpc)) eps (None, None) of
        (None, None) \<Rightarrow> ([], None)
      | (None, Some r) \<Rightarrow> (filter (\<lambda>ep. snd (cls_now s sid rpc ep) = r) eps, Some (filter (\<lambda>ep. snd (cls_now s sid rpc ep) = r) eps))
      | (Some best, _) \<Rightarrow> (filter (\<lambda>ep. fst (cls_now s sid rpc ep) = Some best) eps, None))"
  unfolding TopTierCandidates_def cls_now_def [abs_def] Let_def ..

lemma TopTier_winners:
  "set (fst (TopTierCandidates s sid rpc eps)) = (if eps = [] then {} else winners (\<lambda>i. cls_now s sid rpc) eps)"
proof -
  let ?cls = "cls_now s sid rpc"
  obtain b r where f: "fold (best_step ?cls) eps (None, None) = (b, r)" by fastforce
  have b: "best_of ?cls (set eps) b" and r: "max_rejected ?cls (set eps) r"
    using best_fold [of ?cls eps] by (simp_all add: f)
  show ?thesis
  proof (cases b)
    case (Some t)
    then have "eps \<noteq> []" using b by (auto simp: best_of_def)
    then show ?thesis using winners_const [OF b [unfolded Some]] by (simp add: TopTier_unfold f Some)
  next
    case None
    show ?thesis
    proof (cases r)
      case (Some x)
      then have "eps \<noteq> []" using r by (auto simp: max_rejected_def)
      then show ?thesis using winners_none [OF b [unfolded None] r [unfolded Some]] by (simp add: TopTier_unfold f None Some)
    next
      case rN: None
      have "eps = []" using b r unfolding None rN best_of_def max_rejected_def by (cases eps) simp_all
      then show ?thesis by (simp add: TopTier_unfold)
    qed
  qed
qed

lemma winners_nonempty: "eps \<noteq> [] \<Longrightarrow> winners (\<lambda>i. cls) eps \<noteq> {}"
proof -
  assume ne: "eps \<noteq> []"
  obtain b r where f: "fold (best_step cls) eps (None, None) = (b, r)" by fastforce
  have b: "best_of cls (set eps) b" and r: "max_rejected cls (set eps) r"
    using best_fold [of cls eps] by (simp_all add: f)
  show ?thesis
  proof (cases b)
    case (Some t)
    then show ?thesis using b winners_const [OF b [unfolded Some]] by (auto simp: best_of_def)
  next
    case None
    have "hd eps \<in> set eps" using ne by simp
    then have "r \<noteq> None" using b r None unfolding best_of_def max_rejected_def by (cases r) auto
    then obtain x where "r = Some x" by blast
    then show ?thesis using r winners_none [OF b [unfolded None]] by (auto simp: max_rejected_def)
  qed
qed

lemma TopTier_subset: "set (fst (TopTierCandidates s sid rpc eps)) \<subseteq> set eps"
  unfolding TopTier_winners using winners_subset by simp

lemma TopTier_nonempty: "eps \<noteq> [] \<Longrightarrow> fst (TopTierCandidates s sid rpc eps) \<noteq> []"
  using TopTier_winners [of s sid rpc eps] winners_nonempty [of eps "cls_now s sid rpc"] by (metis set_empty)

interpretation top_tier: soft_filter "\<lambda>eps. fst (TopTierCandidates s sid rpc eps)" for s sid rpc
  by unfold_locales (rule TopTier_subset, rule TopTier_nonempty)

text \<open>A reload while a selection runs: each endpoint is classified under the configuration loaded for it, so
  the answer can be one that neither configuration gives on its own. Here the first endpoint scores 60 and the
  second 90; the second is the better under both.\<close>

definition mix_scores :: score_fn where
  "mix_scores sid ep rpc = (if ep = ''b'' then (60, True) else (90, True))"

definition mix_cfgs :: "nat \<Rightarrow> SelectorConfig" where
  "mix_cfgs i = (if i = 0 then DefaultSelectorConfig else DefaultSelectorConfig\<lparr>Tier1Threshold := 95, Tier2Threshold := 85\<rparr>)"

definition mix_draws :: draws where
  "mix_draws = \<lparr>intN = (\<lambda>i n. n - 1), memberRnd = (\<lambda>i. 0), operatorRnd = 0, weightRnd = 0, probationDraw = 99, tier2Draw = 99\<rparr>"

lemma reload_mixes_thresholds:
  "fst (Select (\<lambda>h. None) (NewTieredSelector DefaultSelectorConfig mix_scores) mix_cfgs ''eth'' [''b'', ''a''] ''json_rpc'' mix_draws) = [''b'']"
  "fst (Select (\<lambda>h. None) (NewTieredSelector DefaultSelectorConfig mix_scores) (\<lambda>i. mix_cfgs 0) ''eth'' [''b'', ''a''] ''json_rpc'' mix_draws) = [''a'']"
  "fst (Select (\<lambda>h. None) (NewTieredSelector DefaultSelectorConfig mix_scores) (\<lambda>i. mix_cfgs 1) ''eth'' [''b'', ''a''] ''json_rpc'' mix_draws) = [''a'']"
  by code_simp+

section \<open>Properties\<close>

text \<open>C14. Selection never turns a pool into nothing, and says which class its answer comes from. For a
  non-empty list of endpoints, whatever the configurations loaded while it runs, whatever the draws, with the
  operator cap and the latency tie-break on or off: if some endpoint reaches a tier, the answer ends with a
  member of the best tier that has one (probation last), preceded by at most one endpoint, which is on probation,
  or in tier 2 while tier 1 won, and the collapse hook is silent; if every endpoint is below the minimum, the
  answer is one endpoint, of the highest score among them, and the hook is told exactly that answer.\<close>

theorem Select_spec:
  assumes "good_draws d" and "[] \<notin> set eps" and "eps \<noteq> []"
  shows "let cls = (\<lambda>i ep. classify (cfgs i) (scores s sid ep rpc));
      (out, hook) = Select psl s cfgs sid eps rpc d in
    if \<exists>t. in_tier cls eps (Some t) \<noteq> {}
    then hook = None \<and> (\<exists>w \<in> winners cls eps. out = [w] \<or>
      (\<exists>p. out = [p, w] \<and> (p \<in> in_tier cls eps (Some Probation) \<or>
         p \<in> in_tier cls eps (Some Tier2) \<and> in_tier cls eps (Some Tier1) \<noteq> {})))
    else (\<exists>w \<in> least_bad cls eps. out = [w] \<and> hook = Some [w])"
proof -
  let ?cls = "\<lambda>i ep. classify (cfgs i) (scores s sid ep rpc)"
  obtain out hook where r: "Select psl s cfgs sid eps rpc d = (out, hook)" by fastforce
  have cls: "Select_cls s cfgs sid rpc = ?cls" by (simp add: fun_eq_iff Select_cls_def)
  have ok: "select_ok ?cls eps (out, hook)" using Select_ok [OF assms, of s cfgs sid rpc psl] by (simp only: r cls)
  have "winners ?cls eps = least_bad ?cls eps" if "\<not> (\<exists>t. in_tier ?cls eps (Some t) \<noteq> {})"
    using that unfolding winners_def by auto
  then show ?thesis using ok unfolding select_ok_def r Let_def by (auto split: if_splits)
qed

theorem Select_spec_witness:
  "let s = NewTieredSelector DefaultSelectorConfig (\<lambda>sid ep rpc. (if ep = ''a'' then 5 else 7, True));
       r = Select (\<lambda>h. None) s (\<lambda>i. DefaultSelectorConfig) ''eth'' [''a'', ''b''] ''json_rpc'' mix_draws in
   r = ([''b''], Some [''b'']) \<and>
   ''b'' \<in> least_bad (\<lambda>i ep. classify DefaultSelectorConfig (if ep = ''a'' then 5 else 7, True)) [''a'', ''b'']"
proof -
  let ?s = "NewTieredSelector DefaultSelectorConfig (\<lambda>sid ep rpc. (if ep = ''a'' then 5 else 7, True))"
  let ?r = "Select (\<lambda>h. None) ?s (\<lambda>i. DefaultSelectorConfig) ''eth'' [''a'', ''b''] ''json_rpc'' mix_draws"
  let ?cls = "\<lambda>(i :: nat) ep. classify DefaultSelectorConfig (if ep = ''a'' then 5 else 7, True)"
  have g: "good_draws mix_draws" by (simp add: good_draws_def draws_ok_def mix_draws_def)
  have r: "?r = ([''b''], Some [''b''])" by code_simp
  have sc: "scores ?s sid ep rpc = (if ep = ''a'' then 5 else 7, True)" for sid ep rpc by (simp add: NewTieredSelector_def)
  have none: "in_tier ?cls [''a'', ''b''] (Some t) = {}" for t
    by (auto simp: in_tier_def classify_def DefaultSelectorConfig_def less_Suc_eq)
  have "''b'' \<in> least_bad ?cls [''a'', ''b'']"
    using Select_spec [OF g, of "[''a'', ''b'']" "\<lambda>i. DefaultSelectorConfig" ?s "''eth''" "''json_rpc''" "\<lambda>h. None"]
    unfolding r sc by (simp add: none Let_def)
  then show ?thesis using r by (simp add: Let_def)
qed

text \<open>The two selectors agree on the best tier. The list of candidates handed to callers that weigh
  within a tier themselves is a non-empty part of any non-empty pool, and the endpoint that \<open>Select\<close> settles on,
  under any draws, is one of them: the same tier, and the same endpoints when the pool has collapsed.\<close>

lemma Select_within_TopTier:
  assumes "good_draws d" and "[] \<notin> set eps" and "eps \<noteq> []"
  shows "let top = fst (TopTierCandidates s sid rpc eps); out = fst (Select psl s (\<lambda>i. sel_cfg s) sid eps rpc d) in
    set top \<subseteq> set eps \<and> out \<noteq> [] \<and> last out \<in> set top"
proof -
  have ok: "select_ok (\<lambda>i. cls_now s sid rpc) eps (Select psl s (\<lambda>i. sel_cfg s) sid eps rpc d)"
    using Select_ok [OF assms, of s "\<lambda>i. sel_cfg s" sid rpc psl] by (simp add: Select_cls_const)
  from select_ok_last [OF this] show ?thesis using TopTier_subset [of s sid rpc eps] assms(3) by (simp add: TopTier_winners Let_def)
qed

lemma Select_within_TopTier_witness:
  "let s = NewTieredSelector DefaultSelectorConfig mix_scores;
       top = fst (TopTierCandidates s ''eth'' ''json_rpc'' [''b'', ''a'']);
       out = fst (Select (\<lambda>h. None) s (\<lambda>i. sel_cfg s) ''eth'' [''b'', ''a''] ''json_rpc'' mix_draws) in
   top = [''a''] \<and> last out \<in> set top"
proof -
  let ?s = "NewTieredSelector DefaultSelectorConfig mix_scores"
  have g: "good_draws mix_draws" by (simp add: good_draws_def draws_ok_def mix_draws_def)
  have "fst (TopTierCandidates ?s ''eth'' ''json_rpc'' [''b'', ''a'']) = [''a'']" by code_simp
  then show ?thesis
    using Select_within_TopTier [OF g, of "[''b'', ''a'']" ?s "''eth''" "''json_rpc''" "\<lambda>h. None"] by (simp add: Let_def)
qed

end
