(* ===== verification/Rep_View.thy ===== *)
theory Rep_View
  imports Rep_Shares Selector
begin

text \<open>
  What the chronic term and the party penalties charge a key (\<^verbatim>\<open>reputation/operator.go\<close>, and
  the lookups of \<^verbatim>\<open>policy.go\<close>, \<^verbatim>\<open>throttleshare.go\<close>, \<^verbatim>\<open>classshare.go\<close>,
  \<^verbatim>\<open>dupshare.go\<close>), and the effective score every reader sees (\<^verbatim>\<open>effectiveFor\<close>,
  \<^verbatim>\<open>scoreWith\<close>, \<^verbatim>\<open>penaltyFor\<close> of \<^verbatim>\<open>reputation/service.go\<close>).

  The view is a snapshot rebuilt on a timer; a service that has none yet has \<open>None\<close>. The table of
  owners (\<open>tbl\<close>) says which party an operator belongs to.
\<close>

section \<open>Model: one key's state\<close>

record State =
  st_Score :: real
  st_Rate :: real
  st_Attempts :: "64 word"
  st_TrafficAttempts :: "64 word"
  st_LatencyMS :: real
  st_LastTraffic :: int
  st_UpdatedAt :: int
  st_TimeoutHitAt :: int

definition fresh_state :: "real \<Rightarrow> State" where
  "fresh_state x = \<lparr>st_Score = x, st_Rate = 0, st_Attempts = 0, st_TrafficAttempts = 0, st_LatencyMS = 0,
     st_LastTraffic = 0, st_UpdatedAt = 0, st_TimeoutHitAt = 0\<rparr>"

section \<open>Model: the view\<close>

record chronicView =
  byKey :: "(service_id \<times> string, real) gomap"
  baseline :: "(service_id \<times> string, real) gomap"
  opOn :: "(service_id, bool) gomap"
  stalePen :: "(opID, real) gomap"
  cv_stale :: "PartyStale list"
  trustPen :: "(string, real) gomap"
  trustOn :: "(service_id, bool) gomap"
  trustGate :: svc_gate
  cv_trust :: "PartyTrust list"
  wsOn :: "(service_id, bool) gomap"
  wsGate :: svc_gate
  dupPen :: "(opID, real) gomap"
  cv_dup :: "PartyShare list"
  throttlePen :: "(opID, real) gomap"
  cv_throttle :: "PartyShare list"
  classPen :: "(string, (opID, real) gomap) gomap"
  cv_classes :: "(string, PartyShare list) gomap"
  policyPen :: "(string, real) gomap"
  policyOn :: "(service_id, bool) gomap"
  policyGate :: svc_gate
  cv_policy :: "PolicyPenalty list"
  opSeed :: "(opID, real) gomap"
  seedOn :: "(service_id, bool) gomap"
  seedGate :: svc_gate
  partySeed :: "(opID, real) gomap"
  keyParty :: "(string, string) gomap"
  keyOp :: "(string, string) gomap"

definition empty_view :: chronicView where
  "empty_view = \<lparr>byKey = [], baseline = [], opOn = [], stalePen = [], cv_stale = [], trustPen = [], trustOn = [], trustGate = None,
     cv_trust = [], wsOn = [], wsGate = None, dupPen = [], cv_dup = [], throttlePen = [], cv_throttle = [], classPen = [], cv_classes = [],
     policyPen = [], policyOn = [], policyGate = None, cv_policy = [], opSeed = [], seedOn = [], seedGate = None, partySeed = [],
     keyParty = [], keyOp = []\<rparr>"

text \<open>A Go map read at a missing key gives the zero value.\<close>

definition pen_of :: "('k, real) gomap \<Rightarrow> 'k \<Rightarrow> real" where
  "pen_of m k = (case map_of m k of None \<Rightarrow> 0 | Some p \<Rightarrow> p)"

definition partyOfKey :: "psl \<Rightarrow> owner_table \<Rightarrow> string \<Rightarrow> string" where
  "partyOfKey psl tbl key = PartyOfOperator tbl (operatorOfKey psl key)"

definition party_of :: "psl \<Rightarrow> owner_table \<Rightarrow> chronicView \<Rightarrow> string \<Rightarrow> string" where
  "party_of psl tbl v key = (case map_of (keyParty v) key of Some p \<Rightarrow> p | None \<Rightarrow> partyOfKey psl tbl key)"

text \<open>A flag read at refresh, with the gate as fallback for a service that had no key then.\<close>

definition flag_for :: "(service_id, bool) gomap \<Rightarrow> svc_gate \<Rightarrow> service_id \<Rightarrow> bool" where
  "flag_for m gate svc = (case map_of m svc of Some on \<Rightarrow> on | None \<Rightarrow> gate_on gate svc)"

definition websocketCharged :: "chronicView \<Rightarrow> service_id \<Rightarrow> bool" where
  "websocketCharged v svc =
     (case map_of (wsOn v) svc of Some on \<Rightarrow> on | None \<Rightarrow> (case wsGate v of None \<Rightarrow> True | Some g \<Rightarrow> g svc))"

definition is_ws_key :: "string \<Rightarrow> bool" where
  "is_ws_key key \<longleftrightarrow> rpcOfKey key = RPCTypeWebSocket"

definition partyPenalties :: "psl \<Rightarrow> owner_table \<Rightarrow> chronicView option \<Rightarrow> service_id \<Rightarrow> string \<Rightarrow> real \<times> real" where
  "partyPenalties psl tbl vo svc key =
     (case vo of
        None \<Rightarrow> (0, 0)
      | Some v \<Rightarrow>
          if stalePen v = [] \<and> trustPen v = [] then (0, 0)
          else if is_ws_key key \<and> \<not> websocketCharged v svc then (0, 0)
          else let party = party_of psl tbl v key in
            (pen_of (stalePen v) (svc, party, []),
             (case map_of (trustPen v) party of
                None \<Rightarrow> 0
              | Some pen \<Rightarrow> if flag_for (trustOn v) (trustGate v) svc then pen else 0)))"

definition policyPenalty :: "psl \<Rightarrow> owner_table \<Rightarrow> chronicView option \<Rightarrow> service_id \<Rightarrow> string \<Rightarrow> real" where
  "policyPenalty psl tbl vo svc key =
     (case vo of
        None \<Rightarrow> 0
      | Some v \<Rightarrow>
          if policyPen v = [] then 0
          else if is_ws_key key \<and> \<not> websocketCharged v svc then 0
          else
            let (party, op) = (case map_of (keyParty v) key of
                                 Some p \<Rightarrow> (p, (case map_of (keyOp v) key of Some o' \<Rightarrow> o' | None \<Rightarrow> []))
                               | None \<Rightarrow> (partyOfKey psl tbl key, operatorOfKey psl key));
                pen = min (pen_of (policyPen v) party) (pen_of (policyPen v) op)
            in if pen = 0 then 0 else if flag_for (policyOn v) (policyGate v) svc then pen else 0)"

definition throttlePenalty :: "psl \<Rightarrow> owner_table \<Rightarrow> chronicView option \<Rightarrow> service_id \<Rightarrow> string \<Rightarrow> real" where
  "throttlePenalty psl tbl vo svc key =
     (case vo of None \<Rightarrow> 0
      | Some v \<Rightarrow> if throttlePen v = [] \<or> is_ws_key key then 0 else pen_of (throttlePen v) (svc, party_of psl tbl v key, []))"

definition duplicatePenalty :: "psl \<Rightarrow> owner_table \<Rightarrow> chronicView option \<Rightarrow> service_id \<Rightarrow> string \<Rightarrow> real" where
  "duplicatePenalty psl tbl vo svc key =
     (case vo of None \<Rightarrow> 0
      | Some v \<Rightarrow> if dupPen v = [] \<or> \<not> is_ws_key key then 0 else pen_of (dupPen v) (svc, party_of psl tbl v key, []))"

definition classPenalty :: "psl \<Rightarrow> owner_table \<Rightarrow> chronicView option \<Rightarrow> service_id \<Rightarrow> string \<Rightarrow> string \<Rightarrow> real" where
  "classPenalty psl tbl vo svc key cl =
     (case vo of None \<Rightarrow> 0
      | Some v \<Rightarrow> if cl = [] \<or> inner (classPen v) cl = [] \<or> is_ws_key key then 0
                  else pen_of (inner (classPen v) cl) (svc, party_of psl tbl v key, []))"

definition partyPenalty :: "psl \<Rightarrow> owner_table \<Rightarrow> chronicView option \<Rightarrow> service_id \<Rightarrow> string \<Rightarrow> real" where
  "partyPenalty psl tbl vo svc key =
     (case partyPenalties psl tbl vo svc key of (stale, trust) \<Rightarrow>
       min stale (min trust (min (policyPenalty psl tbl vo svc key)
         (min (throttlePenalty psl tbl vo svc key) (duplicatePenalty psl tbl vo svc key)))))"

definition seedFor :: "owner_table \<Rightarrow> chronicView option \<Rightarrow> service_id \<Rightarrow> string \<Rightarrow> rpc_type \<Rightarrow> real option" where
  "seedFor tbl vo svc op rpc =
     (case vo of None \<Rightarrow> None
      | Some v \<Rightarrow>
          let o' = map_of (opSeed v) (svc, op, rpc);
              p = map_of (partySeed v) (svc, PartyOfOperator tbl op, rpc);
              seed = (case p of None \<Rightarrow> o' | Some y \<Rightarrow> if o' = None \<or> y < the o' then p else o')
          in case seed of None \<Rightarrow> None | Some x \<Rightarrow> if flag_for (seedOn v) (seedGate v) svc then Some x else None)"

section \<open>Model: the effective score\<close>

definition maxScore :: real where "maxScore = 100"

definition clamp :: "real \<Rightarrow> real" where
  "clamp x = max 0 (min x maxScore)"

definition penaltyFor :: "RateConfig \<Rightarrow> chronicView option \<Rightarrow> service_id \<Rightarrow> string \<Rightarrow> real \<Rightarrow> real" where
  "penaltyFor rc vo svc key rate0 =
     (let rate = (case vo of None \<Rightarrow> rate0
                  | Some v \<Rightarrow> if map_of (opOn v) svc = Some True
                              then (case map_of (byKey v) (svc, key) of Some r \<Rightarrow> r | None \<Rightarrow> rate0) else rate0);
          p = Penalty rc rate
      in if p = 0 then 0
         else case vo of None \<Rightarrow> p
              | Some v \<Rightarrow> (case map_of (baseline v) (svc, rpcOfKey key) of
                             None \<Rightarrow> p | Some base \<Rightarrow> min 0 (p - Penalty rc base)))"

definition scoreWith :: "RateConfig \<Rightarrow> SelectorConfig \<Rightarrow> chronicView option \<Rightarrow> service_id \<Rightarrow> string \<Rightarrow> State \<Rightarrow> real \<Rightarrow> real" where
  "scoreWith rc sc vo svc key st party =
     (let score = st_Score st + penaltyFor rc vo svc key (st_Rate st) + party;
          flr = min (st_Score st) (MinThreshold sc)
      in clamp (if score < flr then flr else score))"

definition effectiveFor :: "psl \<Rightarrow> owner_table \<Rightarrow> RateConfig \<Rightarrow> SelectorConfig \<Rightarrow> chronicView option \<Rightarrow> service_id \<Rightarrow> string \<Rightarrow> State \<Rightarrow> real" where
  "effectiveFor psl tbl rc sc vo svc key st = scoreWith rc sc vo svc key st (partyPenalty psl tbl vo svc key)"

definition effectiveForClass :: "psl \<Rightarrow> owner_table \<Rightarrow> RateConfig \<Rightarrow> SelectorConfig \<Rightarrow> chronicView option \<Rightarrow> service_id \<Rightarrow> string \<Rightarrow> State \<Rightarrow> string \<Rightarrow> real" where
  "effectiveForClass psl tbl rc sc vo svc key st cl =
     scoreWith rc sc vo svc key st (min (partyPenalty psl tbl vo svc key) (classPenalty psl tbl vo svc key cl))"

section \<open>Lemmas\<close>

definition view_ok :: "chronicView \<Rightarrow> bool" where
  "view_ok v \<longleftrightarrow> (\<forall>k. pen_of (stalePen v) k \<le> 0) \<and> (\<forall>k. pen_of (trustPen v) k \<le> 0) \<and> (\<forall>k. pen_of (dupPen v) k \<le> 0) \<and>
     (\<forall>k. pen_of (throttlePen v) k \<le> 0) \<and> (\<forall>c k. pen_of (inner (classPen v) c) k \<le> 0) \<and> (\<forall>k. pen_of (policyPen v) k \<le> 0)"

lemma view_ok_empty: "view_ok empty_view"
  by (simp add: view_ok_def empty_view_def pen_of_def)

lemma pen_of_Some: "map_of m k = Some p \<Longrightarrow> p = pen_of m k"
  by (simp add: pen_of_def)

lemma partyPenalty_nonpos:
  assumes "\<forall>v. vo = Some v \<longrightarrow> view_ok v"
  shows "partyPenalty psl tbl vo svc key \<le> 0"
proof -
  have "throttlePenalty psl tbl vo svc key \<le> 0"
    using assms by (auto simp: throttlePenalty_def view_ok_def split: option.splits)
  then show ?thesis by (simp add: partyPenalty_def min_le_iff_disj split: prod.splits)
qed

lemma clamp_range: "0 \<le> clamp x" "clamp x \<le> 100"
  by (simp_all add: clamp_def maxScore_def)

lemma clamp_id: "0 \<le> x \<Longrightarrow> x \<le> 100 \<Longrightarrow> clamp x = x"
  by (simp add: clamp_def maxScore_def)

lemma penaltyFor_nonpos: "Penalty rc r \<le> 0 \<Longrightarrow> (\<And>x. Penalty rc x \<le> 0) \<Longrightarrow> penaltyFor rc vo svc key rate \<le> 0"
  by (auto simp: penaltyFor_def Let_def split: option.splits)

lemma scoreWith_range:
  assumes "0 \<le> st_Score st" and "st_Score st \<le> 100" and "party \<le> 0" and "\<And>x. Penalty rc x \<le> 0" and "0 \<le> MinThreshold sc"
  shows "min (st_Score st) (MinThreshold sc) \<le> scoreWith rc sc vo svc key st party"
    "scoreWith rc sc vo svc key st party \<le> st_Score st"
proof -
  let ?x = "st_Score st + penaltyFor rc vo svc key (st_Rate st) + party" and ?f = "min (st_Score st) (MinThreshold sc)"
  have "penaltyFor rc vo svc key (st_Rate st) \<le> 0" by (rule penaltyFor_nonpos) (rule assms(4))+
  then have "?x \<le> st_Score st" using assms(3) by simp
  then have *: "?f \<le> (if ?x < ?f then ?f else ?x)" "(if ?x < ?f then ?f else ?x) \<le> st_Score st" by auto
  then have "clamp (if ?x < ?f then ?f else ?x) = (if ?x < ?f then ?f else ?x)"
    using assms(1,2,5) by (intro clamp_id) auto
  then show "?f \<le> scoreWith rc sc vo svc key st party" "scoreWith rc sc vo svc key st party \<le> st_Score st"
    using * by (simp_all add: scoreWith_def Let_def)
qed

end
