(* ===== verification/Rep_Service.thy ===== *)
theory Rep_Service
  imports Rep_View
begin

text \<open>
  The reputation service (\<^verbatim>\<open>reputation/service.go\<close>, \<^verbatim>\<open>traffic.go\<close>): the sharded cache of
  states, recording a signal, reading scores, selection, resets, and the write-behind to storage.

  The clock a call read is its argument \<open>now\<close>; the owner table and the public-suffix list are
  arguments of the calls that consult them. The timeline and the hooks only observe and are left out.
\<close>

section \<open>Model: the service\<close>

record scoring =
  impacts :: SignalImpacts
  rate :: RateConfig
  lambda :: real

definition newScoring :: "SignalImpacts \<Rightarrow> RateConfig \<Rightarrow> scoring" where
  "newScoring i r = (let r = Normalized r in \<lparr>impacts = impacts_Normalized i, rate = r, lambda = Lambda r\<rparr>)"

type_synonym states_map = "(string, State) gomap"

record serviceImpl =
  InitialScore :: real
  StateIdleTTL :: duration
  key_of :: key_fn
  sv_scoring :: scoring
  sv_cfg :: SelectorConfig
  sv_cap :: OperatorCapConfig
  sv_capGate :: svc_gate
  sv_latencyGate :: svc_gate
  chronic :: "chronicView option"
  cache :: "nat \<Rightarrow> (service_id, states_map) gomap"
  ops :: opTracker
  heads :: opTracker
  refusals :: opTracker
  dups :: opTracker
  throttles :: opTracker
  classes :: "(string, opTracker) gomap"
  relativeGate :: svc_gate
  operatorGate :: svc_gate
  staleGate :: svc_gate
  sv_trustGate :: svc_gate
  partyWSGate :: svc_gate
  dupGate :: svc_gate
  sv_policyGate :: svc_gate
  throttleGate :: svc_gate
  classGate :: svc_gate
  sv_seedGate :: svc_gate
  dupLimits :: "(service_id \<Rightarrow> real \<times> real) option"
  throttleLimits :: "(service_id \<Rightarrow> real \<times> real) option"
  classLimits :: "(service_id \<Rightarrow> real \<times> real) option"
  instanceID :: string
  pending :: states_map

definition DefaultIdleTTL :: duration where "DefaultIdleTTL = hour"

definition untracked :: "opTracker \<Rightarrow> opTracker" where
  "untracked t = t\<lparr>dirty := None\<rparr>"

definition NewService :: "real \<Rightarrow> duration \<Rightarrow> string \<Rightarrow> SignalImpacts \<Rightarrow> RateConfig \<Rightarrow> SelectorConfig option \<Rightarrow> serviceImpl" where
  "NewService initial idle granularity imp rc sel =
     \<lparr>InitialScore = (if initial = 0 then 100 else initial),
      StateIdleTTL = (if idle = 0 then DefaultIdleTTL else idle),
      key_of = keyFnFor granularity None, sv_scoring = newScoring imp rc,
      sv_cfg = (case sel of None \<Rightarrow> DefaultSelectorConfig | Some c \<Rightarrow> c),
      sv_cap = \<lparr>MaxShare = 0, TwoOperatorMaxShare = 0, DisplacementCeiling = 0\<rparr>, sv_capGate = None, sv_latencyGate = None,
      chronic = None, cache = (\<lambda>i. []),
      ops = newOpTracker DefaultOperatorHalfLife, heads = untracked (newOpTracker (30 * minute)),
      refusals = untracked (newOpTracker hour), dups = untracked (newOpTracker dupShareHalfLife),
      throttles = untracked (newOpTracker (30 * minute)),
      classes = map (\<lambda>c. (c, untracked (newOpTracker (30 * minute)))) [''light'', ''standard'', ''heavy''],
      relativeGate = None, operatorGate = None, staleGate = None, sv_trustGate = None, partyWSGate = None, dupGate = None,
      sv_policyGate = None, throttleGate = None, classGate = None, sv_seedGate = None,
      dupLimits = None, throttleLimits = None, classLimits = None, instanceID = [], pending = []\<rparr>"

definition Retune :: "serviceImpl \<Rightarrow> SignalImpacts \<Rightarrow> RateConfig \<Rightarrow> SelectorConfig \<Rightarrow> OperatorCapConfig \<Rightarrow> serviceImpl" where
  "Retune s i r sel cap = s\<lparr>sv_scoring := newScoring i r, sv_cfg := sel, sv_cap := cap\<rparr>"

section \<open>Model: shards\<close>

unbundle bit_operations_syntax

definition fnv32a :: "string \<Rightarrow> 32 word" where
  "fnv32a s = fold (\<lambda>c h. (h XOR of_nat (of_char c)) * 16777619) s 2166136261"

definition scoreShards :: nat where "scoreShards = 32"
definition maxScoresPerServiceShard :: nat where "maxScoresPerServiceShard = 4096"

definition shard :: "string \<Rightarrow> nat" where
  "shard key = unat (fnv32a key) mod scoreShards"

definition lookup_state :: "serviceImpl \<Rightarrow> service_id \<Rightarrow> string \<Rightarrow> State option" where
  "lookup_state s sid key = get2 (cache s (shard key)) sid key"

definition put_states :: "serviceImpl \<Rightarrow> nat \<Rightarrow> service_id \<Rightarrow> states_map \<Rightarrow> serviceImpl" where
  "put_states s i sid m = s\<lparr>cache := (cache s)(i := AList.update sid m (cache s i))\<rparr>"

section \<open>Model: reading\<close>

definition score_of_state :: "psl \<Rightarrow> owner_table \<Rightarrow> serviceImpl \<Rightarrow> service_id \<Rightarrow> string \<Rightarrow> State \<Rightarrow> real" where
  "score_of_state psl tbl s sid key st = effectiveFor psl tbl (rate (sv_scoring s)) (sv_cfg s) (chronic s) sid key st"

definition initialScore :: "psl \<Rightarrow> owner_table \<Rightarrow> serviceImpl \<Rightarrow> service_id \<Rightarrow> string \<Rightarrow> real" where
  "initialScore psl tbl s sid key =
     (case seedFor tbl (chronic s) sid (operatorOfKey psl key) (rpcOfKey key) of Some x \<Rightarrow> x | None \<Rightarrow> InitialScore s)"

definition state_or_initial :: "psl \<Rightarrow> owner_table \<Rightarrow> serviceImpl \<Rightarrow> service_id \<Rightarrow> string \<Rightarrow> State" where
  "state_or_initial psl tbl s sid key =
     (case lookup_state s sid key of Some st \<Rightarrow> st | None \<Rightarrow> fresh_state (initialScore psl tbl s sid key))"

definition GetScore :: "psl \<Rightarrow> owner_table \<Rightarrow> serviceImpl \<Rightarrow> service_id \<Rightarrow> endpoint_addr \<Rightarrow> rpc_type \<Rightarrow> real" where
  "GetScore psl tbl s sid ep rpc =
     (let key = key_of s ep rpc in score_of_state psl tbl s sid key (state_or_initial psl tbl s sid key))"

definition OwnScore :: "psl \<Rightarrow> owner_table \<Rightarrow> serviceImpl \<Rightarrow> service_id \<Rightarrow> endpoint_addr \<Rightarrow> rpc_type \<Rightarrow> real" where
  "OwnScore psl tbl s sid ep rpc =
     (let key = key_of s ep rpc in
      scoreWith (rate (sv_scoring s)) (sv_cfg s) (chronic s) sid key (state_or_initial psl tbl s sid key) 0)"

definition ScoreOf :: "psl \<Rightarrow> owner_table \<Rightarrow> serviceImpl \<Rightarrow> service_id \<Rightarrow> endpoint_addr \<Rightarrow> rpc_type \<Rightarrow> real option" where
  "ScoreOf psl tbl s sid ep rpc =
     (let key = key_of s ep rpc in map_option (score_of_state psl tbl s sid key) (lookup_state s sid key))"

definition Vouched :: "psl \<Rightarrow> owner_table \<Rightarrow> serviceImpl \<Rightarrow> service_id \<Rightarrow> endpoint_addr \<Rightarrow> rpc_type \<Rightarrow> bool" where
  "Vouched psl tbl s sid ep rpc =
     (case ScoreOf psl tbl s sid ep rpc of None \<Rightarrow> False | Some x \<Rightarrow> x \<ge> ProbationThreshold (sv_cfg s))"

definition RuledOut :: "psl \<Rightarrow> owner_table \<Rightarrow> serviceImpl \<Rightarrow> service_id \<Rightarrow> endpoint_addr \<Rightarrow> rpc_type \<Rightarrow> bool" where
  "RuledOut psl tbl s sid ep rpc =
     (case ScoreOf psl tbl s sid ep rpc of None \<Rightarrow> False | Some x \<Rightarrow> x < MinThreshold (sv_cfg s))"

definition TrafficSignals :: "serviceImpl \<Rightarrow> service_id \<Rightarrow> endpoint_addr \<Rightarrow> rpc_type \<Rightarrow> 64 word \<times> bool" where
  "TrafficSignals s sid ep rpc =
     (case lookup_state s sid (key_of s ep rpc) of None \<Rightarrow> (0, False) | Some st \<Rightarrow> (st_TrafficAttempts st, True))"

definition all_states :: "serviceImpl \<Rightarrow> service_id \<Rightarrow> states_map" where
  "all_states s sid = concat (map (\<lambda>i. inner (cache s i) sid) [0..<scoreShards])"

definition GetScores :: "psl \<Rightarrow> owner_table \<Rightarrow> serviceImpl \<Rightarrow> service_id \<Rightarrow> (string, real) gomap" where
  "GetScores psl tbl s sid = map (\<lambda>(key, st). (key, score_of_state psl tbl s sid key st)) (all_states s sid)"

definition GetScoresSince :: "psl \<Rightarrow> owner_table \<Rightarrow> serviceImpl \<Rightarrow> service_id \<Rightarrow> time \<Rightarrow> (string, real) gomap" where
  "GetScoresSince psl tbl s sid since =
     map (\<lambda>(key, st). (key, score_of_state psl tbl s sid key st))
       (filter (\<lambda>(key, st). st_UpdatedAt st \<ge> unix_of since) (all_states s sid))"

definition scoreForSelector :: "psl \<Rightarrow> owner_table \<Rightarrow> serviceImpl \<Rightarrow> string \<Rightarrow> service_id \<Rightarrow> endpoint_addr \<Rightarrow> rpc_type \<Rightarrow> real \<times> bool" where
  "scoreForSelector psl tbl s cl sid ep rpc =
     (let key = key_of s ep rpc; st = state_or_initial psl tbl s sid key in
      (if (case chronic s of None \<Rightarrow> True | Some v \<Rightarrow> classPen v = []) then score_of_state psl tbl s sid key st
       else effectiveForClass psl tbl (rate (sv_scoring s)) (sv_cfg s) (chronic s) sid key st cl, True))"

definition latencyForSelector :: "serviceImpl \<Rightarrow> service_id \<Rightarrow> endpoint_addr \<Rightarrow> rpc_type \<Rightarrow> real \<times> bool" where
  "latencyForSelector s sid ep rpc =
     (case lookup_state s sid (key_of s ep rpc) of
        None \<Rightarrow> (0, False)
      | Some st \<Rightarrow> if st_LatencyMS st \<le> 0 then (0, False) else (st_LatencyMS st, True))"

section \<open>Model: selection\<close>

definition selector_of :: "psl \<Rightarrow> owner_table \<Rightarrow> serviceImpl \<Rightarrow> string \<Rightarrow> TieredSelector" where
  "selector_of psl tbl s cl =
     \<lparr>sel_cfg = sv_cfg s, scores = scoreForSelector psl tbl s cl, latency = Some (latencyForSelector s),
      latencyGate = sv_latencyGate s, operatorCap = sv_cap s, capGate = sv_capGate s\<rparr>"

definition SelectBest :: "psl \<Rightarrow> owner_table \<Rightarrow> serviceImpl \<Rightarrow> string \<Rightarrow> service_id \<Rightarrow> endpoint_addr list \<Rightarrow> rpc_type \<Rightarrow> draws \<Rightarrow> endpoint_addr" where
  "SelectBest psl tbl s cl sid endpoints rpc d =
     (if endpoints = [] then []
      else case fst (Select psl (selector_of psl tbl s cl) (\<lambda>i. sv_cfg s) sid endpoints rpc d) of [] \<Rightarrow> [] | e # _ \<Rightarrow> e)"

definition SelectSpread :: "psl \<Rightarrow> owner_table \<Rightarrow> serviceImpl \<Rightarrow> string \<Rightarrow> service_id \<Rightarrow> endpoint_addr list \<Rightarrow> rpc_type \<Rightarrow>
    (endpoint_addr, int) gomap \<Rightarrow> draws \<Rightarrow> nat \<Rightarrow> endpoint_addr" where
  "SelectSpread psl tbl s cl sid endpoints rpc activeLoad d pos =
     (if endpoints = [] then []
      else
        let sel = selector_of psl tbl s cl;
            candidates = fst (TopTierCandidates sel sid rpc endpoints)
        in if candidates = [] then []
           else
             let candidates =
                  (if capActive sel sid
                   then (case cappedPickWeighted psl (operatorCap sel) candidates (\<lambda>i. True) (\<lambda>i. 1) (memberRnd d) (operatorRnd d) of
                           None \<Rightarrow> candidates
                         | Some (op, _) \<Rightarrow>
                             let inOp = filter (\<lambda>ep. operator_of psl ep = op) candidates
                             in if inOp = [] then candidates else inOp)
                   else candidates)
             in pickWeightedByInverseLoad candidates activeLoad (weightRnd d) pos)"

definition TopTier :: "psl \<Rightarrow> owner_table \<Rightarrow> serviceImpl \<Rightarrow> string \<Rightarrow> service_id \<Rightarrow> endpoint_addr list \<Rightarrow> rpc_type \<Rightarrow> endpoint_addr list" where
  "TopTier psl tbl s cl sid endpoints rpc = fst (TopTierCandidates (selector_of psl tbl s cl) sid rpc endpoints)"

definition OnProbation :: "psl \<Rightarrow> owner_table \<Rightarrow> serviceImpl \<Rightarrow> string \<Rightarrow> service_id \<Rightarrow> endpoint_addr \<Rightarrow> rpc_type \<Rightarrow> bool" where
  "OnProbation psl tbl s cl sid ep rpc = (fst (classify (sv_cfg s) (scoreForSelector psl tbl s cl sid ep rpc)) = Some Probation)"

section \<open>Model: recording\<close>

definition timeoutCoalesce_ms :: int where "timeoutCoalesce_ms = 1000"
definition probeDefer_s :: int where "probeDefer_s = 600"
definition latencyAlpha :: real where "latencyAlpha = 0.05"

definition unix_milli :: "time \<Rightarrow> int" where
  "unix_milli t = t div millisecond - unix_epoch * 1000"

definition pruneUninformative :: "serviceImpl \<Rightarrow> states_map \<Rightarrow> states_map" where
  "pruneUninformative s m =
     keep_entries (\<lambda>k v. \<not> (st_Score v = InitialScore s \<and> Penalty (rate (sv_scoring s)) (st_Rate v) = 0)) m"

definition is_timeout :: "Signal \<Rightarrow> bool" where
  "is_timeout sg \<longleftrightarrow> Type sg = SignalMajorError \<and> Reason sg = ''transport_timeout''"

definition deferred :: "SelectorConfig \<Rightarrow> State \<Rightarrow> Signal \<Rightarrow> time \<Rightarrow> bool" where
  "deferred cfg st sg ts \<longleftrightarrow>
     Probe sg \<and> Type sg = SignalSuccess \<and> st_Score st \<ge> MinThreshold cfg \<and> st_LastTraffic st > 0 \<and>
     unix_of ts - st_LastTraffic st < probeDefer_s"

definition coalesced :: "State \<Rightarrow> Signal \<Rightarrow> time \<Rightarrow> bool" where
  "coalesced st sg ts \<longleftrightarrow> is_timeout sg \<and> st_TimeoutHitAt st \<noteq> 0 \<and> unix_milli ts - st_TimeoutHitAt st < timeoutCoalesce_ms"

definition signal_score :: "scoring \<Rightarrow> SelectorConfig \<Rightarrow> State \<Rightarrow> Signal \<Rightarrow> time \<Rightarrow> State" where
  "signal_score sc cfg st sg ts =
     (if deferred cfg st sg ts \<or> coalesced st sg ts then st
      else let st = st\<lparr>st_Score := clamp (st_Score st + Impact (impacts sc) (Type sg))\<rparr>
           in if is_timeout sg then st\<lparr>st_TimeoutHitAt := unix_milli ts\<rparr> else st)"

definition signal_rate :: "scoring \<Rightarrow> SelectorConfig \<Rightarrow> rpc_type \<Rightarrow> State \<Rightarrow> Signal \<Rightarrow> time \<Rightarrow> real" where
  "signal_rate sc cfg rpc prev sg ts =
     (let r = (if rpc = RPCTypeWebSocket then decayWSRate (st_Rate prev) (st_UpdatedAt prev) ts else st_Rate prev)
      in if Enabled (rate sc) \<and> st_Score prev \<noteq> 0 \<and> \<not> deferred cfg prev sg ts \<and> \<not> Leftover sg
         then let w = FailureWeight (Type sg) in
           if w = 0 \<and> Weight sg > 1 then r * (1 - lambda sc) ^ nat (Weight sg) else r + lambda sc * (w - r)
         else r)"

definition signal_latency :: "State \<Rightarrow> Signal \<Rightarrow> real" where
  "signal_latency st sg =
     (if Type sg = SignalSuccess \<and> Latency sg > 0
      then let ms = real_of_int (Latency sg) / real_of_int millisecond in
        if st_LatencyMS st = 0 then ms else st_LatencyMS st + latencyAlpha * (ms - st_LatencyMS st)
      else st_LatencyMS st)"

definition signal_state :: "scoring \<Rightarrow> SelectorConfig \<Rightarrow> rpc_type \<Rightarrow> State \<Rightarrow> Signal \<Rightarrow> time \<Rightarrow> State" where
  "signal_state sc cfg rpc prev sg ts =
     (let st = (signal_score sc cfg prev sg ts)\<lparr>st_Rate := signal_rate sc cfg rpc prev sg ts,
            st_Attempts := st_Attempts prev + 1, st_UpdatedAt := unix_of ts\<rparr>
      in if Probe sg then st
         else st\<lparr>st_TrafficAttempts := st_TrafficAttempts prev + 1, st_LastTraffic := unix_of ts, st_LatencyMS := signal_latency prev sg\<rparr>)"

definition scoreKey :: "service_id \<Rightarrow> string \<Rightarrow> string" where
  "scoreKey sid key = sid @ '':'' @ key"

definition enqueue :: "serviceImpl \<Rightarrow> bool \<Rightarrow> string \<Rightarrow> State \<Rightarrow> serviceImpl" where
  "enqueue s follower key st = (if follower then s else s\<lparr>pending := AList.update key st (pending s)\<rparr>)"

definition record_evidence :: "psl \<Rightarrow> owner_table \<Rightarrow> serviceImpl \<Rightarrow> service_id \<Rightarrow> endpoint_addr \<Rightarrow> rpc_type \<Rightarrow> Signal \<Rightarrow> bool \<Rightarrow> time \<Rightarrow> serviceImpl" where
  "record_evidence psl tbl s sid ep rpc sg dfr ts =
     (let op = operator_of psl ep; party = Party psl tbl ep;
          s = (if Enabled (rate (sv_scoring s)) \<and> \<not> dfr \<and> \<not> Leftover sg \<and> rpc \<noteq> RPCTypeWebSocket \<and> op \<noteq> []
               then s\<lparr>ops := op_record (ops s) (sid, op, rpc) (FailureWeight (Type sg)) ts\<rparr> else s);
          s = s\<lparr>throttles := recordThrottle (throttles s) sid party rpc sg ts, classes := recordClass (classes s) sid party rpc sg ts\<rparr>
      in if Reason sg = ''refused_recent'' \<and> \<not> Probe sg \<and> party \<noteq> []
         then s\<lparr>refusals := op_record (refusals s) (sid, party, []) 0 ts\<rparr> else s)"

definition RecordSignal :: "psl \<Rightarrow> owner_table \<Rightarrow> bool \<Rightarrow> serviceImpl \<Rightarrow> service_id \<Rightarrow> endpoint_addr \<Rightarrow> rpc_type \<Rightarrow> Signal \<Rightarrow> time \<Rightarrow> serviceImpl" where
  "RecordSignal psl tbl follower s sid ep rpc sg now =
     (let key = key_of s ep rpc; i = shard key; m = inner (cache s i) sid;
          ts = (if Timestamp sg = 0 then now else Timestamp sg);
          (prev, m) = (case map_of m key of
             Some st \<Rightarrow> (st, m)
           | None \<Rightarrow> (fresh_state (initialScore psl tbl s sid key),
                      if length m \<ge> maxScoresPerServiceShard then pruneUninformative s m else m));
          st = signal_state (sv_scoring s) (sv_cfg s) rpc prev sg ts;
          s' = put_states s i sid (AList.update key st m);
          s' = record_evidence psl tbl s' sid ep rpc sg (deferred (sv_cfg s) prev sg ts) ts
      in enqueue s' follower (scoreKey sid key) st)"

fun record_each :: "psl \<Rightarrow> owner_table \<Rightarrow> bool \<Rightarrow> serviceImpl \<Rightarrow> service_id \<Rightarrow> endpoint_addr list \<Rightarrow> string list \<Rightarrow> rpc_type \<Rightarrow> Signal \<Rightarrow> time \<Rightarrow> serviceImpl" where
  "record_each psl tbl follower s sid [] seen rpc sg now = s"
| "record_each psl tbl follower s sid (ep # eps) seen rpc sg now =
     (let k = key_of s ep rpc in
      if k \<in> set seen then record_each psl tbl follower s sid eps seen rpc sg now
      else record_each psl tbl follower (RecordSignal psl tbl follower s sid ep rpc sg now) sid eps (k # seen) rpc sg now)"

definition RecordSignalOnce :: "psl \<Rightarrow> owner_table \<Rightarrow> bool \<Rightarrow> serviceImpl \<Rightarrow> service_id \<Rightarrow> endpoint_addr list \<Rightarrow> rpc_type \<Rightarrow> Signal \<Rightarrow> time \<Rightarrow> serviceImpl" where
  "RecordSignalOnce psl tbl follower s sid endpoints rpc sg now =
     (case endpoints of
        [] \<Rightarrow> s
      | ep # eps \<Rightarrow>
          if \<forall>e \<in> set eps. key_of s e rpc = key_of s ep rpc then RecordSignal psl tbl follower s sid ep rpc sg now
          else record_each psl tbl follower s sid endpoints [] rpc sg now)"

definition rebase_one :: "bool \<Rightarrow> serviceImpl \<Rightarrow> service_id \<Rightarrow> string \<Rightarrow> serviceImpl \<times> bool" where
  "rebase_one follower s sid key =
     (let flr = MinThreshold (sv_cfg s); i = shard key; m = inner (cache s i) sid;
          st = (case map_of m key of Some st \<Rightarrow> st | None \<Rightarrow> fresh_state (InitialScore s))
      in if st_Score st > flr
         then let st = st\<lparr>st_Score := flr\<rparr> in
           (enqueue (put_states s i sid (AList.update key st m)) follower (scoreKey sid key) st, True)
         else (put_states s i sid m, False))"

fun rebase_keys :: "bool \<Rightarrow> serviceImpl \<Rightarrow> service_id \<Rightarrow> string list \<Rightarrow> serviceImpl \<times> nat" where
  "rebase_keys follower s sid [] = (s, 0)"
| "rebase_keys follower s sid (k # ks) =
     (case rebase_one follower s sid k of (s', low) \<Rightarrow>
       case rebase_keys follower s' sid ks of (s'', n) \<Rightarrow> (s'', (if low then Suc n else n)))"

definition RebaseAfterDrain :: "bool \<Rightarrow> serviceImpl \<Rightarrow> service_id \<Rightarrow> endpoint_addr list \<Rightarrow> rpc_type \<Rightarrow> serviceImpl \<times> nat" where
  "RebaseAfterDrain follower s sid endpoints rpc =
     rebase_keys follower s sid (rev (remdups (rev (map (\<lambda>ep. key_of s ep rpc) endpoints))))"

end
