(* ===== verification/Rep_Storage.thy ===== *)
theory Rep_Storage
  imports Rep_Service
begin

text \<open>
  What reaches storage and what comes back (\<^verbatim>\<open>reputation/service.go\<close>, \<^verbatim>\<open>hydrate.go\<close>,
  \<^verbatim>\<open>memory.go\<close>, \<^verbatim>\<open>gated_storage.go\<close>): the write-behind and its flush, forced writes,
  resets, the sweep of stale entries, and the load at start-up.

  Storage is a Go map from \<open>scoreKey\<close> to the state; whether a round trip succeeds is an input, as
  is whether this replica leads.
\<close>

section \<open>Model: the store\<close>

type_synonym store = states_map

definition SetState :: "store \<Rightarrow> string \<Rightarrow> State \<Rightarrow> store" where
  "SetState m key st = AList.update key st m"

definition SetStates :: "store \<Rightarrow> states_map \<Rightarrow> store" where
  "SetStates m batch = fold (\<lambda>(k, st) m. SetState m k st) batch m"

definition DeleteStale :: "store \<Rightarrow> time \<Rightarrow> store \<times> nat" where
  "DeleteStale m olderThan =
     (keep_entries (\<lambda>k st. \<not> st_UpdatedAt st < unix_of olderThan) m,
      length (filter (\<lambda>(k, st). st_UpdatedAt st < unix_of olderThan) m))"

text \<open>Behind the leader gate: \<open>leading\<close> is what \<^verbatim>\<open>isLeader\<close> answers (true with no gate).\<close>

definition gated_SetStates :: "bool \<Rightarrow> store \<Rightarrow> states_map \<Rightarrow> store" where
  "gated_SetStates leading m batch = (if leading then SetStates m batch else m)"

definition gated_DeleteStale :: "bool \<Rightarrow> store \<Rightarrow> time \<Rightarrow> store \<times> nat" where
  "gated_DeleteStale leading m olderThan = (if leading then DeleteStale m olderThan else (m, 0))"

definition ForceSetState :: "store \<Rightarrow> string \<Rightarrow> State \<Rightarrow> store" where
  "ForceSetState m key st = SetState m key st"

section \<open>Model: the write-behind\<close>

definition maxWriteBatch :: nat where "maxWriteBatch = 4096"

fun chunks :: "nat \<Rightarrow> 'a list \<Rightarrow> 'a list list" where
  "chunks n xs = (if xs = [] \<or> n = 0 then [] else take n xs # chunks n (drop n xs))"

declare chunks.simps [simp del]

definition stamped :: "time \<Rightarrow> State \<Rightarrow> State" where
  "stamped now st = st\<lparr>st_UpdatedAt := unix_of now\<rparr>"

text \<open>One chunk: written, or counted as dropped once per key.\<close>

definition flush :: "bool \<Rightarrow> bool \<Rightarrow> states_map \<Rightarrow> store \<times> nat \<Rightarrow> store \<times> nat" where
  "flush leading ok batch acc =
     (if batch = [] then acc
      else if ok then (gated_SetStates leading (fst acc) batch, snd acc) else (fst acc, snd acc + length batch))"

fun flush_chunks :: "bool \<Rightarrow> (nat \<Rightarrow> bool) \<Rightarrow> nat \<Rightarrow> states_map list \<Rightarrow> store \<times> nat \<Rightarrow> store \<times> nat" where
  "flush_chunks leading oks i [] acc = acc"
| "flush_chunks leading oks i (c # cs) acc = flush_chunks leading oks (Suc i) cs (flush leading (oks i) c acc)"

definition flushPending :: "bool \<Rightarrow> (nat \<Rightarrow> bool) \<Rightarrow> serviceImpl \<Rightarrow> store \<Rightarrow> time \<Rightarrow> serviceImpl \<times> store \<times> nat" where
  "flushPending leading oks s m now =
     (if pending s = [] then (s, m, 0)
      else
        let batch = map (\<lambda>(k, st). (k, stamped now st)) (pending s);
            (m', lost) = flush_chunks leading oks 0 (chunks maxWriteBatch batch) (m, 0)
        in (s\<lparr>pending := []\<rparr>, m', lost))"

definition WriteQueueDepth :: "serviceImpl \<Rightarrow> nat" where
  "WriteQueueDepth s = length (pending s)"

section \<open>Model: resets\<close>

definition trim_slash :: "string \<Rightarrow> string" where
  "trim_slash s = (if s \<noteq> [] \<and> last s = CHR ''/'' then butlast s else s)"

definition sameURL :: "string \<Rightarrow> string \<Rightarrow> bool" where
  "sameURL a b \<longleftrightarrow> trim_slash a = trim_slash b"

definition hostOf :: "string \<Rightarrow> string" where
  "hostOf s =
     (let s = (case str_after ''://'' s of Some rest \<Rightarrow> rest | None \<Rightarrow> s);
          s = takeWhile (\<lambda>c. c \<noteq> CHR ''/'') s
      in case str_before_last CHR '':'' s of Some host \<Rightarrow> host | None \<Rightarrow> s)"

definition before_scheme :: "string \<Rightarrow> string option" where
  "before_scheme s = map_option (\<lambda>rest. take (length s - length rest - 3) s) (str_after ''://'' s)"

definition resetTargets :: "string \<Rightarrow> string \<Rightarrow> bool" where
  "resetTargets key target =
     (if target = [] then False
      else if key = target then True
      else
        let ident = (case str_before_last CHR ''|'' key of Some i \<Rightarrow> i | None \<Rightarrow> key) in
        if sameURL ident target then True
        else
          let host = hostOf ident in
          if host \<noteq> [] \<and> host = hostOf target \<and> CHR ''/'' \<notin> set target \<and> CHR ''|'' \<notin> set target then True
          else if (case before_scheme target of None \<Rightarrow> False | Some p \<Rightarrow> CHR ''-'' \<notin> set p) then False
          else if (case URL target of None \<Rightarrow> False | Some url \<Rightarrow> sameURL url ident \<or> (host \<noteq> [] \<and> hostOf url = host)) then True
          else Supplier target = ident)"

datatype reset_error = ErrNoScore | ErrStorageWrite

definition reset_shard :: "serviceImpl \<Rightarrow> service_id \<Rightarrow> string \<Rightarrow> (service_id, states_map) gomap \<Rightarrow> (service_id, states_map) gomap" where
  "reset_shard s sid target c =
     (case map_of c sid of
        None \<Rightarrow> c
      | Some m \<Rightarrow> AList.update sid (map (\<lambda>(k, st). (k, if resetTargets k target then fresh_state (InitialScore s) else st)) m) c)"

definition reset_keys :: "serviceImpl \<Rightarrow> service_id \<Rightarrow> string \<Rightarrow> string list" where
  "reset_keys s sid target = filter (\<lambda>k. resetTargets k target) (map fst (all_states s sid))"

text \<open>The forced writes go past the leader gate, one round trip per key; \<open>oks\<close> says which succeed. The
  order in which the keys are listed is not modelled.\<close>

definition forced_writes :: "service_id \<Rightarrow> State \<Rightarrow> (string \<Rightarrow> bool) \<Rightarrow> time \<Rightarrow> string list \<Rightarrow> store \<Rightarrow> store" where
  "forced_writes sid st oks now keys m =
     fold (\<lambda>k m. if oks k then ForceSetState m (scoreKey sid k) (stamped now st) else m) keys m"

definition ResetMatching :: "serviceImpl \<Rightarrow> store \<Rightarrow> (string \<Rightarrow> bool) \<Rightarrow> service_id \<Rightarrow> string \<Rightarrow> time \<Rightarrow>
    serviceImpl \<times> store \<times> string list \<times> reset_error option" where
  "ResetMatching s m oks sid target now =
     (let keys = reset_keys s sid target in
      if keys = [] then (s, m, [], Some ErrNoScore)
      else
        let s' = s\<lparr>cache := (\<lambda>i. if i < scoreShards then reset_shard s sid target (cache s i) else cache s i)\<rparr>;
            m' = forced_writes sid (fresh_state (InitialScore s)) oks now keys m
        in (s', m', keys, (if \<forall>k \<in> set keys. oks k then None else Some ErrStorageWrite)))"

definition ResetScore :: "serviceImpl \<Rightarrow> store \<Rightarrow> (string \<Rightarrow> bool) \<Rightarrow> service_id \<Rightarrow> endpoint_addr \<Rightarrow> time \<Rightarrow>
    serviceImpl \<times> store \<times> reset_error option" where
  "ResetScore s m oks sid endpoint now =
     (case ResetMatching s m oks sid endpoint now of (s', m', keys, err) \<Rightarrow> (s', m', err))"

definition ResetOperator :: "serviceImpl \<Rightarrow> service_id \<Rightarrow> string \<Rightarrow> time \<Rightarrow> nat \<times> serviceImpl" where
  "ResetOperator s sid operator now = (case op_reset (ops s) sid operator now of (n, t) \<Rightarrow> (n, s\<lparr>ops := t\<rparr>))"

section \<open>Model: operator evidence in storage, and the admin listing\<close>

definition gated_SetOperatorStat :: "bool \<Rightarrow> bool \<Rightarrow> (string, OperatorStat) gomap \<Rightarrow> string \<Rightarrow> OperatorStat \<Rightarrow> (string, OperatorStat) gomap" where
  "gated_SetOperatorStat leading ok m field st = (if leading \<and> ok then AList.update field st m else m)"

definition flushOperatorStats :: "bool \<Rightarrow> (opID \<Rightarrow> bool) \<Rightarrow> serviceImpl \<Rightarrow> (string, OperatorStat) gomap \<Rightarrow> time \<Rightarrow>
    serviceImpl \<times> (string, OperatorStat) gomap" where
  "flushOperatorStats leading oks s m now =
     (case takeDirty (ops s) now of (taken, t) \<Rightarrow>
       (s\<lparr>ops := t\<rparr>,
        fold (\<lambda>((svc, op, rpc), st) m. gated_SetOperatorStat leading (oks (svc, op, rpc)) m (OperatorField svc op rpc) st) taken m))"

definition OperatorRate :: "serviceImpl \<Rightarrow> service_id \<Rightarrow> rpc_type \<Rightarrow> string \<Rightarrow> time \<Rightarrow> (real \<times> nat) option" where
  "OperatorRate s sid rpc operator now =
     (if rpc = RPCTypeWebSocket then None
      else case op_get (ops s) (sid, operator, rpc) now of
        None \<Rightarrow> None
      | Some st \<Rightarrow> let r = RateAt st now in if r = 0 then None else Some (r, nat \<lfloor>Attempts st\<rfloor>))"

record StateView =
  sw_Score :: real
  sw_Additive :: real
  sw_Rate :: real
  sw_Penalty :: real
  sw_Attempts :: "64 word"
  sw_TrafficAttempts :: "64 word"
  ProbeOnly :: bool
  sw_LatencyMS :: real
  sw_OperatorRate :: real
  StalePenalty :: real
  TrustPenalty :: real
  sw_PolicyPenalty :: real

definition state_view :: "psl \<Rightarrow> owner_table \<Rightarrow> serviceImpl \<Rightarrow> service_id \<Rightarrow> time \<Rightarrow> string \<Rightarrow> State \<Rightarrow> StateView" where
  "state_view psl tbl s sid now key st =
     (case partyPenalties psl tbl (chronic s) sid key of (stale, trust) \<Rightarrow>
       \<lparr>sw_Score = score_of_state psl tbl s sid key st, sw_Additive = st_Score st, sw_Rate = st_Rate st,
        sw_Penalty = penaltyFor (rate (sv_scoring s)) (chronic s) sid key (st_Rate st), sw_Attempts = st_Attempts st,
        sw_TrafficAttempts = st_TrafficAttempts st, ProbeOnly = (st_TrafficAttempts st = 0), sw_LatencyMS = st_LatencyMS st,
        sw_OperatorRate = (case OperatorRate s sid (rpcOfKey key) (operatorOfKey psl key) now of None \<Rightarrow> 0 | Some (r, n) \<Rightarrow> r),
        StalePenalty = stale, TrustPenalty = trust, sw_PolicyPenalty = policyPenalty psl tbl (chronic s) sid key\<rparr>)"

definition GetStates :: "psl \<Rightarrow> owner_table \<Rightarrow> serviceImpl \<Rightarrow> service_id \<Rightarrow> time \<Rightarrow> (string, StateView) gomap" where
  "GetStates psl tbl s sid now = map (\<lambda>(key, st). (key, state_view psl tbl s sid now key st)) (all_states s sid)"

section \<open>Model: loading at start-up\<close>

record HydrateResult =
  hr_Keys :: nat
  hr_Services :: "service_id list"
  hr_Skipped :: nat
  hr_Stale :: nat
  hr_Unparseable :: nat
  hr_Present :: nat
  hr_OverBound :: nat

definition no_result :: HydrateResult where
  "no_result = \<lparr>hr_Keys = 0, hr_Services = [], hr_Skipped = 0, hr_Stale = 0, hr_Unparseable = 0, hr_Present = 0, hr_OverBound = 0\<rparr>"

datatype load_outcome = Loaded | Skip_Stale | Skip_Unparseable | Skip_Present | Skip_OverBound

definition splitScoreKey :: "string \<Rightarrow> (service_id \<times> string) option" where
  "splitScoreKey field =
     (case str_cut CHR '':'' field of (sid, key, found) \<Rightarrow> if \<not> found \<or> sid = [] \<or> key = [] then None else Some (sid, key))"

definition fresh :: "State \<Rightarrow> time \<Rightarrow> bool" where
  "fresh st cutoff \<longleftrightarrow> (if st_UpdatedAt st \<le> 0 then False else time_unix (st_UpdatedAt st) > cutoff)"

definition loadState :: "serviceImpl \<Rightarrow> service_id \<Rightarrow> string \<Rightarrow> State \<Rightarrow> serviceImpl \<times> load_outcome" where
  "loadState s sid key st =
     (if StateIdleTTL s < 0 then (s, Skip_Stale)
      else
        let i = shard key; m = inner (cache s i) sid in
        if map_of m key \<noteq> None then (s, Skip_Present)
        else
          let m' = (if length m \<ge> maxScoresPerServiceShard then pruneUninformative s m else m) in
          if length m' \<ge> maxScoresPerServiceShard then (put_states s i sid m', Skip_OverBound)
          else (put_states s i sid (AList.update key st m'), Loaded))"

definition hydrate_one :: "time \<Rightarrow> serviceImpl \<Rightarrow> string \<Rightarrow> State \<Rightarrow> serviceImpl \<times> load_outcome" where
  "hydrate_one cutoff s field st =
     (case splitScoreKey field of
        None \<Rightarrow> (s, Skip_Unparseable)
      | Some (sid, key) \<Rightarrow> if \<not> fresh st cutoff then (s, Skip_Stale) else loadState s sid key st)"

fun count_outcome :: "load_outcome \<Rightarrow> service_id \<Rightarrow> HydrateResult \<Rightarrow> HydrateResult" where
  "count_outcome Loaded sid r = r\<lparr>hr_Keys := hr_Keys r + 1, hr_Services := List.insert sid (hr_Services r)\<rparr>"
| "count_outcome Skip_Stale sid r = r\<lparr>hr_Stale := hr_Stale r + 1, hr_Skipped := hr_Skipped r + 1\<rparr>"
| "count_outcome Skip_Unparseable sid r = r\<lparr>hr_Unparseable := hr_Unparseable r + 1, hr_Skipped := hr_Skipped r + 1\<rparr>"
| "count_outcome Skip_Present sid r = r\<lparr>hr_Present := hr_Present r + 1, hr_Skipped := hr_Skipped r + 1\<rparr>"
| "count_outcome Skip_OverBound sid r = r\<lparr>hr_OverBound := hr_OverBound r + 1, hr_Skipped := hr_Skipped r + 1\<rparr>"

fun hydrate_states :: "time \<Rightarrow> serviceImpl \<Rightarrow> store \<Rightarrow> HydrateResult \<Rightarrow> serviceImpl \<times> HydrateResult" where
  "hydrate_states cutoff s [] r = (s, r)"
| "hydrate_states cutoff s ((field, st) # rest) r =
     (case hydrate_one cutoff s field st of (s', out) \<Rightarrow>
       hydrate_states cutoff s' rest
         (count_outcome out (case splitScoreKey field of None \<Rightarrow> [] | Some (sid, _) \<Rightarrow> sid) r))"

definition Hydrate_states :: "serviceImpl \<Rightarrow> store \<Rightarrow> time \<Rightarrow> serviceImpl \<times> HydrateResult" where
  "Hydrate_states s m now = hydrate_states (now - StateIdleTTL s) s m no_result"

section \<open>Lemmas: keys\<close>

lemma splitScoreKey_scoreKey:
  assumes "CHR '':'' \<notin> set sid" "sid \<noteq> []" "key \<noteq> []"
  shows "splitScoreKey (scoreKey sid key) = Some (sid, key)"
  using assms by (simp add: splitScoreKey_def scoreKey_def str_cut_found)

section \<open>Lemmas: the flush\<close>

lemma concat_chunks: "0 < n \<Longrightarrow> concat (chunks n xs) = xs"
proof (induction n xs rule: chunks.induct)
  case (1 n xs)
  then show ?case by (subst chunks.simps) (auto simp: append_take_drop_id)
qed

lemma chunks_bounded: "c \<in> set (chunks n xs) \<Longrightarrow> length c \<le> n \<and> c \<noteq> []"
proof (induction n xs rule: chunks.induct)
  case (1 n xs)
  then show ?case by (subst (asm) chunks.simps) (auto split: if_splits)
qed

lemma map_of_SetStates: "map_of (SetStates m batch) k = (case map_of (rev batch) k of Some st \<Rightarrow> Some st | None \<Rightarrow> map_of m k)"
  by (induction batch arbitrary: m) (auto simp: SetStates_def SetState_def gomap_simps map_add_def split: option.splits)

lemma SetStates_append: "SetStates m (xs @ ys) = SetStates (SetStates m xs) ys"
  by (simp add: SetStates_def)

lemma flush_chunks_all:
  assumes "\<And>i. oks i"
  shows "flush_chunks True oks i cs (m, n) = (SetStates m (concat cs), n)"
  by (induction cs arbitrary: i m) (auto simp: flush_def assms gated_SetStates_def SetStates_append SetStates_def [of _ "[]"])

lemma flush_chunks_none:
  assumes "\<And>i. \<not> oks i"
  shows "flush_chunks leading oks i cs (m, n) = (m, n + length (concat cs))"
  by (induction cs arbitrary: i n) (auto simp: flush_def assms)

end
