(* ===== verification/Rep_Refresh.thy ===== *)
theory Rep_Refresh
  imports Rep_Storage
begin

text \<open>
  The refresh that rebuilds the view (\<^verbatim>\<open>refreshBaselines\<close>, \<^verbatim>\<open>storeSeeds\<close>,
  \<^verbatim>\<open>medianOf\<close> of \<^verbatim>\<open>reputation/service.go\<close>, \<^verbatim>\<open>priceClasses\<close> of
  \<^verbatim>\<open>classshare.go\<close>), and the whole load at start-up (\<^verbatim>\<open>Hydrate\<close>,
  \<^verbatim>\<open>adoptPartyPenalties\<close>).

  What the outside world answers during one refresh (the peer's parties, the policy store, the shared
  notification counts, with the success of each round trip) is the record \<open>refresh_env\<close>.
\<close>

section \<open>Model: seeds\<close>

definition medianOf :: "real list \<Rightarrow> real" where
  "medianOf xs =
     (let ys = sort xs; h = length ys div 2 in
      if length ys mod 2 = 0 then (ys ! (h - 1) + ys ! h) / 2 else ys ! h)"

type_synonym entry = "service_id \<times> string \<times> State"

definition all_entries :: "serviceImpl \<Rightarrow> entry list" where
  "all_entries s =
     concat (map (\<lambda>i. concat (map (\<lambda>(svc, m). map (\<lambda>(key, st). (svc, key, st)) m) (cache s i))) [0..<scoreShards])"

definition collect_score :: "opID \<Rightarrow> real \<Rightarrow> (opID, real list) gomap \<Rightarrow> (opID, real list) gomap" where
  "collect_score oid x g = AList.update oid (inner g oid @ [x]) g"

definition op_seeds :: "psl \<Rightarrow> entry list \<Rightarrow> (opID, real list) gomap" where
  "op_seeds psl es = fold (\<lambda>(svc, key, st) g. collect_score (svc, operatorOfKey psl key, rpcOfKey key) (st_Score st) g) es []"

definition party_seeds :: "psl \<Rightarrow> owner_table \<Rightarrow> entry list \<Rightarrow> (opID, real list) gomap" where
  "party_seeds psl tbl es =
     fold (\<lambda>(svc, key, st) g.
       let op = operatorOfKey psl key; party = PartyOfOperator tbl op in
       if party \<noteq> op then collect_score (svc, party, rpcOfKey key) (st_Score st) g else g) es []"

definition medians_below :: "real \<Rightarrow> (opID, real list) gomap \<Rightarrow> (opID, real) gomap" where
  "medians_below initial g = filter (\<lambda>(oid, m). \<not> m \<ge> initial) (map (\<lambda>(oid, xs). (oid, medianOf xs)) g)"

definition flags_at :: "svc_gate \<Rightarrow> service_id list \<Rightarrow> (service_id, bool) gomap" where
  "flags_at gate svcs = (case gate of None \<Rightarrow> [] | Some g \<Rightarrow> map (\<lambda>svc. (svc, g svc)) (remdups svcs))"

definition storeSeeds :: "serviceImpl \<Rightarrow> (opID, real list) gomap \<Rightarrow> (opID, real list) gomap \<Rightarrow> chronicView \<Rightarrow> chronicView" where
  "storeSeeds s byOperator byParty v =
     (let o' = medians_below (InitialScore s) byOperator; p = medians_below (InitialScore s) byParty;
          svcs = map (\<lambda>((svc, x, y), m). svc) (o' @ p)
      in if svcs = [] then v
         else v\<lparr>opSeed := o', partySeed := p, seedGate := sv_seedGate s, seedOn := flags_at (sv_seedGate s) svcs\<rparr>)"

section \<open>Model: baselines\<close>

record keyState_rep =
  ks_svc :: service_id
  ks_key :: string
  ks_op :: opID
  ks_rate :: real
  wellAttempted :: bool

definition baselineMinAttempts :: nat where "baselineMinAttempts = 1000"

definition key_states :: "psl \<Rightarrow> entry list \<Rightarrow> keyState_rep list" where
  "key_states psl es =
     map (\<lambda>(svc, key, st). \<lparr>ks_svc = svc, ks_key = key, ks_op = (svc, operatorOfKey psl key, rpcOfKey key),
            ks_rate = st_Rate st, wellAttempted = (unat (st_Attempts st) \<ge> baselineMinAttempts)\<rparr>)
       (filter (\<lambda>(svc, key, st). st_Score st \<noteq> 0) es)"

definition op_rates :: "(opID, OperatorStat) gomap \<Rightarrow> time \<Rightarrow> (opID, real \<times> nat) gomap" where
  "op_rates st now =
     map (\<lambda>(oid, s). (oid, (RateAt s now, nat \<lfloor>Attempts s\<rfloor>)))
       (filter (\<lambda>((svc, op, rpc), s). rpc \<noteq> RPCTypeWebSocket \<and> RateAt s now > 0) st)"

definition op_services :: "svc_gate \<Rightarrow> keyState_rep list \<Rightarrow> (service_id, bool) gomap" where
  "op_services operator ks = fold (\<lambda>k m. if gate_on operator (ks_svc k) then AList.update (ks_svc k) True m else m) ks []"

record pool_scan =
  sc_byKey :: "(service_id \<times> string, real) gomap"
  sc_pools :: "(service_id \<times> string, real \<times> nat) gomap"
  sc_seen :: "opID list"

definition pool_vote :: "service_id \<times> string \<Rightarrow> real \<Rightarrow> pool_scan \<Rightarrow> pool_scan" where
  "pool_vote pool r sc =
     sc\<lparr>sc_pools := AList.update pool
        (case map_of (sc_pools sc) pool of None \<Rightarrow> (r, 1) | Some (m, n) \<Rightarrow> (min m r, n + 1)) (sc_pools sc)\<rparr>"

definition pool_step :: "(service_id, bool) gomap \<Rightarrow> (opID, real \<times> nat) gomap \<Rightarrow> keyState_rep \<Rightarrow> pool_scan \<Rightarrow> pool_scan" where
  "pool_step on byOp k sc =
     (let pool = (ks_svc k, rpcOfKey (ks_key k)) in
      if map_of on (ks_svc k) = Some True
      then (case map_of byOp (ks_op k) of
              None \<Rightarrow> sc
            | Some (r, n) \<Rightarrow>
                let sc = sc\<lparr>sc_byKey := AList.update (ks_svc k, ks_key k) r (sc_byKey sc)\<rparr> in
                if ks_op k \<in> set (sc_seen sc) \<or> n < baselineMinAttempts then sc
                else pool_vote pool r (sc\<lparr>sc_seen := ks_op k # sc_seen sc\<rparr>))
      else if \<not> wellAttempted k then sc else pool_vote pool (ks_rate k) sc)"

definition scan_pools :: "(service_id, bool) gomap \<Rightarrow> (opID, real \<times> nat) gomap \<Rightarrow> keyState_rep list \<Rightarrow> pool_scan" where
  "scan_pools on byOp ks = fold (pool_step on byOp) ks \<lparr>sc_byKey = [], sc_pools = [], sc_seen = []\<rparr>"

definition baselines :: "svc_gate \<Rightarrow> (service_id \<times> string, real \<times> nat) gomap \<Rightarrow> (service_id \<times> string, real) gomap" where
  "baselines relative pools =
     map (\<lambda>(pid, (m, n)). (pid, m)) (filter (\<lambda>((svc, rpc), (m, n)). n \<ge> 2 \<and> gate_on relative svc) pools)"

section \<open>Model: the penalties of a view\<close>

definition share_pens :: "PartyShare list \<Rightarrow> (opID, real) gomap" where
  "share_pens ps = fold (\<lambda>p m. if sh_Penalty p < 0 then AList.update (sh_ServiceID p, sh_Party p, []) (sh_Penalty p) m else m) ps []"

definition stale_pens :: "PartyStale list \<Rightarrow> (opID, real) gomap" where
  "stale_pens ps = fold (\<lambda>p m. if ps_Penalty p < 0 then AList.update (ps_ServiceID p, ps_Party p, []) (ps_Penalty p) m else m) ps []"

definition trust_pens :: "PartyTrust list \<Rightarrow> (string, real) gomap" where
  "trust_pens ps = fold (\<lambda>t m. if tr_Penalty t < 0 then AList.update (tr_Party t) (tr_Penalty t) m else m) ps []"

definition policy_pens :: "PolicyPenalty list \<Rightarrow> (string, real) gomap" where
  "policy_pens ps =
     fold (\<lambda>p m. if pol_Penalty p < 0 then AList.update (pol_Party p) (min (pen_of m (pol_Party p)) (pol_Penalty p)) m else m) ps []"

definition price_class :: "serviceImpl \<Rightarrow> chronicView option \<Rightarrow> time \<Rightarrow> string \<times> opTracker \<Rightarrow> string \<times> PartyShare list" where
  "price_class s prev now ct =
     (fst ct, priceShares (fst (op_snapshot (snd ct) now)) classRule (classGate s) (classLimits s)
        (case prev of None \<Rightarrow> [] | Some v \<Rightarrow> inner (cv_classes v) (fst ct)) now)"

definition priceClasses :: "serviceImpl \<Rightarrow> chronicView option \<Rightarrow> time \<Rightarrow> chronicView \<Rightarrow> chronicView" where
  "priceClasses s prev now v =
     (let cs = map (price_class s prev now) (classes s) in
      v\<lparr>cv_classes := cs, classPen := filter (\<lambda>(c, m). m \<noteq> []) (map (\<lambda>(c, ps). (c, share_pens ps)) cs)\<rparr>)"

record refresh_env =
  env_peer :: PartyPenalties
  env_policy :: policy_store
  env_policy_ok :: bool
  env_notes :: "(string, NotificationCounts) gomap option"
  env_put_ok :: bool
  env_read_ok :: bool
  env_del_ok :: bool

definition charges :: "chronicView \<Rightarrow> bool" where
  "charges v \<longleftrightarrow> stalePen v \<noteq> [] \<or> trustPen v \<noteq> [] \<or> dupPen v \<noteq> [] \<or> policyPen v \<noteq> [] \<or> throttlePen v \<noteq> [] \<or> classPen v \<noteq> []"

definition with_parties :: "psl \<Rightarrow> owner_table \<Rightarrow> serviceImpl \<Rightarrow> keyState_rep list \<Rightarrow> chronicView \<Rightarrow> chronicView" where
  "with_parties psl tbl s ks v =
     (if \<not> charges v then v
      else
        let svcs = map ks_svc ks in
        v\<lparr>trustGate := sv_trustGate s, trustOn := flags_at (sv_trustGate s) svcs,
          wsGate := partyWSGate s, wsOn := flags_at (partyWSGate s) svcs,
          policyGate := sv_policyGate s, policyOn := flags_at (sv_policyGate s) svcs,
          keyParty := fold (\<lambda>k m. AList.update (ks_key k) (PartyOfOperator tbl (fst (snd (ks_op k)))) m) ks [],
          keyOp := fold (\<lambda>k m. AList.update (ks_key k) (fst (snd (ks_op k))) m) ks []\<rparr>)"

section \<open>Model: the refresh\<close>

definition prev_of :: "(chronicView \<Rightarrow> 'a list) \<Rightarrow> serviceImpl \<Rightarrow> 'a list" where
  "prev_of f s = (case chronic s of None \<Rightarrow> [] | Some v \<Rightarrow> f v)"

text \<open>The result is the service with its new view, the priced parties handed to storage, and the shared
  notification counts. The trackers forget what has decayed away when they are read.\<close>

definition refreshBaselines :: "psl \<Rightarrow> owner_table \<Rightarrow> serviceImpl \<Rightarrow> refresh_env \<Rightarrow> time \<Rightarrow>
    serviceImpl \<times> PartyPenalties \<times> (string, NotificationCounts) gomap option" where
  "refreshBaselines psl tbl s env now =
     (let es = all_entries s; ks = key_states psl es;
          (opStats, ops') = op_snapshot (ops s) now;
          on = op_services (operatorGate s) ks;
          sc = scan_pools on (op_rates opStats now) ks;
          v = storeSeeds s (op_seeds psl es) (party_seeds psl tbl es) (empty_view\<lparr>byKey := sc_byKey sc, opOn := on\<rparr>);
          (headStats, heads') = op_snapshot (heads s) now;
          (refStats, refusals') = op_snapshot (refusals s) now;
          stale0 = partyStale headStats (staleGate s) (prev_of cv_stale s) now;
          trust0 = partyTrust stale0 refStats (prev_of cv_trust s) now (staleGate s);
          (stale, trust) = (if pp_Stale (env_peer env) = [] \<and> pp_Trust (env_peer env) = [] then (stale0, trust0)
             else mergePeerParties stale0 trust0 (env_peer env) (\<lambda>svc. svc \<in> set (map ks_svc ks)) (staleGate s) now);
          (dupStats, notes', dups') = fleetDuplicates (dups s) (env_notes env) (instanceID s)
             (env_put_ok env) (env_read_ok env) (env_del_ok env) now;
          dup = priceShares dupStats dupRule (dupGate s) (dupLimits s) (prev_of cv_dup s) now;
          (thStats, throttles') = op_snapshot (throttles s) now;
          throttle = priceShares thStats throttleRule (throttleGate s) (throttleLimits s) (prev_of cv_throttle s) now;
          policy = policyPenalties (env_policy env) (env_policy_ok env) (prev_of cv_policy s) now;
          v = v\<lparr>cv_stale := stale, stalePen := stale_pens stale, cv_trust := trust, trustPen := trust_pens trust,
                cv_dup := dup, dupPen := share_pens dup, cv_throttle := throttle, throttlePen := share_pens throttle,
                cv_policy := policy, policyPen := policy_pens policy\<rparr>;
          v = priceClasses s (chronic s) now v;
          v = with_parties psl tbl s ks v;
          v = v\<lparr>baseline := baselines (relativeGate s) (sc_pools sc)\<rparr>;
          s' = s\<lparr>chronic := Some v, ops := ops', heads := heads', refusals := refusals', dups := dups', throttles := throttles',
                 classes := map (\<lambda>(c, t). (c, snd (op_snapshot t now))) (classes s)\<rparr>
      in (s', storePartyPenalties stale trust, notes'))"

section \<open>Model: start-up\<close>

definition adoptPartyPenalties :: "psl \<Rightarrow> owner_table \<Rightarrow> serviceImpl \<Rightarrow> PartyPenalties option \<Rightarrow> refresh_env \<Rightarrow> time \<Rightarrow> serviceImpl \<times> nat" where
  "adoptPartyPenalties psl tbl s stored env now =
     (case stored of
        None \<Rightarrow> (s, 0)
      | Some p \<Rightarrow>
          if pp_Stale p = [] \<and> pp_Trust p = [] then (s, 0)
          else
            let seed = empty_view\<lparr>cv_stale := fst (adopted p), cv_trust := snd (adopted p)\<rparr>;
                s = (if (case chronic s of None \<Rightarrow> True | Some v \<Rightarrow> cv_stale v = [] \<and> cv_trust v = [])
                     then s\<lparr>chronic := Some seed\<rparr> else s)
            in (fst (refreshBaselines psl tbl s env now), length (pp_Stale p) + length (pp_Trust p)))"

definition Hydrate :: "psl \<Rightarrow> owner_table \<Rightarrow> serviceImpl \<Rightarrow> store option \<Rightarrow> (string, OperatorStat) gomap option \<Rightarrow>
    PartyPenalties option \<Rightarrow> refresh_env \<Rightarrow> time \<Rightarrow> serviceImpl \<times> (HydrateResult \<times> nat \<times> nat) option" where
  "Hydrate psl tbl s stored opStored parties env now =
     (case stored of
        None \<Rightarrow> (s, None)
      | Some m \<Rightarrow>
          (case Hydrate_states s m now of (s, r) \<Rightarrow>
            let (nOps, s) = (case opStored of None \<Rightarrow> (0, s)
                 | Some o' \<Rightarrow> (case op_merge (ops s) o' now of (n, t) \<Rightarrow> (n, s\<lparr>ops := t\<rparr>)));
                (s, nParties) = adoptPartyPenalties psl tbl s parties env now
            in (s, Some (r, nOps, nParties))))"

section \<open>Lemmas: the invariant\<close>

definition state_ok :: "State \<Rightarrow> bool" where
  "state_ok st \<longleftrightarrow> 0 \<le> st_Score st \<and> st_Score st \<le> 100 \<and> 0 \<le> st_Rate st \<and> st_Rate st \<le> 1"

definition states_ok :: "states_map \<Rightarrow> bool" where
  "states_ok m \<longleftrightarrow> (\<forall>e \<in> set m. state_ok (snd e))"

definition cache_ok :: "(nat \<Rightarrow> (service_id, states_map) gomap) \<Rightarrow> bool" where
  "cache_ok c \<longleftrightarrow> (\<forall>i. \<forall>e \<in> set (c i). states_ok (snd e))"

definition seeds_ok :: "(opID, real) gomap \<Rightarrow> bool" where
  "seeds_ok m \<longleftrightarrow> (\<forall>e \<in> set m. 0 \<le> snd e \<and> snd e \<le> 100)"

definition chronic_ok :: "chronicView option \<Rightarrow> bool" where
  "chronic_ok vo \<longleftrightarrow> (case vo of None \<Rightarrow> True | Some v \<Rightarrow> view_ok v \<and> seeds_ok (opSeed v) \<and> seeds_ok (partySeed v))"

definition scoring_ok :: "scoring \<Rightarrow> bool" where
  "scoring_ok sc \<longleftrightarrow> (\<forall>x. Penalty (rate sc) x \<le> 0) \<and> Penalty (rate sc) 0 = 0 \<and> 0 \<le> lambda sc \<and> lambda sc \<le> 1"

definition service_ok :: "serviceImpl \<Rightarrow> bool" where
  "service_ok s \<longleftrightarrow> 0 \<le> InitialScore s \<and> InitialScore s \<le> 100 \<and> scoring_ok (sv_scoring s) \<and> 0 \<le> MinThreshold (sv_cfg s) \<and>
     cache_ok (cache s) \<and> states_ok (pending s) \<and> chronic_ok (chronic s)"

lemma states_ok_Nil [simp]: "states_ok []"
  by (simp add: states_ok_def)

lemma states_ok_update: "states_ok m \<Longrightarrow> state_ok st \<Longrightarrow> states_ok (AList.update k st m)"
  using set_update_subset [of k st m] by (fastforce simp: states_ok_def)

lemma states_ok_keep: "states_ok m \<Longrightarrow> states_ok (keep_entries P m)"
  by (auto simp: states_ok_def keep_entries_def)

lemma states_okD: "states_ok m \<Longrightarrow> map_of m k = Some st \<Longrightarrow> state_ok st"
  by (drule map_of_SomeD) (auto simp: states_ok_def)

lemma cache_ok_inner: "cache_ok c \<Longrightarrow> states_ok (inner (c i) sid)"
  unfolding cache_ok_def inner_def by (fastforce split: option.splits dest: map_of_SomeD)

lemma put_states_ok: "service_ok s \<Longrightarrow> states_ok m \<Longrightarrow> service_ok (put_states s i sid m)"
  using set_update_subset [of sid m "cache s i"] by (fastforce simp: service_ok_def put_states_def cache_ok_def)

lemma scoring_ok_new: "scoring_ok (newScoring i r)"
  using normal.penalty_range(2) normal.low [of 0] normal.onset Lambda_bounds
  by (auto simp: scoring_ok_def newScoring_def Let_def less_imp_le)

lemma seedFor_range:
  assumes "chronic_ok vo" and "seedFor tbl vo sid op rpc = Some x"
  shows "0 \<le> x \<and> x \<le> 100"
proof -
  obtain v where v: "vo = Some v" using assms(2) by (cases vo) (auto simp: seedFor_def)
  have "0 \<le> y \<and> y \<le> 100" if "map_of (opSeed v) k = Some y \<or> map_of (partySeed v) k = Some y" for k y
    using that assms(1) by (auto simp: v chronic_ok_def seeds_ok_def dest!: map_of_SomeD)
  then show ?thesis using assms(2) by (auto simp: v seedFor_def Let_def split: option.splits if_splits)
qed

lemma initialScore_range: "service_ok s \<Longrightarrow> 0 \<le> initialScore psl tbl s sid key \<and> initialScore psl tbl s sid key \<le> 100"
  using seedFor_range [of "chronic s"] by (auto simp: initialScore_def service_ok_def split: option.splits)

lemma fresh_state_ok: "0 \<le> x \<Longrightarrow> x \<le> 100 \<Longrightarrow> state_ok (fresh_state x)"
  by (simp add: state_ok_def fresh_state_def)

lemma decayWSRate_bounds: "0 \<le> r \<Longrightarrow> 0 \<le> decayWSRate r l now \<and> decayWSRate r l now \<le> r"
proof -
  assume r: "0 \<le> r"
  have "2 powr (- (real_of_int dt / real_of_int wsRateHalfLife)) \<le> 1" if "0 < dt" for dt
    using that by (simp add: powr_le_one_le wsRateHalfLife_def powr_minus_divide ge_one_powr_ge_zero)
  then show ?thesis using r by (auto simp: decayWSRate_def Let_def mult_left_le)
qed

lemma signal_rate_bounds:
  assumes "scoring_ok sc" and "state_ok st"
  shows "0 \<le> signal_rate sc cfg rpc st sg ts \<and> signal_rate sc cfg rpc st sg ts \<le> 1"
proof -
  define r where "r = (if rpc = RPCTypeWebSocket then decayWSRate (st_Rate st) (st_UpdatedAt st) ts else st_Rate st)"
  have r: "0 \<le> r" "r \<le> 1"
    using assms(2) decayWSRate_bounds [of "st_Rate st" "st_UpdatedAt st" ts] by (auto simp: r_def state_ok_def)
  have l: "0 \<le> lambda sc" "lambda sc \<le> 1" using assms(1) by (auto simp: scoring_ok_def)
  have "0 \<le> r + lambda sc * (w - r) \<and> r + lambda sc * (w - r) \<le> 1" if w: "0 \<le> w" "w \<le> 1" for w
  proof -
    have "r + lambda sc * (w - r) = (1 - lambda sc) * r + lambda sc * w" by (simp add: algebra_simps)
    moreover have "(1 - lambda sc) * r \<le> 1 - lambda sc" "lambda sc * w \<le> lambda sc"
      using l r w by (simp_all add: mult_left_le)
    moreover have "0 \<le> (1 - lambda sc) * r" "0 \<le> lambda sc * w" using l r w by simp_all
    ultimately show ?thesis by (intro conjI; linarith)
  qed
  moreover have "0 \<le> r * (1 - lambda sc) ^ n \<and> r * (1 - lambda sc) ^ n \<le> 1" for n
    using r l power_le_one [of "1 - lambda sc" n] by (auto intro: mult_le_one)
  ultimately show ?thesis
    using r FailureWeight_bounds [of "Type sg"] by (simp add: signal_rate_def r_def [symmetric] Let_def)
qed

lemma signal_state_ok:
  assumes "scoring_ok sc" and "state_ok st"
  shows "state_ok (signal_state sc cfg rpc st sg ts)"
proof -
  have "0 \<le> st_Score (signal_score sc cfg st sg ts) \<and> st_Score (signal_score sc cfg st sg ts) \<le> 100"
    using assms(2) clamp_range by (auto simp: signal_score_def state_ok_def Let_def)
  then show ?thesis using signal_rate_bounds [OF assms] by (simp add: state_ok_def signal_state_def Let_def)
qed

lemma service_ok_frame:
  assumes "service_ok s" and "InitialScore s' = InitialScore s" and "sv_scoring s' = sv_scoring s" and "sv_cfg s' = sv_cfg s"
    and "cache s' = cache s" and "pending s' = pending s" and "chronic s' = chronic s"
  shows "service_ok s'"
  using assms by (simp add: service_ok_def)

lemma record_evidence_ok: "service_ok s \<Longrightarrow> service_ok (record_evidence psl tbl s sid ep rpc sg d ts)"
  by (erule service_ok_frame) (simp_all add: record_evidence_def Let_def)

lemma enqueue_ok: "service_ok s \<Longrightarrow> state_ok st \<Longrightarrow> service_ok (enqueue s f k st)"
  by (simp add: enqueue_def service_ok_def states_ok_update)

lemma prune_ok: "states_ok m \<Longrightarrow> states_ok (pruneUninformative s m)"
  by (simp add: pruneUninformative_def states_ok_keep)

lemma RecordSignal_ok:
  assumes "service_ok s"
  shows "service_ok (RecordSignal psl tbl f s sid ep rpc sg now)"
proof -
  let ?key = "key_of s ep rpc" and ?m = "inner (cache s (shard (key_of s ep rpc))) sid"
  have m: "states_ok ?m" using assms by (simp add: service_ok_def cache_ok_inner)
  have sc: "scoring_ok (sv_scoring s)" using assms by (simp add: service_ok_def)
  have init: "state_ok (fresh_state (initialScore psl tbl s sid ?key))"
    using initialScore_range [OF assms] by (simp add: fresh_state_ok)
  show ?thesis
    using states_okD [OF m] m init assms
    by (auto simp: RecordSignal_def Let_def split: option.splits
      intro!: enqueue_ok record_evidence_ok put_states_ok states_ok_update signal_state_ok [OF sc] prune_ok)
qed

lemma record_each_ok: "service_ok s \<Longrightarrow> service_ok (record_each psl tbl f s sid eps seen rpc sg now)"
  by (induction psl tbl f s sid eps seen rpc sg now rule: record_each.induct) (simp_all add: Let_def RecordSignal_ok)

lemma RecordSignalOnce_ok: "service_ok s \<Longrightarrow> service_ok (RecordSignalOnce psl tbl f s sid eps rpc sg now)"
  by (simp add: RecordSignalOnce_def RecordSignal_ok record_each_ok split: list.split)

lemma rebase_one_ok:
  assumes "service_ok s"
  shows "service_ok (fst (rebase_one f s sid k))"
proof -
  have m: "states_ok (inner (cache s (shard k)) sid)" using assms by (simp add: service_ok_def cache_ok_inner)
  let ?st = "case map_of (inner (cache s (shard k)) sid) k of Some st \<Rightarrow> st | None \<Rightarrow> fresh_state (InitialScore s)"
  have "state_ok ?st" using states_okD [OF m] assms by (auto simp: service_ok_def fresh_state_ok split: option.split)
  then have "state_ok (?st\<lparr>st_Score := MinThreshold (sv_cfg s)\<rparr>)" if "st_Score ?st > MinThreshold (sv_cfg s)"
    using that assms by (auto simp: state_ok_def service_ok_def)
  then show ?thesis using m assms
    by (auto simp: rebase_one_def Let_def intro!: enqueue_ok put_states_ok states_ok_update)
qed

lemma rebase_keys_ok: "service_ok s \<Longrightarrow> service_ok (fst (rebase_keys f s sid ks))"
proof (induction f s sid ks rule: rebase_keys.induct)
  case (1 f s sid)
  then show ?case by simp
next
  case (2 f s sid k ks)
  then show ?case using rebase_one_ok [of s f sid k] by (auto split: prod.splits)
qed

lemma RebaseAfterDrain_ok: "service_ok s \<Longrightarrow> service_ok (fst (RebaseAfterDrain f s sid eps rpc))"
  by (simp add: RebaseAfterDrain_def rebase_keys_ok)

lemma reset_shard_ok:
  assumes "\<forall>e \<in> set c. states_ok (snd e)" and "state_ok (fresh_state (InitialScore s))"
  shows "\<forall>e \<in> set (reset_shard s sid target c). states_ok (snd e)"
proof (cases "map_of c sid")
  case None
  then show ?thesis using assms by (simp add: reset_shard_def)
next
  case (Some m)
  have "states_ok m" using assms(1) Some by (fastforce dest: map_of_SomeD)
  then have "states_ok (map (\<lambda>(k, st). (k, if resetTargets k target then fresh_state (InitialScore s) else st)) m)"
    using assms(2) by (auto simp: states_ok_def)
  then show ?thesis using assms(1) set_update_subset [of sid _ c] by (fastforce simp: reset_shard_def Some)
qed

lemma ResetMatching_ok:
  assumes "service_ok s"
  shows "service_ok (fst (ResetMatching s m oks sid target now))"
proof -
  have "state_ok (fresh_state (InitialScore s))" using assms by (simp add: service_ok_def fresh_state_ok)
  then have "\<forall>e \<in> set (reset_shard s sid target (cache s i)). states_ok (snd e)" for i
    using assms by (intro reset_shard_ok) (simp_all add: service_ok_def cache_ok_def)
  then have "cache_ok (\<lambda>i. if i < scoreShards then reset_shard s sid target (cache s i) else cache s i)"
    using assms by (simp add: service_ok_def cache_ok_def)
  then show ?thesis using assms by (auto simp: ResetMatching_def Let_def service_ok_def)
qed

lemma flushPending_ok: "service_ok s \<Longrightarrow> service_ok (fst (flushPending l oks s m now))"
  by (auto simp: flushPending_def Let_def service_ok_def split: prod.splits)

lemma loadState_ok:
  assumes "service_ok s" and "state_ok st"
  shows "service_ok (fst (loadState s sid key st))"
proof -
  have "states_ok (inner (cache s (shard key)) sid)" using assms(1) by (simp add: service_ok_def cache_ok_inner)
  then show ?thesis using assms by (auto simp: loadState_def Let_def intro!: put_states_ok states_ok_update prune_ok)
qed

lemma hydrate_one_ok: "service_ok s \<Longrightarrow> state_ok st \<Longrightarrow> service_ok (fst (hydrate_one c s f st))"
  by (auto simp: hydrate_one_def loadState_ok split: option.split)

lemma hydrate_states_ok: "service_ok s \<Longrightarrow> states_ok m \<Longrightarrow> service_ok (fst (hydrate_states c s m r))"
proof (induction c s m r rule: hydrate_states.induct)
  case (1 c s r)
  then show ?case by simp
next
  case (2 c s f st rest r)
  have "service_ok (fst (hydrate_one c s f st))" "states_ok rest"
    using 2 by (auto simp: states_ok_def intro: hydrate_one_ok)
  then show ?case using 2 by (auto split: prod.splits)
qed

section \<open>Lemmas: the refresh keeps the invariant\<close>

lemma pen_of_update: "pen_of (AList.update k p m) j = (if j = k then p else pen_of m j)"
  by (simp add: pen_of_def gomap_simps)

lemma pens_nonpos:
  assumes "\<And>k. pen_of m0 k \<le> 0"
  shows "pen_of (fold (\<lambda>p m. if f p < 0 then AList.update (g p) (f p) m else m) ps m0) k \<le> (0 :: real)"
  using assms by (induction ps arbitrary: m0) (auto simp: pen_of_update)

lemma pen_of_Nil [simp]: "pen_of [] k = 0"
  by (simp add: pen_of_def)

lemma view_pens_nonpos:
  "pen_of (share_pens ps) k \<le> 0" "pen_of (stale_pens ss) k \<le> 0" "pen_of (trust_pens ts) j \<le> 0"
  unfolding share_pens_def stale_pens_def trust_pens_def by (intro pens_nonpos, simp)+

lemma policy_pens_nonpos: "pen_of (policy_pens ps) k \<le> 0"
proof -
  have "(\<And>k. pen_of m0 k \<le> 0) \<Longrightarrow>
    pen_of (fold (\<lambda>p m. if pol_Penalty p < 0 then AList.update (pol_Party p) (min (pen_of m (pol_Party p)) (pol_Penalty p)) m else m) ps m0) k \<le> 0" for m0
    by (induction ps arbitrary: m0) (auto simp: pen_of_update min_le_iff_disj)
  then show ?thesis unfolding policy_pens_def by simp
qed

lemma inner_filter_nonempty: "inner (filter (\<lambda>(c, m). m \<noteq> []) cs) c = [] \<or> (\<exists>m. (c, m) \<in> set cs \<and> inner (filter (\<lambda>(c, m). m \<noteq> []) cs) c = m)"
  by (auto simp: inner_def split: option.splits dest!: map_of_SomeD)

lemma priceClasses_pens: "pen_of (inner (classPen (priceClasses s prev now v)) c) k \<le> 0"
proof -
  let ?cs = "map (\<lambda>(c, ps). (c, share_pens ps)) (map (price_class s prev now) (classes s))"
  have "classPen (priceClasses s prev now v) = filter (\<lambda>(c, m). m \<noteq> []) ?cs" by (simp add: priceClasses_def Let_def)
  then show ?thesis
    using inner_filter_nonempty [of ?cs c] by (auto simp: split_beta view_pens_nonpos)
qed

lemma medianOf_range:
  assumes "xs \<noteq> []" and "\<forall>x \<in> set xs. a \<le> x \<and> x \<le> b"
  shows "a \<le> medianOf xs \<and> medianOf xs \<le> b"
proof -
  have len: "length (sort xs) div 2 < length (sort xs)" using assms(1) by simp
  have bnd: "a \<le> sort xs ! i \<and> sort xs ! i \<le> b" if "i < length (sort xs)" for i
    using assms(2) that nth_mem [of i "sort xs"] by auto
  let ?h = "length (sort xs) div 2"
  have "a \<le> sort xs ! ?h" "sort xs ! ?h \<le> b" "a \<le> sort xs ! (?h - 1)" "sort xs ! (?h - 1) \<le> b"
    using bnd [OF len] bnd [of "?h - 1"] len by auto
  then show ?thesis unfolding medianOf_def Let_def by auto
qed

definition groups_ok :: "(opID, real list) gomap \<Rightarrow> bool" where
  "groups_ok g \<longleftrightarrow> (\<forall>e \<in> set g. snd e \<noteq> [] \<and> (\<forall>x \<in> set (snd e). 0 \<le> x \<and> x \<le> 100))"

lemma collect_score_ok: "groups_ok g \<Longrightarrow> 0 \<le> x \<Longrightarrow> x \<le> 100 \<Longrightarrow> groups_ok (collect_score oid x g)"
proof -
  assume g: "groups_ok g" and x: "0 \<le> x" "x \<le> 100"
  have "\<forall>y \<in> set (inner g oid). 0 \<le> y \<and> y \<le> 100"
  proof (cases "map_of g oid")
    case None
    then show ?thesis by (simp add: inner_def)
  next
    case (Some ys)
    then show ?thesis using g map_of_SomeD [OF Some] by (fastforce simp: groups_ok_def inner_def)
  qed
  then show ?thesis
    using g x set_update_subset [of oid "inner g oid @ [x]" g] by (fastforce simp: groups_ok_def collect_score_def)
qed

lemma seeds_groups_ok:
  assumes "\<forall>(svc, key, st) \<in> set es. state_ok st"
  shows "groups_ok (op_seeds psl es)" "groups_ok (party_seeds psl tbl es)"
proof -
  have "groups_ok g \<Longrightarrow> groups_ok (fold (\<lambda>(svc, key, st) g. if P svc key then collect_score (f svc key) (st_Score st) g else g) es g)" for P f g
    using assms
  proof (induction es arbitrary: g)
    case (Cons e es)
    then show ?case by (cases e) (auto simp: state_ok_def intro: collect_score_ok)
  qed simp
  note * = this [of "[]"]
  show "groups_ok (op_seeds psl es)"
    using * [of "\<lambda>svc key. True" "\<lambda>svc key. (svc, operatorOfKey psl key, rpcOfKey key)"]
    by (simp add: op_seeds_def groups_ok_def)
  show "groups_ok (party_seeds psl tbl es)"
    using * [of "\<lambda>svc key. PartyOfOperator tbl (operatorOfKey psl key) \<noteq> operatorOfKey psl key"
        "\<lambda>svc key. (svc, PartyOfOperator tbl (operatorOfKey psl key), rpcOfKey key)"]
    by (simp add: party_seeds_def groups_ok_def Let_def)
qed

lemma medians_below_ok: "groups_ok g \<Longrightarrow> seeds_ok (medians_below initial g)"
  using medianOf_range [of _ 0 100] by (fastforce simp: seeds_ok_def medians_below_def groups_ok_def)

lemma all_entries_ok: "cache_ok (cache s) \<Longrightarrow> \<forall>(svc, key, st) \<in> set (all_entries s). state_ok st"
  by (fastforce simp: all_entries_def cache_ok_def states_ok_def)

lemma storeSeeds_seeds:
  assumes "groups_ok go" "groups_ok gp" "seeds_ok (opSeed v)" "seeds_ok (partySeed v)"
  shows "seeds_ok (opSeed (storeSeeds s go gp v))" "seeds_ok (partySeed (storeSeeds s go gp v))"
  using assms medians_below_ok by (auto simp: storeSeeds_def Let_def)

lemma seeds_ok_empty [simp]: "seeds_ok (opSeed empty_view)" "seeds_ok (partySeed empty_view)"
  by (simp_all add: empty_view_def seeds_ok_def)

lemma with_parties_ok:
  "view_ok v \<Longrightarrow> view_ok (with_parties psl tbl s ks v)"
  "opSeed (with_parties psl tbl s ks v) = opSeed v" "partySeed (with_parties psl tbl s ks v) = partySeed v"
  by (simp_all add: with_parties_def view_ok_def Let_def)

lemma priceClasses_frame:
  "stalePen (priceClasses s prev now v) = stalePen v" "trustPen (priceClasses s prev now v) = trustPen v"
  "dupPen (priceClasses s prev now v) = dupPen v" "throttlePen (priceClasses s prev now v) = throttlePen v"
  "policyPen (priceClasses s prev now v) = policyPen v" "opSeed (priceClasses s prev now v) = opSeed v"
  "partySeed (priceClasses s prev now v) = partySeed v"
  by (simp_all add: priceClasses_def Let_def)

lemma refresh_view_ok:
  "view_ok (priceClasses s prev now (v\<lparr>cv_stale := stale, stalePen := stale_pens stale, cv_trust := trust, trustPen := trust_pens trust,
      cv_dup := dup, dupPen := share_pens dup, cv_throttle := throttle, throttlePen := share_pens throttle,
      cv_policy := policy, policyPen := policy_pens policy\<rparr>))"
  by (simp add: view_ok_def priceClasses_frame priceClasses_pens view_pens_nonpos policy_pens_nonpos)

lemma view_ok_baseline: "view_ok (v\<lparr>baseline := b\<rparr>) = view_ok v"
  by (simp add: view_ok_def)

lemma refreshBaselines_ok:
  assumes "service_ok s"
  shows "service_ok (fst (refreshBaselines psl tbl s env now))"
proof -
  have g: "groups_ok (op_seeds psl (all_entries s))" "groups_ok (party_seeds psl tbl (all_entries s))"
    using seeds_groups_ok [OF all_entries_ok] assms by (auto simp: service_ok_def)
  show ?thesis
    using assms storeSeeds_seeds [OF g]
    by (simp add: refreshBaselines_def Let_def service_ok_def chronic_ok_def split_beta with_parties_ok refresh_view_ok
        priceClasses_frame view_ok_baseline)
qed

lemma adoptPartyPenalties_ok: "service_ok s \<Longrightarrow> service_ok (fst (adoptPartyPenalties psl tbl s stored env now))"
  by (auto simp: adoptPartyPenalties_def Let_def split: option.split
      intro!: refreshBaselines_ok) (auto simp: service_ok_def chronic_ok_def view_ok_def empty_view_def seeds_ok_def)

lemma Hydrate_ok:
  assumes "service_ok s" and "\<And>m. stored = Some m \<Longrightarrow> states_ok m"
  shows "service_ok (fst (Hydrate psl tbl s stored opStored parties env now))"
proof (cases stored)
  case None
  then show ?thesis using assms by (simp add: Hydrate_def)
next
  case (Some m)
  obtain s1 r where h: "Hydrate_states s m now = (s1, r)" by fastforce
  have "service_ok s1" using hydrate_states_ok [OF assms(1) assms(2) [OF Some]] h by (metis Hydrate_states_def fst_conv)
  then have "service_ok (s1\<lparr>ops := t\<rparr>)" for t by (rule service_ok_frame) simp_all
  then show ?thesis using \<open>service_ok s1\<close> adoptPartyPenalties_ok
    by (auto simp: Hydrate_def Some h Let_def split: option.split prod.split) (metis fst_conv)+
qed

lemma NewService_ok:
  assumes "0 \<le> initial" "initial \<le> 100" "\<And>c. sel = Some c \<Longrightarrow> 0 \<le> MinThreshold c"
  shows "service_ok (NewService initial idle g i r sel)"
  using assms scoring_ok_new by (auto simp: service_ok_def NewService_def cache_ok_def chronic_ok_def DefaultSelectorConfig_def split: option.split)

lemma Retune_ok: "service_ok s \<Longrightarrow> 0 \<le> MinThreshold sel \<Longrightarrow> service_ok (Retune s i r sel cap)"
  using scoring_ok_new by (simp add: service_ok_def Retune_def)

end
