(* ===== verification/Rep_System.thy ===== *)
theory Rep_System
  imports Rep_Refresh
begin

text \<open>
  The reputation service beside its storage: the wiring calls (\<^verbatim>\<open>SetRelativeChronic\<close> and the
  others), the steps the process takes (\<open>rep_step\<close>: signals, resets, refreshes, flushes, sweeps, a
  restart that loads what was stored), and what holds of every state they reach. The write-behind
  of a leading replica is the smaller system \<open>wb_step\<close>.
\<close>

section \<open>Model: the wiring calls\<close>

definition SetRelativeChronic :: "serviceImpl \<Rightarrow> (service_id \<Rightarrow> bool) \<Rightarrow> serviceImpl" where
  "SetRelativeChronic s g = s\<lparr>relativeGate := Some g\<rparr>"

definition SetOperatorChronic :: "serviceImpl \<Rightarrow> (service_id \<Rightarrow> bool) \<Rightarrow> serviceImpl" where
  "SetOperatorChronic s g = s\<lparr>operatorGate := Some g\<rparr>"

definition SetStaleShare :: "serviceImpl \<Rightarrow> (service_id \<Rightarrow> bool) \<Rightarrow> serviceImpl" where
  "SetStaleShare s g = s\<lparr>staleGate := Some g\<rparr>"

definition SetTrustPenalty :: "serviceImpl \<Rightarrow> (service_id \<Rightarrow> bool) \<Rightarrow> serviceImpl" where
  "SetTrustPenalty s g = s\<lparr>sv_trustGate := Some g\<rparr>"

definition SetPartyPenaltiesWebsocket :: "serviceImpl \<Rightarrow> (service_id \<Rightarrow> bool) \<Rightarrow> serviceImpl" where
  "SetPartyPenaltiesWebsocket s g = s\<lparr>partyWSGate := Some g\<rparr>"

definition SetSeedFromOperator :: "serviceImpl \<Rightarrow> (service_id \<Rightarrow> bool) \<Rightarrow> serviceImpl" where
  "SetSeedFromOperator s g = s\<lparr>sv_seedGate := Some g\<rparr>"

definition SetPolicyPenaltyGate :: "serviceImpl \<Rightarrow> (service_id \<Rightarrow> bool) \<Rightarrow> serviceImpl" where
  "SetPolicyPenaltyGate s g = s\<lparr>sv_policyGate := Some g\<rparr>"

definition SetDuplicateShare :: "serviceImpl \<Rightarrow> (service_id \<Rightarrow> bool) \<Rightarrow> (service_id \<Rightarrow> real \<times> real) \<Rightarrow> serviceImpl" where
  "SetDuplicateShare s g l = s\<lparr>dupGate := Some g, dupLimits := Some l\<rparr>"

definition SetThrottleShare :: "serviceImpl \<Rightarrow> (service_id \<Rightarrow> bool) \<Rightarrow> (service_id \<Rightarrow> real \<times> real) \<Rightarrow> serviceImpl" where
  "SetThrottleShare s g l = s\<lparr>throttleGate := Some g, throttleLimits := Some l\<rparr>"

definition SetClassShare :: "serviceImpl \<Rightarrow> (service_id \<Rightarrow> bool) \<Rightarrow> (service_id \<Rightarrow> real \<times> real) \<Rightarrow> serviceImpl" where
  "SetClassShare s g l = s\<lparr>classGate := Some g, classLimits := Some l\<rparr>"

definition SetLatencyTieBreak_svc :: "serviceImpl \<Rightarrow> (service_id \<Rightarrow> bool) \<Rightarrow> serviceImpl" where
  "SetLatencyTieBreak_svc s g = s\<lparr>sv_latencyGate := Some g\<rparr>"

definition SetOperatorCap_svc :: "serviceImpl \<Rightarrow> OperatorCapConfig \<Rightarrow> (service_id \<Rightarrow> bool) \<Rightarrow> serviceImpl" where
  "SetOperatorCap_svc s c g = s\<lparr>sv_cap := c, sv_capGate := Some g\<rparr>"

definition SetInstanceID :: "serviceImpl \<Rightarrow> string \<Rightarrow> serviceImpl" where
  "SetInstanceID s i = s\<lparr>instanceID := i\<rparr>"

definition SetURLResolver :: "serviceImpl \<Rightarrow> string \<Rightarrow> (endpoint_addr \<Rightarrow> rpc_type \<Rightarrow> string option) \<Rightarrow> serviceImpl" where
  "SetURLResolver s granularity f = s\<lparr>key_of := keyFnFor granularity (Some f)\<rparr>"

inductive wiring :: "serviceImpl \<Rightarrow> serviceImpl \<Rightarrow> bool" where
  "wiring s (SetRelativeChronic s g)"
| "wiring s (SetOperatorChronic s g)"
| "wiring s (SetStaleShare s g)"
| "wiring s (SetTrustPenalty s g)"
| "wiring s (SetPartyPenaltiesWebsocket s g)"
| "wiring s (SetSeedFromOperator s g)"
| "wiring s (SetPolicyPenaltyGate s g)"
| "wiring s (SetDuplicateShare s g l)"
| "wiring s (SetThrottleShare s g l)"
| "wiring s (SetClassShare s g l)"
| "wiring s (SetLatencyTieBreak_svc s g)"
| "wiring s (SetOperatorCap_svc s c g)"
| "wiring s (SetInstanceID s i)"
| "wiring s (SetURLResolver s gr f)"

lemma wiring_ok: "wiring s s' \<Longrightarrow> service_ok s \<Longrightarrow> service_ok s'"
  by (erule wiring.cases; erule service_ok_frame;
      simp add: SetRelativeChronic_def SetOperatorChronic_def SetStaleShare_def SetTrustPenalty_def SetPartyPenaltiesWebsocket_def
        SetSeedFromOperator_def SetPolicyPenaltyGate_def SetDuplicateShare_def SetThrottleShare_def SetClassShare_def
        SetLatencyTieBreak_svc_def SetOperatorCap_svc_def SetInstanceID_def SetURLResolver_def)

section \<open>Model: the steps of the service and its storage\<close>

text \<open>A restart loses the process and keeps storage: a new service, which then hydrates.\<close>

inductive rep_step :: "serviceImpl \<times> store \<Rightarrow> serviceImpl \<times> store \<Rightarrow> bool" where
  rs_record: "rep_step (s, m) (RecordSignal psl tbl f s sid ep rpc sg now, m)"
| rs_once: "rep_step (s, m) (RecordSignalOnce psl tbl f s sid eps rpc sg now, m)"
| rs_rebase: "rep_step (s, m) (fst (RebaseAfterDrain f s sid eps rpc), m)"
| rs_reset: "ResetMatching s m oks sid target now = (s', m', keys, err) \<Longrightarrow> rep_step (s, m) (s', m')"
| rs_reset_op: "rep_step (s, m) (snd (ResetOperator s sid op now), m)"
| rs_head: "rep_step (s, m) (s\<lparr>heads := RecordHeadAnswer (heads s) sid party stale now\<rparr>, m)"
| rs_notes: "rep_step (s, m) (s\<lparr>dups := RecordNotifications (dups s) sid party n d now\<rparr>, m)"
| rs_flush: "flushPending leading oks s m now = (s', m', lost) \<Longrightarrow> rep_step (s, m) (s', m')"
| rs_flush_ops: "rep_step (s, m) (fst (flushOperatorStats leading opOks s mo now), m)"
| rs_sweep: "rep_step (s, m) (s, fst (gated_DeleteStale leading m olderThan))"
| rs_refresh: "rep_step (s, m) (fst (refreshBaselines psl tbl s env now), m)"
| rs_retune: "0 \<le> MinThreshold sel \<Longrightarrow> rep_step (s, m) (Retune s i r sel cap, m)"
| rs_wire: "wiring s s' \<Longrightarrow> rep_step (s, m) (s', m)"
| rs_restart: "0 \<le> initial \<Longrightarrow> initial \<le> 100 \<Longrightarrow> (\<And>c. sel = Some c \<Longrightarrow> 0 \<le> MinThreshold c) \<Longrightarrow>
    rep_step (s, m) (NewService initial idle g i r sel, m)"
| rs_hydrate: "rep_step (s, m) (fst (Hydrate psl tbl s (Some m) opStored parties env now), m)"

inductive rep_reachable :: "serviceImpl \<times> store \<Rightarrow> bool" where
  start: "0 \<le> initial \<Longrightarrow> initial \<le> 100 \<Longrightarrow> (\<And>c. sel = Some c \<Longrightarrow> 0 \<le> MinThreshold c) \<Longrightarrow>
    rep_reachable (NewService initial idle g i r sel, [])"
| next_step: "rep_reachable x \<Longrightarrow> rep_step x y \<Longrightarrow> rep_reachable y"

section \<open>Lemmas: the invariant of the system\<close>

lemma state_ok_stamped: "state_ok (stamped now st) = state_ok st"
  by (simp add: state_ok_def stamped_def)

lemma states_ok_stamped: "states_ok m \<Longrightarrow> states_ok (map (\<lambda>(k, st). (k, stamped now st)) m)"
  by (fastforce simp: states_ok_def state_ok_def stamped_def)

lemma states_ok_Cons: "states_ok (e # m) \<longleftrightarrow> state_ok (snd e) \<and> states_ok m"
  by (simp add: states_ok_def)

lemma SetStates_ok: "states_ok m \<Longrightarrow> states_ok batch \<Longrightarrow> states_ok (SetStates m batch)"
proof (induction batch arbitrary: m)
  case (Cons e batch)
  have "states_ok (SetState m (fst e) (snd e))"
    using Cons.prems by (simp add: SetState_def states_ok_update states_ok_Cons)
  then show ?case using Cons.IH [of "SetState m (fst e) (snd e)"] Cons.prems
    by (simp add: SetStates_def states_ok_Cons split_beta)
qed (simp add: SetStates_def)

lemma flush_chunks_ok:
  "states_ok m \<Longrightarrow> (\<And>c. c \<in> set cs \<Longrightarrow> states_ok c) \<Longrightarrow> states_ok (fst (flush_chunks leading oks i cs (m, n)))"
proof (induction cs arbitrary: i m n)
  case (Cons c cs)
  obtain m' n' where f: "flush leading (oks i) c (m, n) = (m', n')" by fastforce
  have "states_ok m'" using f Cons.prems(1) SetStates_ok [OF Cons.prems(1) Cons.prems(2) [of c]]
    by (simp add: flush_def gated_SetStates_def split: if_splits)
  then show ?case using Cons.IH [of m' "Suc i" n'] Cons.prems(2) f by simp
qed simp

lemma flushPending_store_ok:
  assumes "service_ok s" "states_ok m" "flushPending leading oks s m now = (s', m', lost)"
  shows "states_ok m'"
proof -
  let ?b = "map (\<lambda>(k, st). (k, stamped now st)) (pending s)"
  have b: "states_ok ?b" using assms(1) states_ok_stamped by (simp add: service_ok_def)
  have "states_ok c" if "c \<in> set (chunks maxWriteBatch ?b)" for c
  proof -
    have "set c \<subseteq> set (concat (chunks maxWriteBatch ?b))" using that by auto
    also have "concat (chunks maxWriteBatch ?b) = ?b" by (rule concat_chunks) (simp add: maxWriteBatch_def)
    finally show ?thesis using b by (auto simp: states_ok_def)
  qed
  then show ?thesis
    using flush_chunks_ok [OF assms(2), of "chunks maxWriteBatch ?b" leading oks 0 0] assms(2,3)
    by (auto simp: flushPending_def Let_def split: if_splits prod.splits)
qed

lemma forced_writes_ok: "states_ok m \<Longrightarrow> state_ok st \<Longrightarrow> states_ok (forced_writes sid st oks now keys m)"
  unfolding forced_writes_def
  by (induction keys arbitrary: m) (auto simp: ForceSetState_def SetState_def state_ok_stamped states_ok_update)

lemma ResetMatching_store_ok:
  "service_ok s \<Longrightarrow> states_ok m \<Longrightarrow> ResetMatching s m oks sid target now = (s', m', keys, err) \<Longrightarrow> states_ok m'"
  using forced_writes_ok fresh_state_ok by (auto simp: ResetMatching_def Let_def service_ok_def split: if_splits)

definition rep_ok :: "serviceImpl \<times> store \<Rightarrow> bool" where
  "rep_ok x \<longleftrightarrow> service_ok (fst x) \<and> states_ok (snd x)"

lemma evidence_frame:
  "service_ok s \<Longrightarrow> service_ok (snd (ResetOperator s sid op now))"
  "service_ok s \<Longrightarrow> service_ok (fst (flushOperatorStats l opOks s mo now))"
  "service_ok s \<Longrightarrow> service_ok (s\<lparr>heads := t\<rparr>)" "service_ok s \<Longrightarrow> service_ok (s\<lparr>dups := t\<rparr>)"
  by (erule service_ok_frame; simp add: ResetOperator_def flushOperatorStats_def split: prod.split)+

lemma rep_step_ok: "rep_step x y \<Longrightarrow> rep_ok x \<Longrightarrow> rep_ok y"
proof (induction rule: rep_step.induct)
  case (rs_reset s m oks sid target now s' m' keys err)
  then show ?case using ResetMatching_ok [of s m oks sid target now] ResetMatching_store_ok [of s m] by (simp add: rep_ok_def)
next
  case (rs_flush leading oks s m now s' m' lost)
  then show ?case using flushPending_ok [of s leading oks m now] flushPending_store_ok [of s m] by (simp add: rep_ok_def)
next
  case (rs_sweep s m leading olderThan)
  then show ?case by (simp add: rep_ok_def gated_DeleteStale_def DeleteStale_def states_ok_keep)
next
  case (rs_hydrate s m psl tbl opStored parties env now)
  then show ?case using Hydrate_ok [of s "Some m"] by (simp add: rep_ok_def)
next
  case (rs_wire s s' m)
  then show ?case using wiring_ok [of s s'] by (simp add: rep_ok_def)
next
  case (rs_restart initial sel s m idle g i r)
  then show ?case using NewService_ok [of initial sel] by (simp add: rep_ok_def)
qed (simp_all add: rep_ok_def RecordSignal_ok RecordSignalOnce_ok RebaseAfterDrain_ok refreshBaselines_ok Retune_ok evidence_frame)

lemma rep_reachable_ok: "rep_reachable x \<Longrightarrow> rep_ok x"
proof (induction rule: rep_reachable.induct)
  case (start initial sel idle g i r)
  then show ?case using NewService_ok [of initial sel] by (simp add: rep_ok_def)
next
  case (next_step x y)
  then show ?case using rep_step_ok by blast
qed

section \<open>Lemmas: what a reader sees\<close>

lemma classPenalty_nonpos: "(\<And>v. vo = Some v \<Longrightarrow> view_ok v) \<Longrightarrow> classPenalty psl tbl vo svc key cl \<le> 0"
  by (auto simp: classPenalty_def view_ok_def split: option.split)

lemma chronic_view_ok: "service_ok s \<Longrightarrow> \<forall>v. chronic s = Some v \<longrightarrow> view_ok v"
  by (auto simp: service_ok_def chronic_ok_def)

lemma scored_with_range:
  assumes "service_ok s" "state_ok st" "party \<le> 0"
  shows "min (st_Score st) (MinThreshold (sv_cfg s)) \<le> scoreWith (rate (sv_scoring s)) (sv_cfg s) (chronic s) sid key st party"
    "scoreWith (rate (sv_scoring s)) (sv_cfg s) (chronic s) sid key st party \<le> st_Score st"
  using scoreWith_range [of st party "rate (sv_scoring s)" "sv_cfg s"] assms
  by (simp_all add: service_ok_def state_ok_def scoring_ok_def)

lemma score_of_state_range:
  assumes "service_ok s" "state_ok st"
  shows "min (st_Score st) (MinThreshold (sv_cfg s)) \<le> score_of_state psl tbl s sid key st" "score_of_state psl tbl s sid key st \<le> st_Score st"
  using scored_with_range [OF assms partyPenalty_nonpos [OF chronic_view_ok [OF assms(1)]]]
  by (simp_all add: score_of_state_def effectiveFor_def)

lemma state_or_initial_ok: "service_ok s \<Longrightarrow> state_ok (state_or_initial psl tbl s sid key)"
  using states_okD [OF cache_ok_inner] initialScore_range
  by (auto simp: state_or_initial_def lookup_state_def get2_def service_ok_def fresh_state_ok split: option.split)

lemma scoreForSelector_range:
  assumes "service_ok s" "st = state_or_initial psl tbl s sid (key_of s ep rpc)"
  shows "min (st_Score st) (MinThreshold (sv_cfg s)) \<le> fst (scoreForSelector psl tbl s cl sid ep rpc)"
    "fst (scoreForSelector psl tbl s cl sid ep rpc) \<le> st_Score st"
proof -
  have st: "state_ok st" using assms by (simp add: state_or_initial_ok)
  have "partyPenalty psl tbl (chronic s) sid key \<le> 0" for key using partyPenalty_nonpos [OF chronic_view_ok [OF assms(1)]] .
  then have "min (partyPenalty psl tbl (chronic s) sid key) (classPenalty psl tbl (chronic s) sid key cl) \<le> 0" for key
    by (simp add: min.coboundedI1)
  from scored_with_range [OF assms(1) st this] score_of_state_range [OF assms(1) st]
  show "min (st_Score st) (MinThreshold (sv_cfg s)) \<le> fst (scoreForSelector psl tbl s cl sid ep rpc)"
    "fst (scoreForSelector psl tbl s cl sid ep rpc) \<le> st_Score st"
    by (simp_all add: scoreForSelector_def Let_def effectiveForClass_def assms(2))
qed

section \<open>Lemmas: what one call writes\<close>

definition wb_wf :: "serviceImpl \<Rightarrow> bool" where
  "wb_wf s \<longleftrightarrow> (\<forall>i sid. gomap_ok (inner (cache s i) sid)) \<and> gomap_ok (pending s)"

lemma lookup_put_states:
  "lookup_state (put_states s i sid m) sid' k = (if sid' = sid \<and> shard k = i then map_of m k else lookup_state s sid' k)"
  by (simp add: lookup_state_def put_states_def get2_def gomap_simps)

lemma record_evidence_frame:
  "cache (record_evidence psl tbl s sid ep rpc sg d ts) = cache s" "pending (record_evidence psl tbl s sid ep rpc sg d ts) = pending s"
  "key_of (record_evidence psl tbl s sid ep rpc sg d ts) = key_of s" "sv_scoring (record_evidence psl tbl s sid ep rpc sg d ts) = sv_scoring s"
  "sv_cfg (record_evidence psl tbl s sid ep rpc sg d ts) = sv_cfg s" "chronic (record_evidence psl tbl s sid ep rpc sg d ts) = chronic s"
  "InitialScore (record_evidence psl tbl s sid ep rpc sg d ts) = InitialScore s"
  by (simp_all add: record_evidence_def Let_def)

definition kept_states :: "serviceImpl \<Rightarrow> service_id \<Rightarrow> string \<Rightarrow> states_map" where
  "kept_states s sid key =
     (let m = inner (cache s (shard key)) sid in
      if map_of m key = None \<and> length m \<ge> maxScoresPerServiceShard then pruneUninformative s m else m)"

definition recorded_state :: "psl \<Rightarrow> owner_table \<Rightarrow> serviceImpl \<Rightarrow> service_id \<Rightarrow> endpoint_addr \<Rightarrow> rpc_type \<Rightarrow> Signal \<Rightarrow> time \<Rightarrow> State" where
  "recorded_state psl tbl s sid ep rpc sg now =
     signal_state (sv_scoring s) (sv_cfg s) rpc (state_or_initial psl tbl s sid (key_of s ep rpc)) sg
       (if Timestamp sg = 0 then now else Timestamp sg)"

text \<open>A signal writes the key's next state to the cache and, unless a follower, to the write-behind.\<close>

lemma RecordSignal_writes:
  fixes psl tbl f s sid ep rpc sg now
  defines "s' \<equiv> RecordSignal psl tbl f s sid ep rpc sg now" and "key \<equiv> key_of s ep rpc"
    and "st \<equiv> recorded_state psl tbl s sid ep rpc sg now"
  shows "cache s' = cache (put_states s (shard key) sid (AList.update key st (kept_states s sid key)))"
    "pending s' = (if f then pending s else AList.update (scoreKey sid key) st (pending s))"
    "key_of s' = key_of s" "sv_scoring s' = sv_scoring s" "sv_cfg s' = sv_cfg s" "chronic s' = chronic s" "InitialScore s' = InitialScore s"
  by (simp_all add: s'_def key_def st_def RecordSignal_def enqueue_def Let_def record_evidence_frame kept_states_def
      recorded_state_def state_or_initial_def lookup_state_def get2_def put_states_def split: option.split)

lemma lookup_cache_cong: "cache s = cache s' \<Longrightarrow> lookup_state s = lookup_state s'"
  by (simp add: lookup_state_def fun_eq_iff)

lemma RecordSignal_lookup:
  assumes "\<And>i sid. gomap_ok (inner (cache s i) sid)" "key = key_of s ep rpc"
  shows "lookup_state (RecordSignal psl tbl f s sid ep rpc sg now) sid key = Some (recorded_state psl tbl s sid ep rpc sg now)"
    "sid' \<noteq> sid \<or> k \<noteq> key \<Longrightarrow> lookup_state (RecordSignal psl tbl f s sid ep rpc sg now) sid' k = Some st \<Longrightarrow> lookup_state s sid' k = Some st"
proof -
  note c = lookup_cache_cong [OF RecordSignal_writes(1)]
  show "lookup_state (RecordSignal psl tbl f s sid ep rpc sg now) sid key = Some (recorded_state psl tbl s sid ep rpc sg now)"
    by (simp add: c lookup_put_states assms(2) gomap_simps)
  have "map_of (kept_states s sid key) k = Some st \<Longrightarrow> shard k = shard key \<Longrightarrow> lookup_state s sid k = Some st"
    using assms(1) by (auto simp: kept_states_def Let_def pruneUninformative_def gomap_simps lookup_state_def get2_def split: if_splits option.splits)
  then show "lookup_state s sid' k = Some st"
    if "sid' \<noteq> sid \<or> k \<noteq> key" "lookup_state (RecordSignal psl tbl f s sid ep rpc sg now) sid' k = Some st"
    using that by (auto simp: c lookup_put_states assms(2) gomap_simps split: if_splits)
qed

lemma signal_state_score:
  "Type sg \<noteq> SignalSuccess \<Longrightarrow> Reason sg \<noteq> ''transport_timeout'' \<Longrightarrow>
     st_Score (signal_state sc cfg rpc st sg ts) = clamp (st_Score st + Impact (impacts sc) (Type sg))"
  by (simp add: signal_state_def signal_score_def deferred_def coalesced_def is_timeout_def Let_def)

section \<open>Properties\<close>

text \<open>C16. Whatever signals, resets, refreshes, reloads and restarts the service goes through, every score it
  reports is between 0 and 100 and at most the key's additive score. No chronic or party penalty rules an endpoint
  out: the score is below the minimum threshold exactly when the additive score the key earned itself is, for
  \<^verbatim>\<open>GetScore\<close>, for \<^verbatim>\<open>RuledOut\<close> and for the score the selector reads in any request class.\<close>

theorem reachable_scores:
  assumes "rep_reachable (s, m)"
  shows "let key = key_of s ep rpc; st = state_or_initial psl tbl s sid key; x = GetScore psl tbl s sid ep rpc in
     0 \<le> x \<and> x \<le> 100 \<and> x \<le> st_Score st \<and>
     (x < MinThreshold (sv_cfg s) \<longleftrightarrow> st_Score st < MinThreshold (sv_cfg s)) \<and>
     (RuledOut psl tbl s sid ep rpc \<longleftrightarrow> lookup_state s sid key = Some st \<and> st_Score st < MinThreshold (sv_cfg s)) \<and>
     (fst (scoreForSelector psl tbl s cl sid ep rpc) < MinThreshold (sv_cfg s) \<longleftrightarrow> st_Score st < MinThreshold (sv_cfg s))"
proof -
  define st where "st = state_or_initial psl tbl s sid (key_of s ep rpc)"
  have ok: "service_ok s" using rep_reachable_ok [OF assms] by (simp add: rep_ok_def)
  have st: "state_ok st" unfolding st_def by (rule state_or_initial_ok [OF ok])
  have g: "GetScore psl tbl s sid ep rpc = score_of_state psl tbl s sid (key_of s ep rpc) st" by (simp add: GetScore_def st_def Let_def)
  note r = score_of_state_range [OF ok st, of psl tbl sid "key_of s ep rpc"]
  note sel = scoreForSelector_range [OF ok st_def, of cl]
  have ruled: "RuledOut psl tbl s sid ep rpc \<longleftrightarrow> lookup_state s sid (key_of s ep rpc) = Some st \<and> st_Score st < MinThreshold (sv_cfg s)"
    using r by (auto simp: RuledOut_def ScoreOf_def st_def state_or_initial_def split: option.split)
  show ?thesis
    unfolding Let_def st_def [symmetric] g using r sel ruled st ok by (auto simp: state_ok_def service_ok_def min_def split: if_splits)
qed

text \<open>Two fatal errors take a fresh endpoint from 100 to 0: it is ruled out, and the bound is met with equality.\<close>

definition demo_service :: serviceImpl where
  "demo_service = NewService 100 0 ''per-endpoint'' \<lparr>imp_Success = 0, imp_MinorError = 0, imp_MajorError = 0, imp_CriticalError = 0, imp_FatalError = 0\<rparr>
     \<lparr>HalfLifeAttempts = -1, OnsetRate = 0, FullRate = 0\<rparr> None"

definition demo_signal :: "signal_type \<Rightarrow> string \<Rightarrow> time \<Rightarrow> Signal" where
  "demo_signal ty reason ts = (NewSignal ty reason 0 ts)\<lparr>Probe := True\<rparr>"

lemma demo_simps:
  "key_of demo_service = keyFnFor ''per-endpoint'' None" "sv_cfg demo_service = DefaultSelectorConfig" "chronic demo_service = None"
  "lookup_state demo_service sid key = None" "InitialScore demo_service = 100" "pending demo_service = []"
  "Impact (impacts (sv_scoring demo_service)) SignalFatalError = -50" "Impact (impacts (sv_scoring demo_service)) SignalMajorError = -10"
  "seedFor tbl None sid op rpc = None" "st_Score (fresh_state x) = x" "Type (demo_signal ty reason ts) = ty"
  "Reason (demo_signal ty reason ts) = reason" "clamp (-50 + 100) = 50" "clamp 50 = 50" "clamp 0 = 0"
  "SignalFatalError \<noteq> SignalSuccess" "SignalMajorError \<noteq> SignalSuccess"
  by (simp_all add: demo_service_def NewService_def lookup_state_def get2_def inner_def newScoring_def Let_def impacts_Normalized_def Impact_def
      defaultImpacts_def signal_types seedFor_def fresh_state_def demo_signal_def NewSignal_def clamp_def maxScore_def)

definition demo_twice :: serviceImpl where
  "demo_twice =
     (let no_psl = (\<lambda>h. None); fatal = demo_signal SignalFatalError ''timeout'' (unix_epoch * second) in
      RecordSignal no_psl empty_owner_table False
        (RecordSignal no_psl empty_owner_table False demo_service ''eth'' ''a-u'' ''rest'' fatal 1) ''eth'' ''a-u'' ''rest'' fatal 1)"

theorem reachable_scores_witness:
  "rep_reachable (demo_twice, []) \<and> RuledOut (\<lambda>h. None) empty_owner_table demo_twice ''eth'' ''a-u'' ''rest'' \<and>
   GetScore (\<lambda>h. None) empty_owner_table demo_twice ''eth'' ''a-u'' ''rest'' = 0"
proof -
  have "rep_reachable (demo_service, [])" unfolding demo_service_def by (rule start) simp_all
  then have r: "rep_reachable (demo_twice, [])"
    unfolding demo_twice_def Let_def by (rule next_step [OF next_step [OF _ rs_record] rs_record])
  have "MinThreshold (sv_cfg demo_twice) = 10"
    by (simp add: demo_twice_def Let_def RecordSignal_writes demo_simps DefaultSelectorConfig_def)
  moreover have "map_option st_Score (lookup_state demo_twice ''eth'' (key_of demo_twice ''a-u'' ''rest'')) = Some 0"
    by (simp add: demo_twice_def Let_def RecordSignal_writes lookup_cache_cong [OF RecordSignal_writes(1)] lookup_put_states gomap_simps
        recorded_state_def signal_state_score state_or_initial_def demo_simps initialScore_def)
  ultimately show ?thesis
    using r reachable_scores [OF r, of "''a-u''" "''rest''" "\<lambda>h. None" empty_owner_table "''eth''" "[]"]
    by (auto simp: Let_def state_or_initial_def)
qed

end
