(* ===== verification/Rep_Writes.thy ===== *)
theory Rep_Writes
  imports Rep_System
begin

text \<open>
  What storage holds beside the cache: the write-behind of a leading replica (\<open>wb_step\<close>) and its
  convergence, the load of what was stored, coalesced timeouts, and pruning. Two behaviours that
  differ from what the code documents are shown at the end: a reset overwritten by a pending write,
  and a pruned key that comes back at its operator's seed.
\<close>

section \<open>Lemmas: fields\<close>

lemma scoreKey_inj:
  assumes "CHR '':'' \<notin> set sid" "CHR '':'' \<notin> set sid'"
  shows "scoreKey sid k = scoreKey sid' k' \<longleftrightarrow> sid = sid' \<and> k = k'"
proof -
  have t: "takeWhile (\<lambda>c. c \<noteq> CHR '':'') (scoreKey a b) = a" if "CHR '':'' \<notin> set a" for a b
    using that by (subst scoreKey_def, subst takeWhile_append2) auto
  show ?thesis using t [OF assms(1), of k] t [OF assms(2), of k'] by (auto simp: scoreKey_def)
qed

section \<open>Lemmas: the flush\<close>

lemma map_of_rev: "gomap_ok m \<Longrightarrow> map_of (rev m) = map_of m"
  by (rule map_of_eqI) (auto simp: gomap_ok_def rev_map [symmetric] map_of_eq_Some_iff)

lemma flushPending_leading:
  assumes "gomap_ok (pending s)" "\<And>i. oks i"
  obtains m' where "flushPending True oks s m now = (s\<lparr>pending := []\<rparr>, m', 0)"
    "\<And>f. map_of m' f = (case map_of (pending s) f of Some st \<Rightarrow> Some (stamped now st) | None \<Rightarrow> map_of m f)"
proof (cases "pending s = []")
  case True
  then have "flushPending True oks s m now = (s\<lparr>pending := []\<rparr>, m, 0)" by (simp add: flushPending_def)
  then show ?thesis using True by (intro that) simp_all
next
  case False
  let ?b = "map (\<lambda>(k, st). (k, stamped now st)) (pending s)"
  have "concat (chunks maxWriteBatch ?b) = ?b" by (rule concat_chunks) (simp add: maxWriteBatch_def)
  then have f: "flushPending True oks s m now = (s\<lparr>pending := []\<rparr>, SetStates m ?b, 0)"
    using False flush_chunks_all [of oks 0 "chunks maxWriteBatch ?b" m 0] assms(2) by (simp add: flushPending_def Let_def)
  have "gomap_ok ?b" using assms(1) by (simp add: gomap_ok_def comp_def split_beta)
  then have "map_of (SetStates m ?b) f = (case map_of (pending s) f of Some st \<Rightarrow> Some (stamped now st) | None \<Rightarrow> map_of m f)" for f
    by (simp add: map_of_SetStates map_of_rev map_of_map split: option.split)
  then show ?thesis using f by (rule that [rotated])
qed

section \<open>Model: the write-behind of a leading replica\<close>

text \<open>Every round trip to storage succeeds. The sweep of idle entries is not among the steps: it forgets in
  storage what the cache still holds.\<close>

inductive wb_step :: "serviceImpl \<times> store \<Rightarrow> serviceImpl \<times> store \<Rightarrow> bool" where
  wb_record: "CHR '':'' \<notin> set sid \<Longrightarrow> wb_step (s, m) (RecordSignal psl tbl False s sid ep rpc sg now, m)"
| wb_rebase: "CHR '':'' \<notin> set sid \<Longrightarrow> wb_step (s, m) (fst (RebaseAfterDrain False s sid eps rpc), m)"
| wb_flush: "(\<And>i. oks i) \<Longrightarrow> flushPending True oks s m now = (s', m', lost) \<Longrightarrow> wb_step (s, m) (s', m')"
| wb_refresh: "wb_step (s, m) (fst (refreshBaselines psl tbl s env now), m)"
| wb_retune: "wb_step (s, m) (Retune s i r sel cap, m)"
| wb_wire: "wiring s s' \<Longrightarrow> wb_step (s, m) (s', m)"

inductive wb_reachable :: "serviceImpl \<times> store \<Rightarrow> bool" where
  wb_start: "wb_reachable (NewService initial idle g i r sel, m)"
| wb_next: "wb_reachable x \<Longrightarrow> wb_step x y \<Longrightarrow> wb_reachable y"

section \<open>Lemmas: storage follows the cache\<close>

definition stored_as :: "State option \<Rightarrow> State \<Rightarrow> bool" where
  "stored_as o' st \<longleftrightarrow> (\<exists>t. o' = Some (st\<lparr>st_UpdatedAt := t\<rparr>))"

definition synced :: "serviceImpl \<Rightarrow> store \<Rightarrow> bool" where
  "synced s m \<longleftrightarrow> (\<forall>sid key st. CHR '':'' \<notin> set sid \<longrightarrow> lookup_state s sid key = Some st \<longrightarrow>
     (case map_of (pending s) (scoreKey sid key) of
        Some st' \<Rightarrow> st' = st
      | None \<Rightarrow> stored_as (map_of m (scoreKey sid key)) st))"

lemma synced_write:
  assumes "synced s m" "CHR '':'' \<notin> set sid" "lookup_state s' sid key = Some st"
    "\<And>sid' k st. sid' \<noteq> sid \<or> k \<noteq> key \<Longrightarrow> lookup_state s' sid' k = Some st \<Longrightarrow> lookup_state s sid' k = Some st"
    "pending s' = AList.update (scoreKey sid key) st (pending s)"
  shows "synced s' m"
  unfolding synced_def
proof (intro allI impI)
  fix sid' k x
  assume c: "CHR '':'' \<notin> set sid'" and l: "lookup_state s' sid' k = Some x"
  show "case map_of (pending s') (scoreKey sid' k) of Some st' \<Rightarrow> st' = x | None \<Rightarrow> stored_as (map_of m (scoreKey sid' k)) x"
  proof (cases "sid' = sid \<and> k = key")
    case True
    then show ?thesis using l assms(3,5) by (simp add: gomap_simps)
  next
    case False
    then have "lookup_state s sid' k = Some x" using assms(4) l by blast
    then show ?thesis using assms(1,2,5) c False by (auto simp: synced_def gomap_simps scoreKey_inj)
  qed
qed

lemma synced_frame: "synced s m \<Longrightarrow> lookup_state s' = lookup_state s \<Longrightarrow> pending s' = pending s \<Longrightarrow> synced s' m"
  by (simp add: synced_def)

lemma synced_RecordSignal:
  assumes "synced s m" "wb_wf s" "CHR '':'' \<notin> set sid"
  shows "synced (RecordSignal psl tbl False s sid ep rpc sg now) m"
proof -
  have g: "\<And>i sid. gomap_ok (inner (cache s i) sid)" using assms(2) by (simp add: wb_wf_def)
  show ?thesis
    by (rule synced_write [OF assms(1,3) RecordSignal_lookup(1) [OF g refl] RecordSignal_lookup(2) [OF g refl]])
      (assumption | simp add: RecordSignal_writes)+
qed

lemma gomap_ok_kept: "(\<And>i sid. gomap_ok (inner (cache s i) sid)) \<Longrightarrow> gomap_ok (kept_states s sid key)"
  by (auto simp: kept_states_def Let_def pruneUninformative_def)

lemma wb_wf_put:
  assumes "wb_wf s" "gomap_ok m" "cache s' = cache (put_states s i sid m)" "gomap_ok (pending s')"
  shows "wb_wf s'"
  using assms by (simp add: wb_wf_def put_states_def gomap_simps)

lemma wb_wf_RecordSignal: "wb_wf s \<Longrightarrow> wb_wf (RecordSignal psl tbl f s sid ep rpc sg now)"
  by (rule wb_wf_put [OF _ _ RecordSignal_writes(1)]) (auto simp: RecordSignal_writes wb_wf_def gomap_ok_kept)

lemma rebase_one_kept:
  assumes "synced s m" "wb_wf s" "CHR '':'' \<notin> set sid"
  shows "synced (fst (rebase_one False s sid key)) m" "wb_wf (fst (rebase_one False s sid key))"
proof -
  let ?m = "inner (cache s (shard key)) sid"
  let ?st = "(case map_of ?m key of Some st \<Rightarrow> st | None \<Rightarrow> fresh_state (InitialScore s))"
  let ?x = "?st\<lparr>st_Score := MinThreshold (sv_cfg s)\<rparr>"
  have ok: "gomap_ok ?m" using assms(2) by (simp add: wb_wf_def)
  show "synced (fst (rebase_one False s sid key)) m"
  proof (cases "st_Score ?st > MinThreshold (sv_cfg s)")
    case True
    then have r: "fst (rebase_one False s sid key) =
        enqueue (put_states s (shard key) sid (AList.update key ?x ?m)) False (scoreKey sid key) ?x"
      by (simp add: rebase_one_def Let_def)
    have l: "lookup_state (enqueue t f k y) = lookup_state t" for t f k y by (simp add: enqueue_def lookup_state_def fun_eq_iff)
    show ?thesis unfolding r
      by (rule synced_write [OF assms(1,3), where key = key and st = ?x])
        (auto simp: l lookup_put_states gomap_simps enqueue_def put_states_def lookup_state_def get2_def split: if_splits)
  next
    case False
    then have r: "fst (rebase_one False s sid key) = put_states s (shard key) sid ?m" by (simp add: rebase_one_def Let_def)
    show ?thesis unfolding r
      by (rule synced_frame [OF assms(1)]) (auto simp: fun_eq_iff lookup_put_states, auto simp: lookup_state_def get2_def put_states_def)
  qed
  show "wb_wf (fst (rebase_one False s sid key))"
    using assms(2) ok by (auto simp: rebase_one_def Let_def enqueue_def put_states_def wb_wf_def gomap_simps)
qed

lemma rebase_keys_kept:
  assumes "synced s m" "wb_wf s" "CHR '':'' \<notin> set sid"
  shows "synced (fst (rebase_keys False s sid ks)) m \<and> wb_wf (fst (rebase_keys False s sid ks))"
  using assms(1,2)
proof (induction ks arbitrary: s)
  case (Cons k ks)
  let ?s = "fst (rebase_one False s sid k)"
  have "synced (fst (rebase_keys False ?s sid ks)) m \<and> wb_wf (fst (rebase_keys False ?s sid ks))"
    using Cons.IH [OF rebase_one_kept [OF Cons.prems assms(3)]] .
  then show ?case by (simp split: prod.split) (metis fst_conv)
qed simp

lemma refreshBaselines_cache:
  "cache (fst (refreshBaselines psl tbl s env now)) = cache s" "pending (fst (refreshBaselines psl tbl s env now)) = pending s"
  by (simp_all add: refreshBaselines_def Let_def split_beta)

lemma wiring_cache: "wiring s s' \<Longrightarrow> cache s' = cache s \<and> pending s' = pending s"
  by (erule wiring.cases)
    (simp_all add: SetRelativeChronic_def SetOperatorChronic_def SetStaleShare_def SetTrustPenalty_def SetPartyPenaltiesWebsocket_def
        SetSeedFromOperator_def SetPolicyPenaltyGate_def SetDuplicateShare_def SetThrottleShare_def SetClassShare_def
        SetLatencyTieBreak_svc_def SetOperatorCap_svc_def SetInstanceID_def SetURLResolver_def)

lemma wb_frame:
  assumes "synced s m" "wb_wf s" "cache s' = cache s" "pending s' = pending s"
  shows "synced s' m \<and> wb_wf s'"
  using assms synced_frame [OF assms(1) lookup_cache_cong] by (simp add: wb_wf_def)

lemma stored_as_stamped: "stored_as (Some (stamped now st)) st"
  by (auto simp: stored_as_def stamped_def)

lemma flush_synced:
  assumes "synced s m" "gomap_ok (pending s)" "\<And>i. oks i" "flushPending True oks s m now = (s', m', lost)"
  shows "s' = s\<lparr>pending := []\<rparr>" "lost = 0"
    "CHR '':'' \<notin> set sid \<Longrightarrow> lookup_state s sid key = Some st \<Longrightarrow> stored_as (map_of m' (scoreKey sid key)) st"
proof -
  obtain n where n: "flushPending True oks s m now = (s\<lparr>pending := []\<rparr>, n, 0)"
    "\<And>f. map_of n f = (case map_of (pending s) f of Some st \<Rightarrow> Some (stamped now st) | None \<Rightarrow> map_of m f)"
    by (rule flushPending_leading [of s oks m now, OF assms(2,3)]) (rule that)
  show "s' = s\<lparr>pending := []\<rparr>" "lost = 0" using n(1) assms(4) by simp_all
  have m': "m' = n" using n(1) assms(4) by simp
  assume "CHR '':'' \<notin> set sid" "lookup_state s sid key = Some st"
  then have "case map_of (pending s) (scoreKey sid key) of Some st' \<Rightarrow> st' = st | None \<Rightarrow> stored_as (map_of m (scoreKey sid key)) st"
    using assms(1) unfolding synced_def by blast
  then show "stored_as (map_of m' (scoreKey sid key)) st"
    unfolding m' n(2) by (cases "map_of (pending s) (scoreKey sid key)") (simp_all add: stored_as_stamped)
qed

lemma wb_step_kept: "wb_step x y \<Longrightarrow> synced (fst x) (snd x) \<and> wb_wf (fst x) \<Longrightarrow> synced (fst y) (snd y) \<and> wb_wf (fst y)"
proof (induction rule: wb_step.induct)
  case (wb_record sid s m psl tbl ep rpc sg now)
  then show ?case by (simp add: synced_RecordSignal wb_wf_RecordSignal)
next
  case (wb_rebase sid s m eps rpc)
  then show ?case using rebase_keys_kept [of s m sid] by (simp add: RebaseAfterDrain_def)
next
  case (wb_flush oks s m now s' m' lost)
  have "synced s m" "gomap_ok (pending s)" using wb_flush(3) by (simp_all add: wb_wf_def)
  note f = flush_synced [OF this wb_flush(1,2)]
  have "synced s' m'" unfolding synced_def using f(1,3) by (simp add: lookup_state_def)
  then show ?case using wb_flush(3) f(1) by (simp add: wb_wf_def)
next
  case (wb_refresh s m psl tbl env now)
  then show ?case using wb_frame [of s m, OF _ _ refreshBaselines_cache] by simp
next
  case (wb_retune s m i r sel cap)
  then show ?case using wb_frame [of s m "Retune s i r sel cap"] by (simp add: Retune_def)
next
  case (wb_wire s s' m)
  then show ?case using wb_frame [of s m s'] wiring_cache by simp
qed

lemma wb_reachable_kept: "wb_reachable x \<Longrightarrow> synced (fst x) (snd x) \<and> wb_wf (fst x)"
proof (induction rule: wb_reachable.induct)
  case (wb_start initial idle g i r sel m)
  then show ?case by (simp add: synced_def wb_wf_def NewService_def lookup_state_def get2_def inner_def)
next
  case (wb_next x y)
  then show ?case using wb_step_kept by blast
qed

section \<open>Lemmas: coalesced timeouts\<close>

lemma signal_state_coalesced:
  assumes "is_timeout sg" "st_TimeoutHitAt st \<noteq> 0" "unix_milli ts - st_TimeoutHitAt st < timeoutCoalesce_ms"
  shows "st_Score (signal_state sc cfg rpc st sg ts) = st_Score st \<and> st_TimeoutHitAt (signal_state sc cfg rpc st sg ts) = st_TimeoutHitAt st"
  using assms by (simp add: signal_state_def signal_score_def coalesced_def Let_def)

lemma signal_state_hit:
  assumes "is_timeout sg" "st_TimeoutHitAt st = 0 \<or> timeoutCoalesce_ms \<le> unix_milli ts - st_TimeoutHitAt st"
  shows "st_Score (signal_state sc cfg rpc st sg ts) = clamp (st_Score st + Impact (impacts sc) SignalMajorError) \<and>
    st_TimeoutHitAt (signal_state sc cfg rpc st sg ts) = unix_milli ts"
  using assms by (auto simp: signal_state_def signal_score_def coalesced_def deferred_def is_timeout_def signal_types Let_def)

type_synonym attempt = "endpoint_addr \<times> Signal"

definition record_attempts :: "psl \<Rightarrow> owner_table \<Rightarrow> bool \<Rightarrow> service_id \<Rightarrow> rpc_type \<Rightarrow> time \<Rightarrow> attempt list \<Rightarrow> serviceImpl \<Rightarrow> serviceImpl" where
  "record_attempts psl tbl f sid rpc now as s = fold (\<lambda>(ep, sg) s. RecordSignal psl tbl f s sid ep rpc sg now) as s"

lemma record_attempts_coalesced:
  assumes "wb_wf s" "lookup_state s sid key = Some st" "st_TimeoutHitAt st = h" "h \<noteq> 0"
    and "\<forall>(ep, sg) \<in> set as. key_of s ep rpc = key \<and> is_timeout sg \<and> Timestamp sg \<noteq> 0 \<and> unix_milli (Timestamp sg) - h < timeoutCoalesce_ms"
  shows "map_option st_Score (lookup_state (record_attempts psl tbl f sid rpc now as s) sid key) = Some (st_Score st)"
  using assms
proof (induction as arbitrary: s st)
  case Nil
  then show ?case by (simp add: record_attempts_def)
next
  case (Cons a as)
  obtain ep sg where a: "a = (ep, sg)" by fastforce
  let ?s = "RecordSignal psl tbl f s sid ep rpc sg now" and ?st = "recorded_state psl tbl s sid ep rpc sg now"
  have k: "key_of s ep rpc = key" "is_timeout sg" "Timestamp sg \<noteq> 0" "unix_milli (Timestamp sg) - h < timeoutCoalesce_ms"
    using Cons.prems(5) by (auto simp: a)
  have l: "lookup_state ?s sid key = Some ?st"
    using RecordSignal_lookup(1) [of s key ep rpc] Cons.prems(1) k(1) by (simp add: wb_wf_def)
  have "state_or_initial psl tbl s sid key = st" using Cons.prems(2) by (simp add: state_or_initial_def)
  then have st: "st_Score ?st = st_Score st" "st_TimeoutHitAt ?st = h"
    using signal_state_coalesced [OF k(2), of st "Timestamp sg"] Cons.prems(3,4) k by (simp_all add: recorded_state_def)
  have "\<forall>(ep, sg) \<in> set as. key_of ?s ep rpc = key \<and> is_timeout sg \<and> Timestamp sg \<noteq> 0 \<and> unix_milli (Timestamp sg) - h < timeoutCoalesce_ms"
    using Cons.prems(5) by (simp add: RecordSignal_writes)
  from Cons.IH [OF wb_wf_RecordSignal [OF Cons.prems(1)] l st(2) Cons.prems(4) this]
  show ?case by (simp add: record_attempts_def a st)
qed

section \<open>Lemmas: loading what was stored\<close>

definition field_ok :: "time \<Rightarrow> string \<times> State \<Rightarrow> bool" where
  "field_ok cutoff e \<longleftrightarrow> (\<exists>sid key. fst e = scoreKey sid key \<and> CHR '':'' \<notin> set sid \<and> sid \<noteq> [] \<and> key \<noteq> []) \<and> fresh (snd e) cutoff"

definition roomy :: "serviceImpl \<Rightarrow> nat \<Rightarrow> bool" where
  "roomy s n \<longleftrightarrow> 0 \<le> StateIdleTTL s \<and> (\<forall>i sid. length (inner (cache s i) sid) + n \<le> maxScoresPerServiceShard)"

lemma loadState_absent:
  assumes "roomy s (Suc n)" "lookup_state s sid key = None"
  shows "loadState s sid key st = (put_states s (shard key) sid (AList.update key st (inner (cache s (shard key)) sid)), Loaded)"
    and "roomy (put_states s (shard key) sid (AList.update key st (inner (cache s (shard key)) sid))) n"
proof -
  have l: "length (inner (cache s i) x) + n < maxScoresPerServiceShard" for i x
    using assms(1) unfolding roomy_def by (metis add_Suc_right Suc_le_lessD)
  then have "length (inner (cache s (shard key)) sid) < maxScoresPerServiceShard" using le_less_trans le_add1 by blast
  then show "loadState s sid key st = (put_states s (shard key) sid (AList.update key st (inner (cache s (shard key)) sid)), Loaded)"
    using assms by (simp add: loadState_def roomy_def lookup_state_def get2_def Let_def)
  have "length (AList.update key st (inner (cache s (shard key)) sid)) + n \<le> maxScoresPerServiceShard"
    using l [of "shard key" sid] by (simp add: length_update)
  then show "roomy (put_states s (shard key) sid (AList.update key st (inner (cache s (shard key)) sid))) n"
    using assms(1) l by (auto simp: roomy_def put_states_def gomap_simps less_imp_le)
qed

lemma hydrate_states_restores:
  assumes "gomap_ok m" "roomy s (length m)" "\<And>e. e \<in> set m \<Longrightarrow> field_ok cutoff e"
    and "\<And>sid key. CHR '':'' \<notin> set sid \<Longrightarrow> map_of m (scoreKey sid key) \<noteq> None \<Longrightarrow> lookup_state s sid key = None"
    and "hydrate_states cutoff s m r = (s', r')"
  shows "hr_Keys r' = hr_Keys r + length m \<and> hr_Skipped r' = hr_Skipped r \<and>
    (\<forall>sid key. CHR '':'' \<notin> set sid \<longrightarrow>
       lookup_state s' sid key = (case map_of m (scoreKey sid key) of Some st \<Rightarrow> Some st | None \<Rightarrow> lookup_state s sid key))"
  using assms
proof (induction m arbitrary: s r)
  case Nil
  then show ?case by simp
next
  case (Cons e m)
  obtain sid key where f: "fst e = scoreKey sid key" "CHR '':'' \<notin> set sid" "sid \<noteq> []" "key \<noteq> []" and fr: "fresh (snd e) cutoff"
    using Cons.prems(3) [of e] by (auto simp: field_ok_def)
  let ?s = "put_states s (shard key) sid (AList.update key (snd e) (inner (cache s (shard key)) sid))"
  have none: "lookup_state s sid key = None" using Cons.prems(4) [OF f(2), of key] f(1) by (cases e) simp
  note load = loadState_absent [OF _ none, of "length m" "snd e"]
  have r: "roomy s (Suc (length m))" using Cons.prems(2) by simp
  have l: "lookup_state ?s x k = (if x = sid \<and> k = key then Some (snd e) else lookup_state s x k)" for x k
    by (auto simp: put_states_def gomap_simps lookup_state_def get2_def)
  have one: "hydrate_one cutoff s (fst e) (snd e) = (?s, Loaded)"
    using f fr load(1) [OF r] by (simp add: hydrate_one_def splitScoreKey_scoreKey)
  have rest: "hydrate_states cutoff ?s m (count_outcome Loaded sid r) = (s', r')"
    using Cons.prems(5) one f by (cases e) (simp add: splitScoreKey_scoreKey)
  have nm: "map_of m (scoreKey sid key) = None" using Cons.prems(1) f(1) by (cases e) (auto simp: gomap_ok_def map_of_eq_None_iff)
  have absent: "lookup_state ?s x k = None" if "CHR '':'' \<notin> set x" "map_of m (scoreKey x k) \<noteq> None" for x k
    using that Cons.prems(4) [OF that(1), of k] nm l by (cases e) (auto split: if_splits)
  have "hr_Keys r' = hr_Keys (count_outcome Loaded sid r) + length m \<and> hr_Skipped r' = hr_Skipped (count_outcome Loaded sid r) \<and>
    (\<forall>x k. CHR '':'' \<notin> set x \<longrightarrow> lookup_state s' x k = (case map_of m (scoreKey x k) of Some st \<Rightarrow> Some st | None \<Rightarrow> lookup_state ?s x k))"
    using Cons.prems(1,3) by (intro Cons.IH [OF _ load(2) [OF r] _ absent rest]) (auto simp: gomap_ok_def)
  moreover have "map_of (e # m) x = (if x = fst e then Some (snd e) else map_of m x)" for x by (cases e) auto
  ultimately show ?case using f nm by (auto simp: l scoreKey_inj simp del: map_of.simps split: option.split)
qed

section \<open>Properties\<close>


definition demo_once :: serviceImpl where
  "demo_once = RecordSignal (\<lambda>h. None) empty_owner_table False demo_service ''eth'' ''a-u'' ''rest'' (demo_signal SignalFatalError ''timeout'' 1) 1"

lemma demo_key: "keyFnFor ''per-endpoint'' None ''a-u'' ''rest'' = ''a-u|rest''" "keyFnFor ''per-endpoint'' None ''b-u'' ''rest'' = ''b-u|rest''"
  by code_simp+


text \<open>C19. Transport timeouts of one key within a second of the first cost its score once, however many
  there are and whichever of the endpoints sharing the key they came from.\<close>

theorem timeouts_cost_once:
  assumes "wb_wf s" "st = state_or_initial psl tbl s sid (key_of s ep rpc)"
    and "is_timeout sg" "Timestamp sg \<noteq> 0" "unix_milli (Timestamp sg) \<noteq> 0"
    and "st_TimeoutHitAt st = 0 \<or> timeoutCoalesce_ms \<le> unix_milli (Timestamp sg) - st_TimeoutHitAt st"
    and "\<forall>(ep', sg') \<in> set as. key_of s ep' rpc = key_of s ep rpc \<and> is_timeout sg' \<and> Timestamp sg' \<noteq> 0 \<and>
      unix_milli (Timestamp sg') - unix_milli (Timestamp sg) < timeoutCoalesce_ms"
  shows "map_option st_Score (lookup_state (record_attempts psl tbl f sid rpc now ((ep, sg) # as) s) sid (key_of s ep rpc)) =
    Some (clamp (st_Score st + Impact (impacts (sv_scoring s)) SignalMajorError))"
proof -
  let ?s = "RecordSignal psl tbl f s sid ep rpc sg now" and ?st = "recorded_state psl tbl s sid ep rpc sg now"
  have l: "lookup_state ?s sid (key_of s ep rpc) = Some ?st"
    using RecordSignal_lookup(1) [of s _ ep rpc] assms(1) by (simp add: wb_wf_def)
  have st: "st_Score ?st = clamp (st_Score st + Impact (impacts (sv_scoring s)) SignalMajorError)" "st_TimeoutHitAt ?st = unix_milli (Timestamp sg)"
    using signal_state_hit [OF assms(3,6)] assms(2,4) by (simp_all add: recorded_state_def)
  have "\<forall>(ep', sg') \<in> set as. key_of ?s ep' rpc = key_of s ep rpc \<and> is_timeout sg' \<and> Timestamp sg' \<noteq> 0 \<and>
      unix_milli (Timestamp sg') - unix_milli (Timestamp sg) < timeoutCoalesce_ms"
    using assms(7) by (simp add: RecordSignal_writes)
  from record_attempts_coalesced [OF wb_wf_RecordSignal [OF assms(1)] l st(2) assms(5) this]
  show ?thesis by (simp add: record_attempts_def st)
qed

definition demo_timeout :: "int \<Rightarrow> Signal" where
  "demo_timeout k = demo_signal SignalMajorError ''transport_timeout'' ((unix_epoch * 1000 + k) * millisecond)"

lemma demo_timeout_simps:
  "is_timeout (demo_timeout k)" "unix_milli (Timestamp (demo_timeout k)) = k" "0 \<le> k \<Longrightarrow> Timestamp (demo_timeout k) \<noteq> 0"
  by (simp_all add: demo_timeout_def demo_signal_def NewSignal_def unix_milli_def is_timeout_def unix_epoch_def)

theorem timeouts_cost_once_witness:
  "map_option st_Score (lookup_state (record_attempts (\<lambda>h. None) empty_owner_table False ''eth'' ''rest'' 1
     [(''a-u'', demo_timeout 100), (''a-u'', demo_timeout 300), (''a-u'', demo_timeout 1099)] demo_service) ''eth'' ''a-u|rest'') = Some 90"
proof -
  have wf: "wb_wf demo_service" by (simp add: wb_wf_def demo_service_def NewService_def inner_def)
  have st: "state_or_initial (\<lambda>h. None) empty_owner_table demo_service ''eth'' (key_of demo_service ''a-u'' ''rest'') = fresh_state 100"
    by (simp add: state_or_initial_def demo_simps initialScore_def)
  show ?thesis
    using timeouts_cost_once [OF wf st [symmetric], of "demo_timeout 100" "[(''a-u'', demo_timeout 300), (''a-u'', demo_timeout 1099)]" False 1]
    by (simp add: demo_timeout_simps demo_simps demo_key timeoutCoalesce_ms_def fresh_state_def clamp_def maxScore_def)
qed

text \<open>C18. A restart restores what storage holds: a new process that loads a store of well-formed, fresh
  entries (no more than the bound) counts every one of them as loaded and none as skipped, and afterwards reads,
  for every key, exactly the stored state, and nothing for a key storage does not name.\<close>

theorem hydrate_restores:
  assumes "gomap_ok m" "length m \<le> maxScoresPerServiceShard" "0 \<le> idle"
    and "\<forall>e \<in> set m. field_ok (now - StateIdleTTL (NewService initial idle g i r sel)) e"
    and "Hydrate_states (NewService initial idle g i r sel) m now = (s, res)" "CHR '':'' \<notin> set sid"
  shows "hr_Keys res = length m \<and> hr_Skipped res = 0 \<and> lookup_state s sid key = map_of m (scoreKey sid key)"
proof -
  have r: "roomy (NewService initial idle g i r sel) (length m)"
    using assms(2,3) by (simp add: roomy_def NewService_def inner_def DefaultIdleTTL_def)
  have n: "lookup_state (NewService initial idle g i r sel) x k = None" for x k
    by (simp add: NewService_def lookup_state_def get2_def inner_def)
  have "hr_Keys res = hr_Keys no_result + length m \<and> hr_Skipped res = hr_Skipped no_result \<and>
    (\<forall>sid key. CHR '':'' \<notin> set sid \<longrightarrow> lookup_state s sid key = (case map_of m (scoreKey sid key) of Some st \<Rightarrow> Some st
       | None \<Rightarrow> lookup_state (NewService initial idle g i r sel) sid key))"
    by (rule hydrate_states_restores [OF assms(1) r _ n assms(5) [unfolded Hydrate_states_def]]) (use assms(4) in blast)
  then show ?thesis using assms(6) by (simp add: n no_result_def split: option.split)
qed

theorem hydrate_restores_witness:
  "let st = (fresh_state 40)\<lparr>st_UpdatedAt := 5000\<rparr>;
       res = Hydrate_states (NewService 100 0 ''per-endpoint'' \<lparr>imp_Success = 0, imp_MinorError = 0, imp_MajorError = 0, imp_CriticalError = 0, imp_FatalError = 0\<rparr>
         \<lparr>HalfLifeAttempts = -1, OnsetRate = 0, FullRate = 0\<rparr> None) [(scoreKey ''eth'' ''a-u|rest'', st)] (time_unix 6000) in
   hr_Keys (snd res) = 1 \<and> lookup_state (fst res) ''eth'' ''a-u|rest'' = Some st"
proof -
  let ?st = "(fresh_state 40)\<lparr>st_UpdatedAt := 5000\<rparr>"
  let ?s = "NewService 100 0 ''per-endpoint'' \<lparr>imp_Success = 0, imp_MinorError = 0, imp_MajorError = 0, imp_CriticalError = 0, imp_FatalError = 0\<rparr>
         \<lparr>HalfLifeAttempts = -1, OnsetRate = 0, FullRate = 0\<rparr> None"
  let ?m = "[(scoreKey ''eth'' ''a-u|rest'', ?st)]"
  obtain s res where h: "Hydrate_states ?s ?m (time_unix 6000) = (s, res)" by fastforce
  have "fresh ?st (time_unix 6000 - StateIdleTTL ?s)"
    by (simp add: fresh_def time_unix_def NewService_def DefaultIdleTTL_def)
  moreover have "\<exists>sid key. scoreKey ''eth'' ''a-u|rest'' = scoreKey sid key \<and> CHR '':'' \<notin> set sid \<and> sid \<noteq> [] \<and> key \<noteq> []"
    by (intro exI [of _ "''eth''"] exI [of _ "''a-u|rest''"]) simp
  ultimately have f: "\<forall>e \<in> set ?m. field_ok (time_unix 6000 - StateIdleTTL ?s) e" by (simp add: field_ok_def)
  show ?thesis
    using hydrate_restores [OF _ _ _ f h, of "''eth''" "''a-u|rest''"] by (simp add: h gomap_ok_def maxScoresPerServiceShard_def)
qed

section \<open>Where the code differs from what it documents\<close>

text \<open>A reset is forced straight to storage, but the key's older state stays in the write-behind: the next flush
  writes it over the reset.\<close>

lemma forced_writes_stored:
  "k \<in> set keys \<Longrightarrow> (\<And>k. k \<in> set keys \<Longrightarrow> oks k) \<Longrightarrow> map_of (forced_writes sid st oks now keys m) (scoreKey sid k) = Some (stamped now st)"
  unfolding forced_writes_def
  by (induction keys rule: rev_induct) (auto simp: ForceSetState_def SetState_def gomap_simps)

lemma reset_overwritten_by_flush:
  assumes "gomap_ok (pending s)" "map_of (pending s) (scoreKey sid key) = Some old" "key \<in> set keys"
    and "ResetMatching s m oks sid target now = (s', m', keys, None)" "\<And>i. oks' i"
    and "flushPending True oks' s' m' now' = (s'', m'', lost)"
  shows "map_of m' (scoreKey sid key) = Some (stamped now (fresh_state (InitialScore s)))"
    "map_of m'' (scoreKey sid key) = Some (stamped now' old)"
proof -
  have s': "pending s' = pending s" "m' = forced_writes sid (fresh_state (InitialScore s)) oks now keys m" "\<forall>k \<in> set keys. oks k"
    using assms(3,4) by (auto simp: ResetMatching_def Let_def split: if_splits)
  then show "map_of m' (scoreKey sid key) = Some (stamped now (fresh_state (InitialScore s)))"
    using forced_writes_stored [OF assms(3)] by simp
  obtain n where "flushPending True oks' s' m' now' = (s'\<lparr>pending := []\<rparr>, n, 0)"
    "\<And>f. map_of n f = (case map_of (pending s') f of Some st \<Rightarrow> Some (stamped now' st) | None \<Rightarrow> map_of m' f)"
    by (rule flushPending_leading [of s' oks' m' now', OF _ assms(5)]) (use assms(1) s'(1) in simp, rule that)
  then show "map_of m'' (scoreKey sid key) = Some (stamped now' old)" using assms(2,6) s'(1) by simp
qed

text \<open>Pruning is transparent where no seed applies: the pruned key reads as before.\<close>

lemma penaltyFor_pruned: "Penalty rc x = 0 \<Longrightarrow> Penalty rc 0 = 0 \<Longrightarrow> penaltyFor rc vo svc key x = penaltyFor rc vo svc key 0"
  by (simp add: penaltyFor_def Let_def split: option.split)

lemma prune_transparent:
  assumes "service_ok s" "wb_wf s" "i = shard (key_of s ep rpc)"
    and "seedFor tbl (chronic s) sid (operatorOfKey psl (key_of s ep rpc)) (rpcOfKey (key_of s ep rpc)) = None"
  shows "GetScore psl tbl (put_states s i sid (pruneUninformative s (inner (cache s i) sid))) sid ep rpc = GetScore psl tbl s sid ep rpc"
proof -
  let ?k = "key_of s ep rpc" and ?s = "put_states s i sid (pruneUninformative s (inner (cache s i) sid))"
  have fr: "key_of ?s = key_of s" "sv_scoring ?s = sv_scoring s" "sv_cfg ?s = sv_cfg s" "chronic ?s = chronic s" "InitialScore ?s = InitialScore s"
    by (simp_all add: put_states_def)
  have init: "initialScore psl tbl t sid ?k = InitialScore s" if "chronic t = chronic s" "InitialScore t = InitialScore s" for t
    using that assms(4) by (simp add: initialScore_def)
  have l: "lookup_state ?s sid ?k = (case lookup_state s sid ?k of None \<Rightarrow> None
     | Some st \<Rightarrow> if st_Score st = InitialScore s \<and> Penalty (rate (sv_scoring s)) (st_Rate st) = 0 then None else Some st)"
    using assms(2,3) by (simp add: put_states_def pruneUninformative_def gomap_simps wb_wf_def lookup_state_def get2_def split: option.split)
  have "score_of_state psl tbl s sid ?k st = score_of_state psl tbl s sid ?k (fresh_state (InitialScore s))"
    if "st_Score st = InitialScore s" "Penalty (rate (sv_scoring s)) (st_Rate st) = 0" for st
    using that assms(1) penaltyFor_pruned [of "rate (sv_scoring s)" "st_Rate st"]
    by (simp add: score_of_state_def effectiveFor_def scoreWith_def fresh_state_def service_ok_def scoring_ok_def)
  moreover have "score_of_state psl tbl ?s = score_of_state psl tbl s" by (simp add: fun_eq_iff score_of_state_def fr)
  ultimately show ?thesis
    by (auto simp: GetScore_def fr Let_def state_or_initial_def l init split: option.split)
qed

text \<open>Where an operator's seed applies it is not: a key at the full score that is pruned reads as the seed.\<close>

definition demo_seeded :: serviceImpl where
  "demo_seeded = demo_service\<lparr>chronic := Some (empty_view\<lparr>opSeed := [((''eth'', ''a-u'', ''rest''), 40)], seedOn := [(''eth'', True)]\<rparr>)\<rparr>"

lemma pruned_key_reads_seed:
  "let m = [(''a-u|rest'', fresh_state 100)]; i = shard ''a-u|rest'' in
   GetScore (\<lambda>h. None) empty_owner_table (put_states demo_seeded i ''eth'' m) ''eth'' ''a-u'' ''rest'' = 100 \<and>
   GetScore (\<lambda>h. None) empty_owner_table (put_states demo_seeded i ''eth'' (pruneUninformative demo_seeded m)) ''eth'' ''a-u'' ''rest'' = 40"
proof -
  have pen: "Penalty (rate (sv_scoring demo_service)) x = 0" for x
    by (simp add: demo_service_def NewService_def newScoring_def Let_def Penalty_def Enabled_def Normalized_def Defaulted_def)
  have v: "chronic demo_seeded = Some (empty_view\<lparr>opSeed := [((''eth'', ''a-u'', ''rest''), 40)], seedOn := [(''eth'', True)]\<rparr>)"
    by (simp add: demo_seeded_def)
  have party: "partyPenalty (\<lambda>h. None) empty_owner_table (chronic demo_seeded) ''eth'' ''a-u|rest'' = 0" unfolding v by code_simp
  have seed: "seedFor empty_owner_table (chronic demo_seeded) ''eth'' (operatorOfKey (\<lambda>h. None) ''a-u|rest'') (rpcOfKey ''a-u|rest'') = Some 40"
    unfolding v by code_simp
  have fr: "key_of (put_states demo_seeded i sid m) = keyFnFor ''per-endpoint'' None" "chronic (put_states demo_seeded i sid m) = chronic demo_seeded"
    "sv_cfg (put_states demo_seeded i sid m) = DefaultSelectorConfig" "sv_scoring (put_states demo_seeded i sid m) = sv_scoring demo_service"
    "sv_scoring demo_seeded = sv_scoring demo_service" "InitialScore demo_seeded = 100" for i sid m
    by (simp_all add: put_states_def demo_seeded_def demo_simps)
  have pr: "pruneUninformative demo_seeded [(''a-u|rest'', fresh_state 100)] = []"
    by (simp add: pruneUninformative_def keep_entries_def fr pen fresh_state_def)
  have sc: "score_of_state (\<lambda>h. None) empty_owner_table (put_states demo_seeded i sid m) ''eth'' ''a-u|rest'' (fresh_state x) = x"
    if "0 \<le> x" "x \<le> 100" for i sid m x
    using that by (simp add: score_of_state_def effectiveFor_def scoreWith_def fr party penaltyFor_def pen fresh_state_def clamp_id
        DefaultSelectorConfig_def Let_def split: option.split)
  have init: "initialScore (\<lambda>h. None) empty_owner_table (put_states demo_seeded i sid m) ''eth'' ''a-u|rest'' = 40" for i sid m
    by (simp add: initialScore_def fr seed)
  show ?thesis
    by (simp add: Let_def pr GetScore_def fr demo_key state_or_initial_def lookup_put_states sc init)
qed

end
