(* ===== verification/Auto_Window.thy ===== *)
theory Auto_Window
  imports Drain_Store
begin

text \<open>
  What the auto-drain engine counts (\<^verbatim>\<open>autodrain/engine.go\<close>): a window of ten one-minute
  slots per pool (service and RPC type) with the collapse picks, attempts, successes, first attempts
  and per-method answers of each operator, the client-facing answers of a service, and the
  candidates those counts raise.

  A Go array of slots is a list of ten; the minute a call falls in comes from the clock it read.
  Counters are natural numbers, shares are reals. The rate an operator has in reputation
  (\<^verbatim>\<open>Deps.Rates\<close>) is an argument.
\<close>

section \<open>Model: constants\<close>

definition windowSlots :: int where "windowSlots = 10"
definition minCollapse :: nat where "minCollapse = 20"
definition minShare :: real where "minShare = 0.30"
definition minAttempts :: nat where "minAttempts = 50"
definition maxSuccess :: real where "maxSuccess = 0.02"
definition opRateTrigger :: real where "opRateTrigger = 0.03"
definition chainGap :: real where "chainGap = 0.20"
definition chainRatio :: real where "chainRatio = 3"
definition minMethodPeers :: int where "minMethodPeers = 20"
definition maxMethods :: nat where "maxMethods = 64"
definition overflowMethod :: string where "overflowMethod = CHR 0x00 # ''overflow''"
definition DefaultPeerRatio :: real where "DefaultPeerRatio = 2"

datatype outcome = OutcomeDrained | OutcomeShadow | OutcomeSuppressed | OutcomeRateLimited | OutcomeCapped | OutcomeNoVouched
  | OutcomeManual | OutcomeBelowClient | OutcomeNoClientEvidence | OutcomePoolWide

datatype trigger = TriggerCollapse | TriggerOperatorRate | TriggerChainAnswers

section \<open>Model: counters\<close>

record methodCount =
  answered :: nat
  chain_errors :: nat

definition no_answers :: methodCount where "no_answers = \<lparr>answered = 0, chain_errors = 0\<rparr>"

record opCount =
  picks :: nat
  attempts :: nat
  successes :: nat
  firsts :: nat
  firstFails :: nat
  op_methods :: "(string, methodCount) gomap"

definition no_count :: opCount where
  "no_count = \<lparr>picks = 0, attempts = 0, successes = 0, firsts = 0, firstFails = 0, op_methods = []\<rparr>"

text \<open>The count a method's answers go to, folding past \<^verbatim>\<open>maxMethods\<close>.\<close>

definition method_bucket :: "opCount \<Rightarrow> string \<Rightarrow> string" where
  "method_bucket c name =
     (if map_of (op_methods c) name \<noteq> None then name
      else if length (op_methods c) \<ge> maxMethods then overflowMethod else name)"

definition method_of :: "opCount \<Rightarrow> string \<Rightarrow> methodCount" where
  "method_of c name = (case map_of (op_methods c) name of Some m \<Rightarrow> m | None \<Rightarrow> no_answers)"

record slot =
  sl_minute :: int
  collapse :: nat
  slot_ops :: "(string, opCount) gomap"

definition new_slot :: "int \<Rightarrow> slot" where "new_slot m = \<lparr>sl_minute = m, collapse = 0, slot_ops = []\<rparr>"

type_synonym pool = "slot list"

record clientSlot =
  cs_minute :: int
  cs_total :: nat
  cs_failed :: nat

definition new_client_slot :: "int \<Rightarrow> clientSlot" where "new_client_slot m = \<lparr>cs_minute = m, cs_total = 0, cs_failed = 0\<rparr>"

type_synonym poolKey = "service_id \<times> rpc_type"

record counters =
  counting :: bool
  pools :: "(poolKey, pool) gomap"
  clients :: "(service_id, clientSlot list) gomap"
  peerRatio :: "(service_id \<Rightarrow> real) option"

definition minute_of :: "time \<Rightarrow> int" where "minute_of now = unix_of now div 60"

definition slot_index :: "int \<Rightarrow> nat" where "slot_index m = nat (m mod windowSlots)"

definition empty_pool :: pool where "empty_pool = replicate 10 (new_slot 0)"
definition empty_window :: "clientSlot list" where "empty_window = replicate 10 (new_client_slot 0)"

definition current_slot :: "pool \<Rightarrow> int \<Rightarrow> slot" where
  "current_slot p m = (let s = p ! slot_index m in if sl_minute s \<noteq> m then new_slot m else s)"

text \<open>\<^verbatim>\<open>slot\<close> with the change the caller makes through the pointer it returns.\<close>

definition with_slot :: "counters \<Rightarrow> poolKey \<Rightarrow> time \<Rightarrow> (slot \<Rightarrow> slot) \<Rightarrow> counters" where
  "with_slot e k now f =
     (let m = minute_of now;
          (p, cl) = (case map_of (pools e) k of
             Some p \<Rightarrow> (p, clients e)
           | None \<Rightarrow> (empty_pool, if map_of (clients e) (fst k) = None then AList.update (fst k) empty_window (clients e) else clients e))
      in e\<lparr>pools := AList.update k (p[slot_index m := f (current_slot p m)]) (pools e), clients := cl\<rparr>)"

definition op_of :: "slot \<Rightarrow> string \<Rightarrow> opCount" where
  "op_of s name = (case map_of (slot_ops s) name of Some c \<Rightarrow> c | None \<Rightarrow> no_count)"

definition with_op :: "string \<Rightarrow> (opCount \<Rightarrow> opCount) \<Rightarrow> slot \<Rightarrow> slot" where
  "with_op name f s = s\<lparr>slot_ops := AList.update name (f (op_of s name)) (slot_ops s)\<rparr>"

section \<open>Model: the hooks\<close>

text \<open>The operators of a collapse pick, each once as far as four distinct ones are remembered.\<close>

fun pick_ops :: "string list \<Rightarrow> string list \<Rightarrow> string list" where
  "pick_ops seen [] = []"
| "pick_ops seen (op # rest) =
     (if op \<in> set seen then pick_ops seen rest
      else op # pick_ops (if length seen < 4 then seen @ [op] else seen) rest)"

definition add_pick :: "opCount \<Rightarrow> opCount" where "add_pick c = c\<lparr>picks := picks c + 1\<rparr>"

definition collapse_slot :: "string list \<Rightarrow> slot \<Rightarrow> slot" where
  "collapse_slot ops s = fold (\<lambda>op. with_op op add_pick) (pick_ops [] ops) (s\<lparr>collapse := collapse s + 1\<rparr>)"

definition OnCollapse :: "psl \<Rightarrow> counters \<Rightarrow> service_id \<Rightarrow> rpc_type \<Rightarrow> endpoint_addr list \<Rightarrow> time \<Rightarrow> counters" where
  "OnCollapse psl e svc rpc served now =
     (if \<not> counting e \<or> served = [] then e
      else with_slot e (svc, rpc) now (collapse_slot (map (operator_of psl) served)))"

definition add_signal :: "bool \<Rightarrow> opCount \<Rightarrow> opCount" where
  "add_signal ok c = c\<lparr>attempts := attempts c + 1, successes := successes c + (if ok then 1 else 0)\<rparr>"

definition OnSignal :: "psl \<Rightarrow> counters \<Rightarrow> service_id \<Rightarrow> rpc_type \<Rightarrow> endpoint_addr \<Rightarrow> string \<Rightarrow> bool \<Rightarrow> time \<Rightarrow> counters" where
  "OnSignal psl e svc rpc ep st probe now =
     (if probe \<or> rpc \<noteq> RPCTypeWebSocket \<or> \<not> counting e then e
      else with_slot e (svc, rpc) now (with_op (operator_of psl ep) (add_signal (st = ''success''))))"

text \<open>Attributions are strings (\<^verbatim>\<open>ErrorAttribution.String\<close>, or \<^verbatim>\<open>none\<close> for an answer), as are
  the kinds of an attempt.\<close>

definition AttrSupplier :: string where "AttrSupplier = ''supplier''"
definition AttrBlockchain :: string where "AttrBlockchain = ''blockchain''"
definition AttrClient :: string where "AttrClient = ''client''"
definition AttrUnknown :: string where "AttrUnknown = ''unknown''"
definition AttemptFirst :: string where "AttemptFirst = ''first''"
definition AttemptProbation :: string where "AttemptProbation = ''probation''"

definition failed_attempt :: "string \<Rightarrow> bool" where
  "failed_attempt a \<longleftrightarrow> a = AttrSupplier \<or> a = AttrUnknown"

definition add_answer :: "string \<Rightarrow> bool \<Rightarrow> opCount \<Rightarrow> opCount" where
  "add_answer method chain c =
     (let b = method_bucket c method; m = method_of c b in
      c\<lparr>op_methods := AList.update b (m\<lparr>answered := answered m + 1, chain_errors := chain_errors m + (if chain then 1 else 0)\<rparr>) (op_methods c)\<rparr>)"

definition add_attempt :: "string \<Rightarrow> string \<Rightarrow> string \<Rightarrow> bool \<Rightarrow> opCount \<Rightarrow> opCount" where
  "add_attempt attr kind method retried c =
     (let failed = failed_attempt attr;
          c = c\<lparr>attempts := attempts c + 1, successes := successes c + (if failed then 0 else 1)\<rparr>
      in if kind \<noteq> AttemptFirst \<and> kind \<noteq> AttemptProbation then c
         else if failed then c\<lparr>firsts := firsts c + 1, firstFails := firstFails c + 1\<rparr>
         else add_answer method (attr = AttrBlockchain \<and> \<not> retried) (c\<lparr>firsts := firsts c + 1\<rparr>))"

definition OnAttempt :: "psl \<Rightarrow> counters \<Rightarrow> service_id \<Rightarrow> rpc_type \<Rightarrow> endpoint_addr \<Rightarrow> string \<Rightarrow> string \<Rightarrow> string \<Rightarrow> bool \<Rightarrow> time \<Rightarrow> counters" where
  "OnAttempt psl e svc rpc ep attr kind method retried now =
     (if \<not> counting e \<or> attr = AttrClient then e
      else with_slot e (svc, rpc) now (with_op (operator_of psl ep) (add_attempt attr kind method retried)))"

definition clientFailed :: "int \<Rightarrow> bool" where
  "clientFailed status \<longleftrightarrow> status \<ge> 500 \<or> status = 408 \<or> status = 429"

definition count_client :: "bool \<Rightarrow> clientSlot \<Rightarrow> clientSlot" where
  "count_client failed s = s\<lparr>cs_total := cs_total s + 1, cs_failed := cs_failed s + (if failed then 1 else 0)\<rparr>"

definition OnClientResult :: "counters \<Rightarrow> service_id \<Rightarrow> int \<Rightarrow> bool \<Rightarrow> time \<Rightarrow> counters" where
  "OnClientResult e svc status originChain now =
     (if svc = [] \<or> \<not> counting e then e
      else case map_of (clients e) svc of
        None \<Rightarrow> e
      | Some w \<Rightarrow>
          let m = minute_of now; i = slot_index m;
              s = (if cs_minute (w ! i) \<noteq> m then new_client_slot m else w ! i)
          in e\<lparr>clients := AList.update svc (w[i := count_client (\<not> originChain \<and> clientFailed status) s]) (clients e)\<rparr>)"

definition clientShare :: "counters \<Rightarrow> service_id \<Rightarrow> int \<Rightarrow> real \<times> nat" where
  "clientShare e svc oldest =
     (case map_of (clients e) svc of
        None \<Rightarrow> (0, 0)
      | Some w \<Rightarrow>
          let l = filter (\<lambda>s. \<not> cs_minute s < oldest) w; requests = sum_list (map cs_total l); failed = sum_list (map cs_failed l)
          in if requests = 0 then (0, 0) else (real failed / real requests, requests))"

section \<open>Model: the candidates\<close>

definition matched_methods :: "(string, methodCount) gomap \<Rightarrow> (string, methodCount) gomap \<Rightarrow> (string \<times> methodCount) list" where
  "matched_methods op pool =
     filter (\<lambda>(name, c). \<not> (name = overflowMethod \<or> answered c = 0 \<or>
        int (case map_of pool name of Some p \<Rightarrow> answered p | None \<Rightarrow> 0) - int (answered c) < minMethodPeers)) op"

definition expected_chain :: "(string, methodCount) gomap \<Rightarrow> string \<times> methodCount \<Rightarrow> real" where
  "expected_chain pool nc =
     (case nc of (name, c) \<Rightarrow>
       let p = (case map_of pool name of Some p \<Rightarrow> p | None \<Rightarrow> no_answers)
       in (real (chain_errors p) - real (chain_errors c)) / (real (answered p) - real (answered c)) * real (answered c))"

record chain_match =
  cm_matched :: nat
  cm_share :: real
  cm_peers :: real
  cm_excess :: real
  cm_outlier :: bool

definition matchedChain :: "(string, methodCount) gomap \<Rightarrow> (string, methodCount) gomap \<Rightarrow> chain_match" where
  "matchedChain op pool =
     (let ms = matched_methods op pool;
          matched = sum_list (map (answered \<circ> snd) ms);
          chain = sum_list (map (chain_errors \<circ> snd) ms);
          expected = sum_list (map (expected_chain pool) ms)
      in if matched < minAttempts
         then \<lparr>cm_matched = matched, cm_share = 0, cm_peers = 0, cm_excess = 0, cm_outlier = False\<rparr>
         else let share = real chain / real matched; peers = expected / real matched
              in \<lparr>cm_matched = matched, cm_share = share, cm_peers = peers, cm_excess = real chain - expected,
                  cm_outlier = (share - peers \<ge> chainGap \<and> share \<ge> chainRatio * peers)\<rparr>)"

definition median :: "real list \<Rightarrow> real" where
  "median xs =
     (if xs = [] then 0
      else let ys = sort xs; n = length ys in
        if n mod 2 = 1 then ys ! (n div 2) else (ys ! (n div 2 - 1) + ys ! (n div 2)) / 2)"

definition ratioFor :: "counters \<Rightarrow> service_id \<Rightarrow> real" where
  "ratioFor e svc = (case peerRatio e of Some f \<Rightarrow> f svc | None \<Rightarrow> DefaultPeerRatio)"

definition SetPeerRatio :: "counters \<Rightarrow> (service_id \<Rightarrow> real) \<Rightarrow> counters" where
  "SetPeerRatio e f = e\<lparr>peerRatio := Some f\<rparr>"

record opView =
  ov_attempts :: nat
  ov_firsts :: nat
  ov_success :: real
  ov_firstSuccess :: real
  ov_rate :: "real option"

record Event =
  At :: time
  ev_ServiceID :: service_id
  ev_RPCType :: rpc_type
  ev_Operator :: string
  Outcome :: "outcome option"
  CollapsePicks :: nat
  Share :: real
  ev_Attempts :: nat
  SuccessRate :: real
  Alternative :: string
  ev_Until :: "time option"
  Trigger :: trigger
  OperatorRate_ev :: real
  ClientFailure :: real
  ClientRequests :: nat
  Severe :: bool
  FirstAttempts :: nat
  FirstSuccess :: real
  MatchedAnswers :: nat
  ChainShare :: real
  PeerChainShare :: real
  AnswerHarm :: real
  PeerOperatorRate :: real
  PeerSuccessRate :: real
  PeerFirstSuccess :: real
  Peers :: nat
  PoolWide :: bool

definition measured_peers :: "string \<Rightarrow> (string, opView) gomap \<Rightarrow> opView list" where
  "measured_peers self views = map snd (filter (\<lambda>(name, v). name \<noteq> self \<and> \<not> ov_attempts v < minAttempts) views)"

definition pool_wide :: "Event \<Rightarrow> opView list \<Rightarrow> real \<Rightarrow> bool" where
  "pool_wide ev ps ratio =
     (let rates = List.map_filter ov_rate ps; success = map ov_success ps;
          firsts = map ov_firstSuccess (filter (\<lambda>v. ov_firsts v \<ge> minAttempts) ps)
      in if ratio \<le> 0 \<or> Trigger ev = TriggerChainAnswers then False
         else if Trigger ev = TriggerOperatorRate \<and> rates \<noteq> [] then OperatorRate_ev ev < ratio * median rates
         else if Trigger ev \<noteq> TriggerOperatorRate \<and> FirstAttempts ev \<ge> minAttempts \<and> firsts \<noteq> []
           then 1 - FirstSuccess ev < ratio * (1 - median firsts)
         else if Trigger ev \<noteq> TriggerOperatorRate \<and> success \<noteq> [] then 1 - SuccessRate ev < ratio * (1 - median success)
         else False)"

definition peerCompare :: "Event \<Rightarrow> string \<Rightarrow> (string, opView) gomap \<Rightarrow> real \<Rightarrow> Event" where
  "peerCompare ev self views ratio =
     (let ps = measured_peers self views in
      ev\<lparr>Peers := Peers ev + length ps,
         PeerOperatorRate := median (List.map_filter ov_rate ps),
         PeerSuccessRate := median (map ov_success ps),
         PeerFirstSuccess := median (map ov_firstSuccess (filter (\<lambda>v. ov_firsts v \<ge> minAttempts) ps)),
         PoolWide := pool_wide ev ps ratio\<rparr>)"

definition add_methodCount :: "methodCount \<Rightarrow> methodCount \<Rightarrow> methodCount" where
  "add_methodCount a b = \<lparr>answered = answered a + answered b, chain_errors = chain_errors a + chain_errors b\<rparr>"

definition add_methods :: "(string, methodCount) gomap \<Rightarrow> (string, methodCount) gomap \<Rightarrow> (string, methodCount) gomap" where
  "add_methods ms acc =
     fold (\<lambda>(name, c) acc. AList.update name (add_methodCount (case map_of acc name of Some m \<Rightarrow> m | None \<Rightarrow> no_answers) c) acc) ms acc"

definition add_count :: "opCount \<Rightarrow> opCount \<Rightarrow> opCount" where
  "add_count a c =
     \<lparr>picks = picks a + picks c, attempts = attempts a + attempts c, successes = successes a + successes c,
      firsts = firsts a + firsts c, firstFails = firstFails a + firstFails c, op_methods = add_methods (op_methods c) (op_methods a)\<rparr>"

definition add_ops :: "slot \<Rightarrow> (string, opCount) gomap \<Rightarrow> (string, opCount) gomap" where
  "add_ops s acc =
     fold (\<lambda>(name, c) acc. AList.update name (add_count (case map_of acc name of Some t \<Rightarrow> t | None \<Rightarrow> no_count) c) acc) (slot_ops s) acc"

definition live_slots :: "pool \<Rightarrow> int \<Rightarrow> slot list" where
  "live_slots p oldest = filter (\<lambda>s. \<not> sl_minute s < oldest) p"

definition window_ops :: "pool \<Rightarrow> int \<Rightarrow> (string, opCount) gomap" where
  "window_ops p oldest = fold add_ops (live_slots p oldest) []"

definition pool_methods :: "pool \<Rightarrow> int \<Rightarrow> (string, methodCount) gomap" where
  "pool_methods p oldest = fold (\<lambda>s acc. fold (\<lambda>(name, c). add_methods (op_methods c)) (slot_ops s) acc) (live_slots p oldest) []"

type_synonym rates_fn = "(service_id \<Rightarrow> rpc_type \<Rightarrow> string \<Rightarrow> real option) option"

definition opRate :: "rates_fn \<Rightarrow> poolKey \<Rightarrow> string \<Rightarrow> real option" where
  "opRate rates k operator = (case rates of None \<Rightarrow> None | Some f \<Rightarrow> f (fst k) (snd k) operator)"

definition op_view :: "rates_fn \<Rightarrow> poolKey \<Rightarrow> string \<Rightarrow> opCount \<Rightarrow> opView" where
  "op_view rates k name c =
     \<lparr>ov_attempts = attempts c, ov_firsts = firsts c,
      ov_success = (if attempts c > 0 then real (successes c) / real (attempts c) else 0),
      ov_firstSuccess = (if firsts c > 0 then 1 - real (firstFails c) / real (firsts c) else 0),
      ov_rate = (if attempts c \<ge> minAttempts then opRate rates k name else None)\<rparr>"

definition trigger_of :: "nat \<Rightarrow> real \<Rightarrow> opView \<Rightarrow> bool \<Rightarrow> trigger option" where
  "trigger_of picked share v outlier =
     (if ov_attempts v \<ge> minAttempts \<and> picked \<ge> minCollapse \<and> share \<ge> minShare \<and> ov_success v \<le> maxSuccess then Some TriggerCollapse
      else if outlier then Some TriggerChainAnswers
      else if ov_attempts v \<ge> minAttempts \<and> (case ov_rate v of Some r \<Rightarrow> r | None \<Rightarrow> 0) \<ge> opRateTrigger then Some TriggerOperatorRate
      else None)"

record candidate =
  cand_key :: drain_key
  cand_event :: Event

definition op_candidate :: "poolKey \<Rightarrow> nat \<Rightarrow> real \<Rightarrow> nat \<Rightarrow> (string, opView) gomap \<Rightarrow> (string, methodCount) gomap \<Rightarrow> real \<Rightarrow>
    string \<Rightarrow> opCount \<Rightarrow> opView \<Rightarrow> candidate option" where
  "op_candidate k picked cshare creq views poolMethods ratio name c v =
     (let share = (if picked > 0 then real (picks c) / real picked else 0);
          cm = matchedChain (op_methods c) poolMethods;
          harm = (if cm_outlier cm \<and> creq > 0 then cm_excess cm / real creq else 0)
      in case trigger_of picked share v (cm_outlier cm) of
           None \<Rightarrow> None
         | Some t \<Rightarrow>
             let ev = \<lparr>At = 0, ev_ServiceID = fst k, ev_RPCType = snd k, ev_Operator = name, Outcome = None, CollapsePicks = picked,
                   Share = share, ev_Attempts = attempts c, SuccessRate = ov_success v, Alternative = [], ev_Until = None,
                   Trigger = t, OperatorRate_ev = (case ov_rate v of Some r \<Rightarrow> r | None \<Rightarrow> 0), ClientFailure = cshare, ClientRequests = creq,
                   Severe = False, FirstAttempts = firsts c, FirstSuccess = ov_firstSuccess v, MatchedAnswers = cm_matched cm,
                   ChainShare = cm_share cm, PeerChainShare = cm_peers cm, AnswerHarm = harm, PeerOperatorRate = 0,
                   PeerSuccessRate = 0, PeerFirstSuccess = 0, Peers = 0, PoolWide = False\<rparr>
             in Some \<lparr>cand_key = \<lparr>ServiceID = fst k, Operator_key = name, RPCType = snd k\<rparr>, cand_event = peerCompare ev name views ratio\<rparr>)"

definition pool_candidates :: "counters \<Rightarrow> rates_fn \<Rightarrow> int \<Rightarrow> poolKey \<times> pool \<Rightarrow> candidate list" where
  "pool_candidates e rates oldest kp =
     (case kp of (k, p) \<Rightarrow>
       let picked = sum_list (map collapse (live_slots p oldest)); ops = window_ops p oldest;
           (cshare, creq) = clientShare e (fst k) oldest;
           views = map (\<lambda>(name, c). (name, op_view rates k name c)) ops
       in List.map_filter (\<lambda>(name, c). op_candidate k picked cshare creq views (pool_methods p oldest) (ratioFor e (fst k)) name c
            (op_view rates k name c)) ops)"

definition oldest_minute :: "time \<Rightarrow> int" where
  "oldest_minute now = minute_of now - windowSlots + 1"

definition window :: "counters \<Rightarrow> rates_fn \<Rightarrow> time \<Rightarrow> candidate list" where
  "window e rates now = concat (map (pool_candidates e rates (oldest_minute now)) (pools e))"

section \<open>Lemmas: the ring of slots\<close>

text \<open>One pool, driven by the changes made to its slots: what each slot holds is the changes of its minute.\<close>

datatype slot_change =
    ChCollapse "string list"
  | ChSignal string bool
  | ChAttempt string string string string bool

fun act :: "slot_change \<Rightarrow> slot \<Rightarrow> slot" where
  "act (ChCollapse ops) = collapse_slot ops"
| "act (ChSignal op ok) = with_op op (add_signal ok)"
| "act (ChAttempt op attr kind method retried) = with_op op (add_attempt attr kind method retried)"

type_synonym change = "int \<times> slot_change"

definition ring_step :: "change \<Rightarrow> pool \<Rightarrow> pool" where
  "ring_step ch p = p[slot_index (fst ch) := act (snd ch) (current_slot p (fst ch))]"

definition contributions :: "(slot_change \<Rightarrow> nat) \<Rightarrow> change list \<Rightarrow> (int \<Rightarrow> bool) \<Rightarrow> nat" where
  "contributions w chs P = sum_list (map (w \<circ> snd) (filter (\<lambda>ch. P (fst ch)) chs))"

lemma contributions_append: "contributions w (xs @ ys) P = contributions w xs P + contributions w ys P"
  by (simp add: contributions_def)

lemma contributions_none: "(\<And>ch. ch \<in> set chs \<Longrightarrow> \<not> P (fst ch)) \<Longrightarrow> contributions w chs P = 0"
  by (simp add: contributions_def filter_empty_conv)

lemma contributions_cong: "(\<And>ch. ch \<in> set chs \<Longrightarrow> P (fst ch) = Q (fst ch)) \<Longrightarrow> contributions w chs P = contributions w chs Q"
  unfolding contributions_def by (metis (mono_tags, lifting) filter_cong)

lemma slot_index_less: "slot_index m < 10"
  by (simp add: slot_index_def windowSlots_def nat_less_iff)

lemma with_op_minute: "sl_minute (with_op name f s) = sl_minute s"
  by (simp add: with_op_def)

lemma fold_with_op_frame:
  "sl_minute (fold (\<lambda>op. with_op op f) ops s) = sl_minute s" "collapse (fold (\<lambda>op. with_op op f) ops s) = collapse s"
  by (induction ops arbitrary: s) (simp_all add: with_op_def)

lemma act_minute: "sl_minute (act c s) = sl_minute s"
  by (cases c) (simp_all add: collapse_slot_def fold_with_op_frame with_op_minute)

text \<open>A count kept in the slots: a number read from a slot that every change raises by its weight.\<close>

locale slot_count =
  fixes phi :: "slot \<Rightarrow> nat" and w :: "slot_change \<Rightarrow> nat"
  assumes start: "phi (new_slot m) = 0"
    and step: "phi (act c s) = phi s + w c"
begin

definition ring_ok :: "change list \<Rightarrow> pool \<Rightarrow> bool" where
  "ring_ok chs p \<longleftrightarrow> length p = 10 \<and> (\<forall>i < 10.
     phi (p ! i) = contributions w chs (\<lambda>m. m = sl_minute (p ! i) \<and> slot_index m = i) \<and>
     (\<forall>ch \<in> set chs. slot_index (fst ch) = i \<longrightarrow> slot_index (sl_minute (p ! i)) = i \<and> fst ch \<le> sl_minute (p ! i) \<and>
        (\<exists>ch' \<in> set chs. fst ch' = sl_minute (p ! i))))"

lemma ring_okD:
  assumes "ring_ok chs p" "i < 10" "ch \<in> set chs" "slot_index (fst ch) = i"
  shows "slot_index (sl_minute (p ! i)) = i" "fst ch \<le> sl_minute (p ! i)" "\<exists>ch' \<in> set chs. fst ch' = sl_minute (p ! i)"
  using assms unfolding ring_ok_def by blast+

lemma ring_ok_start: "ring_ok [] empty_pool"
  using start by (simp add: ring_ok_def empty_pool_def contributions_def)

lemma ring_ok_step:
  assumes "ring_ok chs p" "\<And>c. c \<in> set chs \<Longrightarrow> fst c \<le> fst ch"
  shows "ring_ok (chs @ [ch]) (ring_step ch p)"
proof -
  let ?m = "fst ch" and ?j = "slot_index (fst ch)"
  let ?s = "current_slot p ?m"
  have len: "length p = 10" using assms(1) by (simp add: ring_ok_def)
  have at_i: "phi (p ! i) = contributions w chs (\<lambda>m. m = sl_minute (p ! i) \<and> slot_index m = i)" if "i < 10" for i
    using assms(1) that by (simp add: ring_ok_def)
  have ms: "sl_minute ?s = ?m" by (simp add: current_slot_def Let_def new_slot_def)
  have cur: "phi ?s = contributions w chs (\<lambda>m. m = ?m)"
  proof (cases "sl_minute (p ! ?j) = ?m")
    case True
    then have "phi ?s = phi (p ! ?j)" by (simp add: current_slot_def Let_def)
    also have "\<dots> = contributions w chs (\<lambda>m. m = ?m)"
      using at_i [OF slot_index_less] True by (auto intro: contributions_cong)
    finally show ?thesis .
  next
    case False
    then have "phi ?s = 0" using start by (simp add: current_slot_def Let_def)
    moreover have "contributions w chs (\<lambda>m. m = ?m) = 0"
    proof (rule contributions_none)
      fix c assume c: "c \<in> set chs"
      show "fst c \<noteq> ?m"
      proof
        assume e: "fst c = ?m"
        then have "?m \<le> sl_minute (p ! ?j)" "\<exists>c' \<in> set chs. fst c' = sl_minute (p ! ?j)"
          using ring_okD [OF assms(1) slot_index_less c] e by simp_all
        then show False using assms(2) False by force
      qed
    qed
    ultimately show ?thesis by simp
  qed
  have nth: "ring_step ch p ! i = (if i = ?j then act (snd ch) ?s else p ! i)" if "i < 10" for i
    using that len by (auto simp: ring_step_def nth_list_update)
  show ?thesis unfolding ring_ok_def
  proof (intro conjI allI impI)
    show "length (ring_step ch p) = 10" using len by (simp add: ring_step_def)
    fix i :: nat assume i: "i < 10"
    let ?x = "ring_step ch p ! i"
    show "phi ?x = contributions w (chs @ [ch]) (\<lambda>m. m = sl_minute ?x \<and> slot_index m = i)"
    proof (cases "i = ?j")
      case True
      then have "phi ?x = phi ?s + w (snd ch)" "sl_minute ?x = ?m" using nth [OF i] step act_minute ms by simp_all
      moreover have "contributions w chs (\<lambda>m. m = ?m \<and> slot_index m = i) = contributions w chs (\<lambda>m. m = ?m)"
        using True by (intro contributions_cong) auto
      ultimately show ?thesis using cur True by (simp add: contributions_append) (simp add: contributions_def)
    next
      case False
      then show ?thesis using nth [OF i] at_i [OF i] by (auto simp: contributions_append) (auto simp: contributions_def)
    qed
    show "\<forall>c \<in> set (chs @ [ch]). slot_index (fst c) = i \<longrightarrow> slot_index (sl_minute ?x) = i \<and> fst c \<le> sl_minute ?x \<and>
        (\<exists>c' \<in> set (chs @ [ch]). fst c' = sl_minute ?x)"
    proof (cases "i = ?j")
      case True
      then have "sl_minute ?x = ?m" using nth [OF i] act_minute ms by simp
      then show ?thesis using True assms(2) by auto
    next
      case False
      then have x: "?x = p ! i" using nth [OF i] by simp
      have "\<forall>c \<in> set chs. slot_index (fst c) = i \<longrightarrow> slot_index (sl_minute (p ! i)) = i \<and> fst c \<le> sl_minute (p ! i) \<and>
        (\<exists>c' \<in> set chs. fst c' = sl_minute (p ! i))" using assms(1) i unfolding ring_ok_def by blast
      then show ?thesis using False unfolding x by auto
    qed
  qed
qed

lemma ring_run:
  assumes "sorted (map fst chs)"
  shows "ring_ok chs (fold ring_step chs empty_pool)"
  using assms
proof (induction chs rule: rev_induct)
  case Nil
  then show ?case by (simp add: ring_ok_start)
next
  case (snoc ch chs)
  then show ?case using ring_ok_step [of chs "fold ring_step chs empty_pool" ch] by (auto simp: sorted_append)
qed

text \<open>Summed over the live slots, the count is that of the changes of the last ten minutes.\<close>

lemma slots_count:
  assumes "sorted (map fst chs)" "\<And>ch. ch \<in> set chs \<Longrightarrow> fst ch \<le> now" "oldest = now - windowSlots + 1"
  shows "sum_list (map phi (live_slots (fold ring_step chs empty_pool) oldest)) = contributions w chs (\<lambda>m. oldest \<le> m)"
proof -
  let ?p = "fold ring_step chs empty_pool"
  have ok: "ring_ok chs ?p" by (rule ring_run [OF assms(1)])
  then have len: "length ?p = 10" by (simp add: ring_ok_def)
  have slot: "(if oldest \<le> sl_minute (?p ! i) then phi (?p ! i) else 0) = contributions w chs (\<lambda>m. oldest \<le> m \<and> slot_index m = i)"
    if i: "i < 10" for i
  proof -
    let ?x = "sl_minute (?p ! i)"
    have in_i: "slot_index ?x = i \<and> fst ch \<le> ?x \<and> ?x \<le> now" if "ch \<in> set chs" "slot_index (fst ch) = i" for ch
      using ring_okD [OF ok i that] assms(2) by force
    have same: "fst ch = ?x" if "ch \<in> set chs" "slot_index (fst ch) = i" "oldest \<le> fst ch" for ch
    proof -
      have b: "oldest \<le> fst ch" "fst ch \<le> ?x" "?x \<le> now" "slot_index ?x = slot_index (fst ch)" using in_i that by auto
      then have "?x mod 10 = fst ch mod 10" by (simp add: slot_index_def windowSlots_def)
      moreover have "?x - fst ch < 10" "0 \<le> ?x - fst ch" using b assms(3) by (simp_all add: windowSlots_def)
      ultimately show ?thesis by presburger
    qed
    have eq: "(oldest \<le> fst ch \<and> slot_index (fst ch) = i) = (oldest \<le> ?x \<and> fst ch = ?x \<and> slot_index (fst ch) = i)"
      if "ch \<in> set chs" for ch
      using same [OF that] by metis
    have "contributions w chs (\<lambda>m. oldest \<le> m \<and> slot_index m = i) = contributions w chs (\<lambda>m. oldest \<le> ?x \<and> m = ?x \<and> slot_index m = i)"
      by (rule contributions_cong) (rule eq)
    moreover have "phi (?p ! i) = contributions w chs (\<lambda>m. m = ?x \<and> slot_index m = i)" using ok i by (simp add: ring_ok_def)
    ultimately show ?thesis by (cases "oldest \<le> ?x") (simp_all add: contributions_def)
  qed
  have "sum_list (map phi (live_slots ?p oldest)) = (\<Sum>i < 10. if oldest \<le> sl_minute (?p ! i) then phi (?p ! i) else 0)"
  proof -
    have "sum_list (map phi (live_slots ?p oldest)) = sum_list (map (\<lambda>s. if oldest \<le> sl_minute s then phi s else 0) ?p)"
      by (simp add: live_slots_def sum_list_map_filter' not_less)
    then show ?thesis by (simp add: sum_list_sum_nth len atLeast0LessThan)
  qed
  also have "\<dots> = (\<Sum>i < 10. contributions w chs (\<lambda>m. oldest \<le> m \<and> slot_index m = i))" using slot by simp
  also have "\<dots> = contributions w chs (\<lambda>m. oldest \<le> m)"
  proof (induction chs)
    case Nil
    then show ?case by (simp add: contributions_def)
  next
    case (Cons ch chs)
    have "(\<Sum>i < 10. if oldest \<le> fst ch \<and> slot_index (fst ch) = i then w (snd ch) else 0) = (if oldest \<le> fst ch then w (snd ch) else 0)"
      using slot_index_less [of "fst ch"] by (auto simp: sum.delta)
    moreover have "contributions w (ch # chs) P = (if P (fst ch) then w (snd ch) else 0) + contributions w chs P" for P
      by (simp add: contributions_def)
    ultimately show ?case using Cons by (simp add: sum.distrib)
  qed
  finally show ?thesis .
qed

end

section \<open>Lemmas: what is counted\<close>

fun attempt_by :: "string \<Rightarrow> slot_change \<Rightarrow> bool" where
  "attempt_by name (ChCollapse ops) = False"
| "attempt_by name (ChSignal op ok) = (op = name)"
| "attempt_by name (ChAttempt op attr kind method retried) = (op = name)"

fun success_by :: "string \<Rightarrow> slot_change \<Rightarrow> bool" where
  "success_by name (ChCollapse ops) = False"
| "success_by name (ChSignal op ok) = (op = name \<and> ok)"
| "success_by name (ChAttempt op attr kind method retried) = (op = name \<and> \<not> failed_attempt attr)"

fun first_by :: "string \<Rightarrow> slot_change \<Rightarrow> bool" where
  "first_by name (ChAttempt op attr kind method retried) = (op = name \<and> (kind = AttemptFirst \<or> kind = AttemptProbation))"
| "first_by name _ = False"

fun first_fail_by :: "string \<Rightarrow> slot_change \<Rightarrow> bool" where
  "first_fail_by name (ChAttempt op attr kind method retried) =
     (op = name \<and> (kind = AttemptFirst \<or> kind = AttemptProbation) \<and> failed_attempt attr)"
| "first_fail_by name _ = False"

fun picks_of :: "string \<Rightarrow> slot_change \<Rightarrow> nat" where
  "picks_of name (ChCollapse ops) = count_list (pick_ops [] ops) name"
| "picks_of name _ = 0"

fun is_collapse :: "slot_change \<Rightarrow> bool" where
  "is_collapse (ChCollapse ops) = True"
| "is_collapse _ = False"

lemma op_of_with_op: "op_of (with_op name f s) name' = (if name' = name then f (op_of s name) else op_of s name')"
  by (simp add: op_of_def with_op_def gomap_simps)

lemma op_of_new [simp]: "op_of (new_slot m) name = no_count"
  by (simp add: op_of_def new_slot_def)

lemma op_of_collapse: "op_of (s\<lparr>collapse := n\<rparr>) name = op_of s name"
  by (simp add: op_of_def)

lemma picks_fold: "picks (op_of (fold (\<lambda>op. with_op op add_pick) ops s) name) = picks (op_of s name) + count_list ops name"
  by (induction ops arbitrary: s) (simp_all add: op_of_with_op add_pick_def)

lemma add_pick_frame:
  "attempts (op_of (fold (\<lambda>op. with_op op add_pick) ops s) name) = attempts (op_of s name)"
  "successes (op_of (fold (\<lambda>op. with_op op add_pick) ops s) name) = successes (op_of s name)"
  "firsts (op_of (fold (\<lambda>op. with_op op add_pick) ops s) name) = firsts (op_of s name)"
  "firstFails (op_of (fold (\<lambda>op. with_op op add_pick) ops s) name) = firstFails (op_of s name)"
  by (induction ops arbitrary: s) (simp_all add: op_of_with_op add_pick_def)

lemma add_answer_frame:
  "attempts (add_answer method chain c) = attempts c" "successes (add_answer method chain c) = successes c"
  "firsts (add_answer method chain c) = firsts c" "firstFails (add_answer method chain c) = firstFails c" "picks (add_answer method chain c) = picks c"
  by (simp_all add: add_answer_def Let_def)

lemma add_attempt_fields:
  "picks (add_attempt attr kind method retried c) = picks c"
  "attempts (add_attempt attr kind method retried c) = attempts c + 1"
  "successes (add_attempt attr kind method retried c) = successes c + of_bool (\<not> failed_attempt attr)"
  "firsts (add_attempt attr kind method retried c) = firsts c + of_bool (kind = AttemptFirst \<or> kind = AttemptProbation)"
  "firstFails (add_attempt attr kind method retried c) =
     firstFails c + of_bool ((kind = AttemptFirst \<or> kind = AttemptProbation) \<and> failed_attempt attr)"
  by (simp_all add: add_attempt_def add_answer_frame Let_def)

lemmas act_simps = op_of_with_op op_of_collapse collapse_slot_def add_pick_frame picks_fold add_attempt_fields add_signal_def no_count_def
  fold_with_op_frame

interpretation attempts_in: slot_count "\<lambda>s. attempts (op_of s name)" "\<lambda>c. of_bool (attempt_by name c)" for name
proof
  show "attempts (op_of (act c s) name) = attempts (op_of s name) + of_bool (attempt_by name c)" for c s
    by (cases c) (simp_all add: act_simps)
qed (simp add: no_count_def)

interpretation successes_in: slot_count "\<lambda>s. successes (op_of s name)" "\<lambda>c. of_bool (success_by name c)" for name
proof
  show "successes (op_of (act c s) name) = successes (op_of s name) + of_bool (success_by name c)" for c s
    by (cases c) (simp_all add: act_simps)
qed (simp add: no_count_def)

interpretation firsts_in: slot_count "\<lambda>s. firsts (op_of s name)" "\<lambda>c. of_bool (first_by name c)" for name
proof
  show "firsts (op_of (act c s) name) = firsts (op_of s name) + of_bool (first_by name c)" for c s
    by (cases c) (simp_all add: act_simps)
qed (simp add: no_count_def)

interpretation first_fails_in: slot_count "\<lambda>s. firstFails (op_of s name)" "\<lambda>c. of_bool (first_fail_by name c)" for name
proof
  show "firstFails (op_of (act c s) name) = firstFails (op_of s name) + of_bool (first_fail_by name c)" for c s
    by (cases c) (simp_all add: act_simps)
qed (simp add: no_count_def)

interpretation picks_in: slot_count "\<lambda>s. picks (op_of s name)" "picks_of name" for name
proof
  show "picks (op_of (act c s) name) = picks (op_of s name) + picks_of name c" for c s
    by (cases c) (simp_all add: act_simps)
qed (simp add: no_count_def)

interpretation collapses_in: slot_count collapse "\<lambda>c. of_bool (is_collapse c)"
proof
  show "collapse (act c s) = collapse s + of_bool (is_collapse c)" for c s
    by (cases c) (simp_all add: act_simps with_op_def)
qed (simp add: new_slot_def)

section \<open>Lemmas: the totals of a window\<close>

definition window_count :: "pool \<Rightarrow> int \<Rightarrow> string \<Rightarrow> opCount" where
  "window_count p oldest name = (case map_of (window_ops p oldest) name of Some c \<Rightarrow> c | None \<Rightarrow> no_count)"

definition slots_ok :: "pool \<Rightarrow> bool" where
  "slots_ok p \<longleftrightarrow> (\<forall>s \<in> set p. gomap_ok (slot_ops s))"

lemma gomap_ok_with_op: "gomap_ok (slot_ops s) \<Longrightarrow> gomap_ok (slot_ops (with_op name f s))"
  by (simp add: with_op_def)

lemma gomap_ok_act: "gomap_ok (slot_ops s) \<Longrightarrow> gomap_ok (slot_ops (act c s))"
proof (cases c)
  case (ChCollapse ops)
  have "gomap_ok (slot_ops (fold (\<lambda>op. with_op op add_pick) xs t))" if "gomap_ok (slot_ops t)" for xs t
    using that by (induction xs arbitrary: t) (simp_all add: gomap_ok_with_op)
  moreover assume "gomap_ok (slot_ops s)"
  ultimately show ?thesis by (simp add: ChCollapse collapse_slot_def)
qed (simp_all add: gomap_ok_with_op)

lemma slots_ok_run: "slots_ok p \<Longrightarrow> length p = 10 \<Longrightarrow> slots_ok (fold ring_step chs p) \<and> length (fold ring_step chs p) = 10"
proof (induction chs arbitrary: p)
  case (Cons ch chs)
  have "gomap_ok (slot_ops (current_slot p (fst ch)))"
    using Cons.prems slot_index_less [of "fst ch"] by (auto simp: current_slot_def Let_def new_slot_def slots_ok_def)
  then have "slots_ok (ring_step ch p)"
    using Cons.prems(1) gomap_ok_act set_update_subset_insert [of p "slot_index (fst ch)" "act (snd ch) (current_slot p (fst ch))"]
    unfolding slots_ok_def ring_step_def by blast
  then show ?case using Cons by (simp add: ring_step_def)
qed simp

lemma map_of_add_ops:
  assumes "gomap_ok (slot_ops s)"
  shows "map_of (add_ops s acc) name = (case map_of (slot_ops s) name of None \<Rightarrow> map_of acc name
    | Some c \<Rightarrow> Some (add_count (case map_of acc name of Some t \<Rightarrow> t | None \<Rightarrow> no_count) c))"
proof -
  have "gomap_ok xs \<Longrightarrow> map_of (fold (\<lambda>(name, c) acc. AList.update name (add_count (case map_of acc name of Some t \<Rightarrow> t | None \<Rightarrow> no_count) c) acc) xs acc) name
    = (case map_of xs name of None \<Rightarrow> map_of acc name | Some c \<Rightarrow> Some (add_count (case map_of acc name of Some t \<Rightarrow> t | None \<Rightarrow> no_count) c))" for xs
  proof (induction xs arbitrary: acc)
    case (Cons x xs)
    obtain n c where x: "x = (n, c)" by fastforce
    have d: "gomap_ok xs" "map_of xs n = None" using Cons.prems by (auto simp: x gomap_ok_def map_of_eq_None_iff)
    show ?case using Cons.IH [OF d(1)] d(2) by (cases "n = name") (auto simp: x gomap_simps split: option.split)
  qed simp
  then show ?thesis using assms by (simp add: add_ops_def)
qed

text \<open>Every total of the window is the sum of the live slots' counts.\<close>

lemma window_count_sum:
  assumes "\<And>a c. f (add_count a c) = f a + f c" "f no_count = (0 :: nat)" "slots_ok p"
  shows "f (window_count p oldest name) = sum_list (map (\<lambda>s. f (op_of s name)) (live_slots p oldest))"
proof -
  have "(\<forall>s \<in> set ss. gomap_ok (slot_ops s)) \<Longrightarrow>
    f (case map_of (fold add_ops ss acc) name of Some c \<Rightarrow> c | None \<Rightarrow> no_count) =
    f (case map_of acc name of Some c \<Rightarrow> c | None \<Rightarrow> no_count) + sum_list (map (\<lambda>s. f (op_of s name)) ss)" for ss acc
  proof (induction ss arbitrary: acc)
    case (Cons s ss)
    then show ?case using assms(1,2) by (auto simp: map_of_add_ops op_of_def split: option.splits)
  qed simp
  from this [of "live_slots p oldest" "[]"] show ?thesis
    using assms(2,3) by (simp add: window_count_def window_ops_def live_slots_def slots_ok_def)
qed

section \<open>Lemmas: runs of the hooks\<close>

datatype hook =
    HCollapse service_id rpc_type "endpoint_addr list" time
  | HSignal service_id rpc_type endpoint_addr string bool time
  | HAttempt service_id rpc_type endpoint_addr string string string bool time
  | HClient service_id int bool time

fun run_hook :: "psl \<Rightarrow> hook \<Rightarrow> counters \<Rightarrow> counters" where
  "run_hook psl (HCollapse svc rpc served t) e = OnCollapse psl e svc rpc served t"
| "run_hook psl (HSignal svc rpc ep st probe t) e = OnSignal psl e svc rpc ep st probe t"
| "run_hook psl (HAttempt svc rpc ep attr kind method retried t) e = OnAttempt psl e svc rpc ep attr kind method retried t"
| "run_hook psl (HClient svc status chain t) e = OnClientResult e svc status chain t"

fun hook_minute :: "hook \<Rightarrow> int" where
  "hook_minute (HCollapse svc rpc served t) = minute_of t"
| "hook_minute (HSignal svc rpc ep st probe t) = minute_of t"
| "hook_minute (HAttempt svc rpc ep attr kind method retried t) = minute_of t"
| "hook_minute (HClient svc status chain t) = minute_of t"

text \<open>What a call adds to a pool, if anything.\<close>

fun hook_change :: "psl \<Rightarrow> poolKey \<Rightarrow> hook \<Rightarrow> slot_change option" where
  "hook_change psl k (HCollapse svc rpc served t) =
     (if k = (svc, rpc) \<and> served \<noteq> [] then Some (ChCollapse (map (operator_of psl) served)) else None)"
| "hook_change psl k (HSignal svc rpc ep st probe t) =
     (if k = (svc, rpc) \<and> \<not> probe \<and> rpc = RPCTypeWebSocket then Some (ChSignal (operator_of psl ep) (st = ''success'')) else None)"
| "hook_change psl k (HAttempt svc rpc ep attr kind method retried t) =
     (if k = (svc, rpc) \<and> attr \<noteq> AttrClient then Some (ChAttempt (operator_of psl ep) attr kind method retried) else None)"
| "hook_change psl k (HClient svc status chain t) = None"

definition changes_of :: "psl \<Rightarrow> poolKey \<Rightarrow> hook list \<Rightarrow> change list" where
  "changes_of psl k hs = List.map_filter (\<lambda>h. map_option (\<lambda>c. (hook_minute h, c)) (hook_change psl k h)) hs"

definition pool_of :: "counters \<Rightarrow> poolKey \<Rightarrow> pool" where
  "pool_of e k = (case map_of (pools e) k of Some p \<Rightarrow> p | None \<Rightarrow> empty_pool)"

lemma pool_of_with_slot:
  "pool_of (with_slot e k now f) k' =
     (if k' = k then (pool_of e k)[slot_index (minute_of now) := f (current_slot (pool_of e k) (minute_of now))] else pool_of e k')"
  by (auto simp: with_slot_def pool_of_def Let_def gomap_simps split: option.split)

lemma counting_with_slot: "counting (with_slot e k now f) = counting e"
  by (simp add: with_slot_def Let_def split: option.split)

lemma run_hook_step:
  assumes "counting e"
  shows "counting (run_hook psl h e)"
    "pool_of (run_hook psl h e) k = (case hook_change psl k h of None \<Rightarrow> pool_of e k | Some c \<Rightarrow> ring_step (hook_minute h, c) (pool_of e k))"
proof -
  show "counting (run_hook psl h e)"
    using assms by (cases h) (simp_all add: OnCollapse_def OnSignal_def OnAttempt_def OnClientResult_def counting_with_slot Let_def split: option.split)
  show "pool_of (run_hook psl h e) k = (case hook_change psl k h of None \<Rightarrow> pool_of e k | Some c \<Rightarrow> ring_step (hook_minute h, c) (pool_of e k))"
  proof (cases h)
    case (HClient svc status chain t)
    then show ?thesis by (simp add: OnClientResult_def pool_of_def Let_def split: option.split)
  qed (use assms in \<open>simp_all add: OnCollapse_def OnSignal_def OnAttempt_def pool_of_with_slot ring_step_def\<close>)
qed

lemma run_hooks_pool:
  "counting e \<Longrightarrow> counting (fold (run_hook psl) hs e) \<and> pool_of (fold (run_hook psl) hs e) k = fold ring_step (changes_of psl k hs) (pool_of e k)"
proof (induction hs arbitrary: e)
  case (Cons h hs)
  note st = run_hook_step [OF Cons.prems, of psl h]
  show ?case using Cons.IH [OF st(1)] st(2) [of k] by (simp add: changes_of_def List.map_filter_simps split: option.split)
qed (simp add: changes_of_def List.map_filter_simps)

lemma empty_pool_ok: "slots_ok empty_pool" "length empty_pool = 10"
  by (simp_all add: empty_pool_def slots_ok_def new_slot_def)

lemma sorted_changes: "sorted (map hook_minute hs) \<Longrightarrow> sorted (map fst (changes_of psl k hs))"
proof (induction hs)
  case (Cons h hs)
  have "\<forall>ch \<in> set (changes_of psl k hs). hook_minute h \<le> fst ch"
    using Cons.prems by (auto simp: changes_of_def set_map_filter split: option.splits)
  then show ?case using Cons by (auto simp: changes_of_def List.map_filter_simps split: option.split)
qed (simp add: changes_of_def List.map_filter_simps)

lemma changes_minute: "ch \<in> set (changes_of psl k hs) \<Longrightarrow> \<exists>h \<in> set hs. fst ch = hook_minute h"
  by (auto simp: changes_of_def set_map_filter split: option.splits)

definition recent_changes :: "psl \<Rightarrow> poolKey \<Rightarrow> hook list \<Rightarrow> int \<Rightarrow> slot_change list" where
  "recent_changes psl k hs oldest = List.map_filter (hook_change psl k) (filter (\<lambda>h. oldest \<le> hook_minute h) hs)"

lemma contributions_recent: "contributions w (changes_of psl k hs) (\<lambda>m. oldest \<le> m) = sum_list (map w (recent_changes psl k hs oldest))"
  by (induction hs) (auto simp: contributions_def changes_of_def recent_changes_def List.map_filter_simps split: option.split)

lemma sum_of_bool: "sum_list (map (\<lambda>c. of_bool (P c)) cs) = length (filter P cs)"
  by (induction cs) auto

section \<open>Properties\<close>

text \<open>C23. The ring of ten slots is a sliding window: after any calls of the hooks in clock order, what the
  engine reads for an operator of a pool is exactly the attempts, successes, first attempts, their failures and
  the collapse picks of the calls made in the last ten minutes, none lost when a slot is reused and none kept
  from an earlier lap.\<close>

theorem window_counts_recent:
  assumes "counting e" "pools e = []" "sorted (map hook_minute hs)" "\<forall>h \<in> set hs. hook_minute h \<le> minute_of now"
  shows "let p = pool_of (fold (run_hook psl) hs e) k; oldest = oldest_minute now;
      c = window_count p oldest name; recent = recent_changes psl k hs oldest in
    attempts c = length (filter (attempt_by name) recent) \<and> successes c = length (filter (success_by name) recent) \<and>
    firsts c = length (filter (first_by name) recent) \<and> firstFails c = length (filter (first_fail_by name) recent) \<and>
    picks c = sum_list (map (picks_of name) recent) \<and>
    sum_list (map collapse (live_slots p oldest)) = length (filter is_collapse recent)"
proof -
  let ?chs = "changes_of psl k hs"
  have p: "pool_of (fold (run_hook psl) hs e) k = fold ring_step ?chs empty_pool"
    using run_hooks_pool [OF assms(1)] assms(2) by (simp add: pool_of_def)
  have ok: "slots_ok (fold ring_step ?chs empty_pool)" using slots_ok_run [OF empty_pool_ok] by simp
  have le: "\<And>ch. ch \<in> set ?chs \<Longrightarrow> fst ch \<le> minute_of now" using changes_minute assms(4) by fastforce
  note side = sorted_changes [OF assms(3)] le oldest_minute_def
  note total = window_count_sum [OF _ _ ok]
  show ?thesis
    unfolding Let_def p
    using attempts_in.slots_count [OF side] successes_in.slots_count [OF side] firsts_in.slots_count [OF side]
      first_fails_in.slots_count [OF side] picks_in.slots_count [OF side] collapses_in.slots_count [OF side]
    by (simp add: total [of attempts] total [of successes] total [of firsts] total [of firstFails] total [of picks]
        add_count_def no_count_def contributions_recent sum_of_bool)
qed

definition demo_counters :: counters where
  "demo_counters = \<lparr>counting = True, pools = [], clients = [], peerRatio = None\<rparr>"

text \<open>An attempt at minute 1, and two at minute 11, which reuses its slot: at minute 11 the window holds the two.\<close>

definition demo_hooks :: "hook list" where
  "demo_hooks =
     [HAttempt ''eth'' ''json_rpc'' ''s-https://node.example.org'' AttrSupplier AttemptFirst ''m'' False (time_unix 60),
      HAttempt ''eth'' ''json_rpc'' ''s-https://node.example.org'' AttrSupplier AttemptFirst ''m'' False (time_unix 660),
      HAttempt ''eth'' ''json_rpc'' ''s-https://node.example.org'' ''none'' ''retry'' ''m'' False (time_unix 670)]"

theorem window_counts_recent_witness:
  "let c = window_count (pool_of (fold (run_hook (\<lambda>h. None)) demo_hooks demo_counters) (''eth'', ''json_rpc'')) (oldest_minute (time_unix 680))
       (operator_of (\<lambda>h. None) ''s-https://node.example.org'') in
   attempts c = 2 \<and> successes c = 1 \<and> firsts c = 1 \<and> firstFails c = 1"
proof -
  have c: "counting demo_counters" "pools demo_counters = []" by (simp_all add: demo_counters_def)
  have s: "sorted (map hook_minute demo_hooks)" "\<forall>h \<in> set demo_hooks. hook_minute h \<le> minute_of (time_unix 680)" by code_simp+
  let ?r = "recent_changes (\<lambda>h. None) (''eth'', ''json_rpc'') demo_hooks (oldest_minute (time_unix 680))"
  let ?n = "operator_of (\<lambda>h. None) ''s-https://node.example.org''"
  have "length (filter (attempt_by ?n) ?r) = 2" "length (filter (success_by ?n) ?r) = 1"
    "length (filter (first_by ?n) ?r) = 1" "length (filter (first_fail_by ?n) ?r) = 1" by code_simp+
  then show ?thesis using window_counts_recent [OF c s, of "\<lambda>h. None" "(''eth'', ''json_rpc'')" ?n] by (simp add: Let_def)
qed

end
