(* ===== verification/Auto_Drain.thy ===== *)
theory Auto_Drain
  imports Auto_Window Drain_Redis
begin

text \<open>
  What the auto-drain engine does with its candidates (\<^verbatim>\<open>autodrain/engine.go\<close>,
  \<^verbatim>\<open>events.go\<close>): the guards of a decision in the order the code checks them, the reconciliation
  with what people did to its drains, one evaluation, and the log of decisions.

  The store of drains is reached through the record \<open>drain_api\<close>, as the code reaches it through the
  interface \<^verbatim>\<open>drain.Store\<close>: \<open>mem_api\<close> is the in-memory store and \<open>redis_api\<close> the store shared
  through Redis. What one evaluation reads from the
  rest of the gateway (leadership, flags, endpoints, vouching, rates) is the record \<open>tick_env\<close>. The text of
  a reason after its prefix is an argument.
\<close>

section \<open>Model: constants and state\<close>

definition ReasonPrefix :: string where "ReasonPrefix = ''auto:''"
definition minClientFailure :: real where "minClientFailure = 0.05"
definition minClientRequests :: nat where "minClientRequests = 50"
definition severeMaxSuccess :: real where "severeMaxSuccess = 0.60"
definition severeMinAttempts :: nat where "severeMinAttempts = 200"
definition drainFor :: duration where "drainFor = 2 * hour"
definition maxLivePool :: nat where "maxLivePool = 1"
definition maxLiveFleet :: nat where "maxLiveFleet = 5"
definition serviceGap :: duration where "serviceGap = 30 * minute"
definition maxPerHour :: nat where "maxPerHour = 3"
definition suppressFor :: duration where "suppressFor = 6 * hour"
definition repeatEventAt :: duration where "repeatEventAt = 10 * minute"
definition FlagAutoDrain :: string where "FlagAutoDrain = ''auto_drain''"
definition FlagAutoDrainShadow :: string where "FlagAutoDrainShadow = ''auto_drain_shadow''"
definition FlagAutoDrainChainAnswers :: string where "FlagAutoDrainChainAnswers = ''auto_drain_chain_answers''"

record Engine =
  counts :: counters
  live :: "(drain_key, time) gomap"
  suppressed :: "(drain_key, time) gomap"
  lastBySvc :: "(service_id, time) gomap"
  recent :: "time list"
  lastEmit :: "(drain_key, outcome \<times> time) gomap"

definition New_engine :: "bool \<Rightarrow> Engine" where
  "New_engine leader =
     \<lparr>counts = \<lparr>counting = leader, pools = [], clients = [], peerRatio = None\<rparr>, live = [], suppressed = [], lastBySvc = [],
      recent = [], lastEmit = []\<rparr>"

record 'd drain_api =
  api_Active :: "'d \<Rightarrow> service_id \<Rightarrow> time \<Rightarrow> drain_entry list"
  api_Set :: "'d \<Rightarrow> drain_entry \<Rightarrow> time \<Rightarrow> 'd \<times> bool"

record tick_env =
  isLeader :: bool
  flag_on :: "string \<Rightarrow> service_id \<Rightarrow> bool"
  availableEndpoints :: "drain_key \<Rightarrow> endpoint_addr list"
  vouched_for :: "service_id \<Rightarrow> endpoint_addr \<Rightarrow> rpc_type \<Rightarrow> bool"
  op_rates_of :: rates_fn
  maxDrain :: duration
  owner_tbl :: owner_table
  describe :: "Event \<Rightarrow> string"

section \<open>Model: reading the drains\<close>

definition is_auto :: "drain_entry \<Rightarrow> bool" where
  "is_auto en \<longleftrightarrow> take (length ReasonPrefix) (Reason_text en) = ReasonPrefix"

definition covers_key :: "drain_key \<Rightarrow> drain_entry \<Rightarrow> bool" where
  "covers_key k en \<longleftrightarrow> equal_fold (Operator_key (Key en)) (Operator_key k) \<and> (RPCType (Key en) = RPCType k \<or> RPCType (Key en) = [])"

definition find_drain :: "'d drain_api \<Rightarrow> 'd \<Rightarrow> drain_key \<Rightarrow> time \<Rightarrow> drain_entry option" where
  "find_drain api d k now = List.find (covers_key k) (api_Active api d (ServiceID k) now)"

definition liveAuto :: "'d drain_api \<Rightarrow> 'd \<Rightarrow> service_id \<Rightarrow> rpc_type \<Rightarrow> time \<Rightarrow> nat" where
  "liveAuto api d svc rpc now = length (filter (\<lambda>en. RPCType (Key en) = rpc \<and> is_auto en) (api_Active api d svc now))"

definition liveAutoFleet :: "'d drain_api \<Rightarrow> 'd \<Rightarrow> counters \<Rightarrow> time \<Rightarrow> nat" where
  "liveAutoFleet api d e now =
     sum_list (map (\<lambda>svc. length (filter is_auto (api_Active api d svc now))) (remdups (map (fst \<circ> fst) (pools e))))"

section \<open>Model: one evaluation\<close>

definition reconcile :: "'d drain_api \<Rightarrow> Engine \<Rightarrow> 'd \<Rightarrow> time \<Rightarrow> Engine" where
  "reconcile api e d now =
     (let sup = fold (\<lambda>(k, until) m. if now < until \<and> find_drain api d k now = None then AList.update k (now + suppressFor) m else m)
            (live e) (suppressed e)
      in e\<lparr>live := keep_entries (\<lambda>k until. now < until \<and> (case find_drain api d k now of None \<Rightarrow> False | Some en \<Rightarrow> is_auto en)) (live e),
           suppressed := keep_entries (\<lambda>k until. now < until) sup,
           recent := filter (\<lambda>t. t > now - hour) (recent e)\<rparr>)"

definition severe :: "Event \<Rightarrow> bool" where
  "severe ev \<longleftrightarrow> FirstAttempts ev \<ge> severeMinAttempts \<and> FirstSuccess ev \<le> severeMaxSuccess \<or>
     ev_Attempts ev \<ge> severeMinAttempts \<and> SuccessRate ev \<le> maxSuccess"

definition drained_affiliates :: "psl \<Rightarrow> owner_table \<Rightarrow> drain_key \<Rightarrow> endpoint_addr list \<Rightarrow> affiliates" where
  "drained_affiliates psl tbl k eps = AffiliatesOf psl tbl (filter (\<lambda>ep. equal_fold (operator_of psl ep) (Operator_key k)) eps)"

definition alternative :: "psl \<Rightarrow> tick_env \<Rightarrow> drain_key \<Rightarrow> string" where
  "alternative psl env k =
     (let eps = availableEndpoints env k; drained = drained_affiliates psl (owner_tbl env) k eps in
      case List.find (\<lambda>ep. \<not> equal_fold (operator_of psl ep) (Operator_key k) \<and> \<not> Affiliates_Contains psl (owner_tbl env) drained ep \<and>
          vouched_for env (ServiceID k) ep (RPCType k)) eps of
        None \<Rightarrow> []
      | Some ep \<Rightarrow> operator_of psl ep)"

definition rate_limited :: "Engine \<Rightarrow> drain_key \<Rightarrow> time \<Rightarrow> bool" where
  "rate_limited e k now \<longleftrightarrow>
     (case map_of (lastBySvc e) (ServiceID k) of Some t \<Rightarrow> time_sub now t < serviceGap | None \<Rightarrow> False) \<or> length (recent e) \<ge> maxPerHour"

definition drain_end :: "tick_env \<Rightarrow> time \<Rightarrow> time" where
  "drain_end env now = now + (if maxDrain env > 0 \<and> maxDrain env < drainFor then maxDrain env else drainFor)"

definition set_drain :: "'d drain_api \<Rightarrow> tick_env \<Rightarrow> drain_key \<Rightarrow> time \<Rightarrow> Event \<Rightarrow> Engine \<Rightarrow> 'd \<Rightarrow> outcome option \<times> Event \<times> Engine \<times> 'd" where
  "set_drain api env k now ev e d =
     (let until = drain_end env now in
      case api_Set api d \<lparr>Key = k, Until = until, Reason_text = ReasonPrefix @ describe env ev\<rparr> now of (d', ok) \<Rightarrow>
        if \<not> ok then (None, ev, e, d')
        else (Some OutcomeDrained, ev\<lparr>ev_Until := Some until\<rparr>,
              e\<lparr>live := AList.update k until (live e), lastBySvc := AList.update (ServiceID k) now (lastBySvc e), recent := recent e @ [now]\<rparr>, d'))"

definition decide :: "psl \<Rightarrow> 'd drain_api \<Rightarrow> tick_env \<Rightarrow> drain_key \<Rightarrow> time \<Rightarrow> bool \<Rightarrow> Event \<Rightarrow> Engine \<Rightarrow> 'd \<Rightarrow> outcome option \<times> Event \<times> Engine \<times> 'd" where
  "decide psl api env k now acting ev e d =
     (case find_drain api d k now of
        Some en \<Rightarrow> (if is_auto en then None else Some OutcomeManual, ev, e, d)
      | None \<Rightarrow>
          if ClientRequests ev < minClientRequests then (Some OutcomeNoClientEvidence, ev, e, d)
          else let ev = ev\<lparr>Severe := severe ev\<rparr> in
          if ClientFailure ev < minClientFailure \<and> AnswerHarm ev < minClientFailure \<and> \<not> Severe ev then (Some OutcomeBelowClient, ev, e, d)
          else if PoolWide ev then (Some OutcomePoolWide, ev, e, d)
          else let ev = ev\<lparr>Alternative := alternative psl env k\<rparr> in
          if Alternative ev = [] then (Some OutcomeNoVouched, ev, e, d)
          else if (case map_of (suppressed e) k of Some until \<Rightarrow> now < until | None \<Rightarrow> False) then (Some OutcomeSuppressed, ev, e, d)
          else if liveAuto api d (ServiceID k) (RPCType k) now \<ge> maxLivePool \<or> liveAutoFleet api d (counts e) now \<ge> maxLiveFleet
            then (Some OutcomeCapped, ev, e, d)
          else if rate_limited e k now then (Some OutcomeRateLimited, ev, e, d)
          else if \<not> acting then (Some OutcomeShadow, ev, e, d)
          else set_drain api env k now ev e d)"

definition emit :: "drain_key \<Rightarrow> Event \<Rightarrow> outcome \<Rightarrow> Engine \<Rightarrow> Engine \<times> Event list" where
  "emit k ev out e =
     (if (case map_of (lastEmit e) k of Some (o', t) \<Rightarrow> o' = out \<and> time_sub (At ev) t < repeatEventAt \<and> out \<noteq> OutcomeDrained | None \<Rightarrow> False)
      then (e, [])
      else (e\<lparr>lastEmit := AList.update k (out, At ev) (lastEmit e)\<rparr>, [ev]))"

definition live_act :: "tick_env \<Rightarrow> candidate \<Rightarrow> bool" where
  "live_act env c \<longleftrightarrow>
     flag_on env FlagAutoDrain (ServiceID (cand_key c)) \<and> \<not> flag_on env FlagAutoDrainShadow (ServiceID (cand_key c)) \<and>
     (Trigger (cand_event c) = TriggerChainAnswers \<longrightarrow> flag_on env FlagAutoDrainChainAnswers (ServiceID (cand_key c)))"

definition consider_one :: "psl \<Rightarrow> 'd drain_api \<Rightarrow> tick_env \<Rightarrow> time \<Rightarrow> candidate \<Rightarrow> Engine \<times> 'd \<times> Event list \<Rightarrow> Engine \<times> 'd \<times> Event list" where
  "consider_one psl api env now c s =
     (case s of (e, d, evlog) \<Rightarrow>
       if \<not> flag_on env FlagAutoDrain (ServiceID (cand_key c)) \<and> \<not> flag_on env FlagAutoDrainShadow (ServiceID (cand_key c)) then s
       else case decide psl api env (cand_key c) now (live_act env c) ((cand_event c)\<lparr>At := now\<rparr>) e d of (out, ev, e', d') \<Rightarrow>
         (case out of
            None \<Rightarrow> (e', d', evlog)
          | Some o' \<Rightarrow> (case emit (cand_key c) (ev\<lparr>Outcome := Some o'\<rparr>) o' e' of (e'', evs) \<Rightarrow> (e'', d', evlog @ evs))))"

definition Evaluate :: "psl \<Rightarrow> 'd drain_api \<Rightarrow> tick_env \<Rightarrow> time \<Rightarrow> Engine \<Rightarrow> 'd \<Rightarrow> Engine \<times> 'd \<times> Event list" where
  "Evaluate psl api env now e d =
     (let e = e\<lparr>counts := (counts e)\<lparr>counting := isLeader env\<rparr>\<rparr> in
      if \<not> isLeader env then (e, d, [])
      else let e = reconcile api e d now
           in fold (consider_one psl api env now) (window (counts e) (op_rates_of env) now) (e, d, []))"

section \<open>Model: the log of decisions\<close>

definition maxEvents :: nat where "maxEvents = 1000"

definition Append_log :: "Event list \<Rightarrow> Event \<Rightarrow> Event list" where
  "Append_log evs ev = (let evs = evs @ [ev] in if length evs > maxEvents then drop (length evs - maxEvents) evs else evs)"

definition Recent_log :: "Event list \<Rightarrow> service_id \<Rightarrow> nat \<Rightarrow> Event list" where
  "Recent_log evs svc limit = take limit (filter (\<lambda>ev. svc = [] \<or> ev_ServiceID ev = svc) (rev evs))"


section \<open>The stores behind the interface\<close>

definition mem_api :: "mem_store drain_api" where
  "mem_api = \<lparr>api_Active = Active_mem, api_Set = \<lambda>d en now. (Set_mem d en now, True)\<rparr>"

definition redis_api :: "(drain_entry \<Rightarrow> io) \<Rightarrow> (drain_entry \<Rightarrow> io) \<Rightarrow> (redis_store \<times> redis_hash) drain_api" where
  "redis_api io undo =
     \<lparr>api_Active = \<lambda>d svc now. Active_mem (mem (fst d)) svc now,
      api_Set = \<lambda>d en now. (case Set_redis (io en) (undo en) (fst d) (snd d) en now of (err, s', h') \<Rightarrow> ((s', h'), err = NoErr))\<rparr>"

section \<open>Lemmas: one decision\<close>

text \<open>Every guard of a decision passed.\<close>

definition cleared :: "psl \<Rightarrow> 'd drain_api \<Rightarrow> tick_env \<Rightarrow> drain_key \<Rightarrow> time \<Rightarrow> bool \<Rightarrow> Event \<Rightarrow> Engine \<Rightarrow> 'd \<Rightarrow> bool" where
  "cleared psl api env k now acting ev e d \<longleftrightarrow>
     acting \<and> find_drain api d k now = None \<and> minClientRequests \<le> ClientRequests ev \<and>
     (minClientFailure \<le> ClientFailure ev \<or> minClientFailure \<le> AnswerHarm ev \<or> severe ev) \<and> \<not> PoolWide ev \<and>
     alternative psl env k \<noteq> [] \<and> (case map_of (suppressed e) k of Some u \<Rightarrow> u \<le> now | None \<Rightarrow> True) \<and>
     liveAuto api d (ServiceID k) (RPCType k) now < maxLivePool \<and> liveAutoFleet api d (counts e) now < maxLiveFleet \<and>
     \<not> rate_limited e k now"

lemma decide_cleared:
  "cleared psl api env k now acting ev e d \<Longrightarrow>
     decide psl api env k now acting ev e d = set_drain api env k now (ev\<lparr>Severe := severe ev, Alternative := alternative psl env k\<rparr>) e d"
  by (auto simp: cleared_def decide_def Let_def not_le not_less split: option.split)

lemma decide_blocked:
  "\<not> cleared psl api env k now acting ev e d \<Longrightarrow>
     \<exists>out ev'. decide psl api env k now acting ev e d = (out, ev', e, d) \<and> out \<noteq> Some OutcomeDrained"
  by (auto simp: cleared_def decide_def Let_def not_le not_less split: option.split)

lemma decide_elim:
  assumes "decide psl api env k now acting ev e d = (out, ev', e', d')"
  obtains (blocked) "e' = e" "d' = d" "out \<noteq> Some OutcomeDrained"
  | (set) "cleared psl api env k now acting ev e d"
      "set_drain api env k now (ev\<lparr>Severe := severe ev, Alternative := alternative psl env k\<rparr>) e d = (out, ev', e', d')"
  using assms decide_cleared [of psl api env k now acting ev e d] decide_blocked [of psl api env k now acting ev e d]
  by (cases "cleared psl api env k now acting ev e d") auto

lemma drain_end_bounds: "now < drain_end env now" "drain_end env now \<le> now + drainFor"
  by (auto simp: drain_end_def drainFor_def)

lemma alternative_vouched:
  assumes "alternative psl env k \<noteq> []"
  shows "\<exists>ep \<in> set (availableEndpoints env k). alternative psl env k = operator_of psl ep \<and> vouched_for env (ServiceID k) ep (RPCType k) \<and>
    \<not> equal_fold (operator_of psl ep) (Operator_key k) \<and>
    \<not> Affiliates_Contains psl (owner_tbl env) (drained_affiliates psl (owner_tbl env) k (availableEndpoints env k)) ep"
  using assms by (auto simp: alternative_def Let_def split: option.splits dest: find_SomeD)

lemma emit_drained: "emit k ev OutcomeDrained e = (e\<lparr>lastEmit := AList.update k (OutcomeDrained, At ev) (lastEmit e)\<rparr>, [ev])"
  by (auto simp: emit_def split: option.split)

lemma emit_frame:
  "\<exists>m evs. emit k ev out e = (e\<lparr>lastEmit := m\<rparr>, evs) \<and> set evs \<subseteq> {ev}"
proof -
  have "e = e\<lparr>lastEmit := lastEmit e\<rparr>" by simp
  then show ?thesis unfolding emit_def by (metis empty_subsetI list.set(1) list.simps(15) order_refl)
qed

definition is_drained :: "Event \<Rightarrow> bool" where
  "is_drained ev \<longleftrightarrow> Outcome ev = Some OutcomeDrained"

text \<open>One candidate leaves the engine as it was but for its note of the last event, fails to set a drain, or
  sets one, writes it down in its limits and reports it.\<close>

lemma consider_elim:
  assumes "consider_one psl api env now c (e, d, evlog) = (e', d', evlog')"
  obtains (quiet) m evs where "e' = e\<lparr>lastEmit := m\<rparr>" "d' = d" "evlog' = evlog @ evs" "filter is_drained evs = []"
  | (failed) ev where "cleared psl api env (cand_key c) now (live_act env c) ((cand_event c)\<lparr>At := now\<rparr>) e d"
      "e' = e" "evlog' = evlog" "api_Set api d \<lparr>Key = cand_key c, Until = drain_end env now, Reason_text = ReasonPrefix @ describe env ev\<rparr> now = (d', False)"
  | (drained) m ev where "cleared psl api env (cand_key c) now (live_act env c) ((cand_event c)\<lparr>At := now\<rparr>) e d"
      "api_Set api d \<lparr>Key = cand_key c, Until = drain_end env now, Reason_text = ReasonPrefix @ describe env ev\<rparr> now = (d', True)"
      "ev = (cand_event c)\<lparr>At := now, Severe := severe (cand_event c), Alternative := alternative psl env (cand_key c)\<rparr>"
      "e' = e\<lparr>live := AList.update (cand_key c) (drain_end env now) (live e),
              lastBySvc := AList.update (ServiceID (cand_key c)) now (lastBySvc e), recent := recent e @ [now], lastEmit := m\<rparr>"
      "evlog' = evlog @ [ev\<lparr>ev_Until := Some (drain_end env now), Outcome := Some OutcomeDrained\<rparr>]"
proof -
  let ?k = "cand_key c"
  let ?ev = "(cand_event c)\<lparr>At := now\<rparr>"
  obtain out ev1 e1 d1 where dec: "decide psl api env ?k now (live_act env c) ?ev e d = (out, ev1, e1, d1)"
    by (cases "decide psl api env ?k now (live_act env c) ?ev e d")
  show ?thesis
  proof (cases "flag_on env FlagAutoDrain (ServiceID ?k) \<or> flag_on env FlagAutoDrainShadow (ServiceID ?k)")
    case False
    then show ?thesis using assms quiet [of "lastEmit e" "[]"] by (simp add: consider_one_def)
  next
    case True
    have step: "(e', d', evlog') = (case out of None \<Rightarrow> (e1, d1, evlog)
        | Some o' \<Rightarrow> (case emit ?k (ev1\<lparr>Outcome := Some o'\<rparr>) o' e1 of (e'', evs) \<Rightarrow> (e'', d1, evlog @ evs)))"
      using assms True dec by (auto simp: consider_one_def)
    from dec show ?thesis
    proof (cases rule: decide_elim)
      case blocked
      show ?thesis
      proof (cases out)
        case None
        then show ?thesis using step blocked quiet [of "lastEmit e" "[]"] by simp
      next
        case (Some o')
        obtain m evs where em: "emit ?k (ev1\<lparr>Outcome := Some o'\<rparr>) o' e1 = (e1\<lparr>lastEmit := m\<rparr>, evs)" "set evs \<subseteq> {ev1\<lparr>Outcome := Some o'\<rparr>}"
          using emit_frame by blast
        then have "filter is_drained evs = []" using blocked Some by (auto simp: filter_empty_conv is_drained_def)
        then show ?thesis using step blocked Some em quiet [of m evs] by simp
      qed
    next
      case set
      let ?ev' = "?ev\<lparr>Severe := severe ?ev, Alternative := alternative psl env ?k\<rparr>"
      let ?en = "\<lparr>Key = ?k, Until = drain_end env now, Reason_text = ReasonPrefix @ describe env ?ev'\<rparr>"
      have sv: "severe ?ev = severe (cand_event c)" by (simp add: severe_def)
      obtain d2 ok where st: "api_Set api d ?en now = (d2, ok)" by (cases "api_Set api d ?en now")
      show ?thesis
      proof (cases ok)
        case False
        then have "out = None" "e1 = e" "d1 = d2" using set(2) st by (auto simp: set_drain_def Let_def)
        then show ?thesis using step st False failed [of ?ev'] set(1) by simp
      next
        case ok: True
        show ?thesis
          by (rule drained [OF set(1), of ?ev' "AList.update ?k (OutcomeDrained, now) (lastEmit e)"])
            (use step set(2) st ok sv in \<open>auto simp: set_drain_def Let_def emit_drained\<close>)
      qed
    qed
  qed
qed


section \<open>Lemmas: the candidates\<close>

text \<open>The thresholds of the trigger an event names.\<close>

definition triggered :: "Event \<Rightarrow> bool" where
  "triggered ev =
     (case Trigger ev of
        TriggerCollapse \<Rightarrow> minAttempts \<le> ev_Attempts ev \<and> minCollapse \<le> CollapsePicks ev \<and> minShare \<le> Share ev \<and> SuccessRate ev \<le> maxSuccess
      | TriggerChainAnswers \<Rightarrow> minAttempts \<le> MatchedAnswers ev \<and> chainGap \<le> ChainShare ev - PeerChainShare ev \<and>
          chainRatio * PeerChainShare ev \<le> ChainShare ev
      | TriggerOperatorRate \<Rightarrow> minAttempts \<le> ev_Attempts ev \<and> opRateTrigger \<le> OperatorRate_ev ev)"

definition about_key :: "drain_key \<Rightarrow> Event \<Rightarrow> bool" where
  "about_key k ev \<longleftrightarrow> ev_ServiceID ev = ServiceID k \<and> ev_Operator ev = Operator_key k \<and> ev_RPCType ev = RPCType k"

text \<open>What is written on an event after it was made does not change what it is about.\<close>

lemma triggered_frame [simp]:
  "triggered (ev\<lparr>At := t\<rparr>) = triggered ev" "triggered (ev\<lparr>Severe := b\<rparr>) = triggered ev" "triggered (ev\<lparr>Alternative := a\<rparr>) = triggered ev" "triggered (ev\<lparr>ev_Until := u\<rparr>) = triggered ev" "triggered (ev\<lparr>Outcome := out\<rparr>) = triggered ev"
  by (simp_all add: triggered_def split: trigger.split)

lemma about_key_frame [simp]:
  "about_key k (ev\<lparr>At := t\<rparr>) = about_key k ev" "about_key k (ev\<lparr>Severe := b\<rparr>) = about_key k ev" "about_key k (ev\<lparr>Alternative := a\<rparr>) = about_key k ev" "about_key k (ev\<lparr>ev_Until := u\<rparr>) = about_key k ev" "about_key k (ev\<lparr>Outcome := out\<rparr>) = about_key k ev"
  by (simp_all add: about_key_def)

lemma severe_frame [simp]:
  "severe (ev\<lparr>At := t\<rparr>) = severe ev" "severe (ev\<lparr>Severe := b\<rparr>) = severe ev" "severe (ev\<lparr>Alternative := a\<rparr>) = severe ev" "severe (ev\<lparr>ev_Until := u\<rparr>) = severe ev" "severe (ev\<lparr>Outcome := out\<rparr>) = severe ev"
  by (simp_all add: severe_def)

lemma matchedChain_outlier:
  "cm_outlier (matchedChain op pool) \<Longrightarrow>
     minAttempts \<le> cm_matched (matchedChain op pool) \<and>
     chainGap \<le> cm_share (matchedChain op pool) - cm_peers (matchedChain op pool) \<and>
     chainRatio * cm_peers (matchedChain op pool) \<le> cm_share (matchedChain op pool)"
  by (auto simp: matchedChain_def Let_def split: if_splits)

lemma peerCompare_frame [simp]:
  "triggered (peerCompare ev self views ratio) = triggered ev" "about_key k (peerCompare ev self views ratio) = about_key k ev"
  by (simp_all add: peerCompare_def Let_def triggered_def about_key_def split: trigger.split)

lemma trigger_of_cases:
  assumes "trigger_of picked share v outlier = Some t"
  shows "t = TriggerCollapse \<Longrightarrow> minAttempts \<le> ov_attempts v \<and> minCollapse \<le> picked \<and> minShare \<le> share \<and> ov_success v \<le> maxSuccess"
    "t = TriggerChainAnswers \<Longrightarrow> outlier"
    "t = TriggerOperatorRate \<Longrightarrow> minAttempts \<le> ov_attempts v \<and> opRateTrigger \<le> (case ov_rate v of Some r \<Rightarrow> r | None \<Rightarrow> 0)"
  using assms by (auto simp: trigger_of_def split: if_splits)

lemma op_candidate_triggered:
  assumes "op_candidate k picked cshare creq views ms ratio name c v = Some cand" and v: "v = op_view rates k name c"
  shows "about_key (cand_key cand) (cand_event cand) \<and> triggered (cand_event cand)"
proof -
  define share where "share = (if picked > 0 then real (picks c) / real picked else 0)"
  define cm where "cm = matchedChain (op_methods c) ms"
  obtain t where t: "trigger_of picked share v (cm_outlier cm) = Some t"
    using assms(1) unfolding op_candidate_def Let_def share_def [symmetric] cm_def [symmetric] by (auto split: option.splits)
  note tc = trigger_of_cases [OF t]
  have att: "ov_attempts v = attempts c" by (simp add: v op_view_def)
  have out: "cm_outlier cm \<Longrightarrow> minAttempts \<le> cm_matched cm \<and> chainGap \<le> cm_share cm - cm_peers cm \<and> chainRatio * cm_peers cm \<le> cm_share cm"
    unfolding cm_def by (rule matchedChain_outlier)
  obtain ev where cand: "cand = \<lparr>cand_key = \<lparr>ServiceID = fst k, Operator_key = name, RPCType = snd k\<rparr>, cand_event = peerCompare ev name views ratio\<rparr>"
    and ev: "Trigger ev = t" "ev_Attempts ev = attempts c" "CollapsePicks ev = picked" "Share ev = share" "SuccessRate ev = ov_success v"
      "MatchedAnswers ev = cm_matched cm" "ChainShare ev = cm_share cm" "PeerChainShare ev = cm_peers cm"
      "OperatorRate_ev ev = (case ov_rate v of Some r \<Rightarrow> r | None \<Rightarrow> 0)"
      "ev_ServiceID ev = fst k" "ev_Operator ev = name" "ev_RPCType ev = snd k"
    using assms(1) t unfolding op_candidate_def Let_def share_def [symmetric] cm_def [symmetric] option.inject by force
  have "triggered ev" using tc att out by (cases t) (simp_all add: triggered_def ev)
  then show ?thesis by (simp add: cand about_key_def [of _ ev] ev)
qed

lemma window_candidate:
  assumes "c \<in> set (window e rates now)"
  shows "about_key (cand_key c) (cand_event c)" "triggered (cand_event c)"
proof -
  obtain k picked cshare creq views ms ratio name oc
    where "op_candidate k picked cshare creq views ms ratio name oc (op_view rates k name oc) = Some c"
    using assms by (auto simp: window_def pool_candidates_def Let_def set_map_filter split: prod.splits)
  then show "about_key (cand_key c) (cand_event c)" "triggered (cand_event c)"
    using op_candidate_triggered [OF _ refl] by blast+
qed

lemma window_counting [simp]: "window (e\<lparr>counting := b\<rparr>) rates now = window e rates now"
proof -
  have "pool_candidates (e\<lparr>counting := b\<rparr>) rates = pool_candidates e rates"
    by (intro ext) (simp add: pool_candidates_def clientShare_def ratioFor_def)
  then show ?thesis by (simp add: window_def)
qed

lemma reconcile_frame [simp]:
  "counts (reconcile api e d now) = counts e" "lastBySvc (reconcile api e d now) = lastBySvc e"
  "recent (reconcile api e d now) = filter (\<lambda>t. t > now - hour) (recent e)"
  by (simp_all add: reconcile_def Let_def)

text \<open>An evaluation by the leader is a fold over the candidates; what holds after each of them holds at its end.\<close>

lemma Evaluate_induct [consumes 2, case_names start step]:
  assumes run: "Evaluate psl api env now e d = (e', d', evs)" and lead: "isLeader env"
    and start: "P (reconcile api (e\<lparr>counts := (counts e)\<lparr>counting := isLeader env\<rparr>\<rparr>) d now, d, [])"
    and step: "\<And>c e1 d1 evs1 e2 d2 evs2. c \<in> set (window (counts e) (op_rates_of env) now) \<Longrightarrow> P (e1, d1, evs1) \<Longrightarrow>
      consider_one psl api env now c (e1, d1, evs1) = (e2, d2, evs2) \<Longrightarrow> P (e2, d2, evs2)"
  shows "P (e', d', evs)"
proof -
  let ?e = "reconcile api (e\<lparr>counts := (counts e)\<lparr>counting := isLeader env\<rparr>\<rparr>) d now"
  have "P (fold (consider_one psl api env now) (window (counts e) (op_rates_of env) now) (?e, d, []))"
  proof (rule fold_invariant [where Q = "\<lambda>c. c \<in> set (window (counts e) (op_rates_of env) now)"])
    fix c s assume c: "c \<in> set (window (counts e) (op_rates_of env) now)" and s: "P s"
    obtain e1 d1 evs1 where s1: "s = (e1, d1, evs1)" by (cases s)
    obtain e2 d2 evs2 where s2: "consider_one psl api env now c s = (e2, d2, evs2)" by (cases "consider_one psl api env now c s")
    show "P (consider_one psl api env now c s)" using step [OF c, of e1 d1 evs1 e2 d2 evs2] s s1 s2 by simp
  qed (auto intro: start)
  then show ?thesis using run lead by (simp add: Evaluate_def Let_def)
qed

lemma Evaluate_follower: "\<not> isLeader env \<Longrightarrow> Evaluate psl api env now e d = (e\<lparr>counts := (counts e)\<lparr>counting := False\<rparr>\<rparr>, d, [])"
  by (simp add: Evaluate_def Let_def)

section \<open>Lemmas: the limits over time\<close>

text \<open>The engine over time: its counters change in any way between evaluations, the clock does not run backwards,
  and each evaluation meets any store and any surroundings, other replicas and people having changed them.\<close>

inductive engine_run :: "psl \<Rightarrow> 'd drain_api \<Rightarrow> Engine \<Rightarrow> time \<Rightarrow> Event list \<Rightarrow> bool" for psl api where
  er_start: "engine_run psl api (New_engine leader) t []"
| er_count: "engine_run psl api e t evs \<Longrightarrow> engine_run psl api (e\<lparr>counts := c\<rparr>) t evs"
| er_tick: "engine_run psl api e t evs \<Longrightarrow> t \<le> now \<Longrightarrow> Evaluate psl api env now e d = (e', d', evs') \<Longrightarrow>
    engine_run psl api e' now (evs @ evs')"

definition apart :: "Event \<Rightarrow> Event \<Rightarrow> bool" where
  "apart a b \<longleftrightarrow> (ev_ServiceID a = ev_ServiceID b \<longrightarrow> At a + serviceGap \<le> At b)"

definition limits :: "Engine \<Rightarrow> time \<Rightarrow> Event list \<Rightarrow> bool" where
  "limits e t evs \<longleftrightarrow>
     (let ds = filter is_drained evs in
       (\<forall>ev \<in> set ds. At ev \<le> t) \<and>
       (\<exists>cut \<le> t - hour. recent e = filter (\<lambda>x. cut < x) (map At ds)) \<and>
       (\<forall>ev \<in> set ds. \<exists>x. map_of (lastBySvc e) (ev_ServiceID ev) = Some x \<and> At ev \<le> x) \<and>
       (\<forall>u. length (filter (\<lambda>x. u - hour < x \<and> x \<le> u) (map At ds)) \<le> maxPerHour) \<and>
       sorted_wrt apart ds)"

lemma limits_quiet: "filter is_drained evs' = [] \<Longrightarrow> limits (e\<lparr>lastEmit := m\<rparr>) t (evs @ evs') = limits e t evs"
  by (simp add: limits_def)

lemma limits_later:
  assumes "limits e t evs" and "t \<le> now" and "recent e' = recent e \<or> recent e' = filter (\<lambda>x. x > now - hour) (recent e)"
    and "lastBySvc e' = lastBySvc e"
  shows "limits e' now evs"
proof -
  let ?ds = "filter is_drained evs"
  obtain cut where cut: "cut \<le> t - hour" "recent e = filter (\<lambda>x. cut < x) (map At ?ds)"
    using assms(1) by (auto simp: limits_def Let_def)
  have "\<exists>cut' \<le> now - hour. recent e' = filter (\<lambda>x. cut' < x) (map At ?ds)"
    using assms(3)
  proof
    assume "recent e' = recent e"
    then show ?thesis using cut assms(2) by (intro exI [of _ cut]) auto
  next
    assume "recent e' = filter (\<lambda>x. x > now - hour) (recent e)"
    moreover have "(cut < x \<and> now - hour < x) = (now - hour < x)" for x using cut(1) assms(2) by auto
    ultimately show ?thesis using cut(2) by (intro exI [of _ "now - hour"]) simp
  qed
  moreover have "\<forall>ev \<in> set ?ds. At ev \<le> now" using assms(1,2) by (auto simp: limits_def Let_def)
  ultimately show ?thesis using assms(1,4) unfolding limits_def Let_def by simp
qed

lemma limits_drain:
  assumes "limits e now evs" and "\<not> rate_limited e k now" and "is_drained ev" and "At ev = now" and "ev_ServiceID ev = ServiceID k"
    and "recent e' = recent e @ [now]" and "lastBySvc e' = AList.update (ServiceID k) now (lastBySvc e)"
  shows "limits e' now (evs @ [ev])"
proof -
  let ?ds = "filter is_drained evs"
  obtain cut where cut: "cut \<le> now - hour" "recent e = filter (\<lambda>x. cut < x) (map At ?ds)"
    using assms(1) by (auto simp: limits_def Let_def)
  have le: "\<forall>a \<in> set ?ds. At a \<le> now" using assms(1) by (auto simp: limits_def Let_def)
  have few: "length (recent e) < maxPerHour" using assms(2) by (simp add: rate_limited_def)
  have r: "\<exists>cut' \<le> now - hour. recent e' = filter (\<lambda>x. cut' < x) (map At (?ds @ [ev]))"
    using cut assms(4,6) by (intro exI [of _ cut]) auto
  have last: "\<exists>x. map_of (lastBySvc e') (ev_ServiceID a) = Some x \<and> At a \<le> x" if "a \<in> set (?ds @ [ev])" for a
    using that assms(1,4,5,7) le by (fastforce simp: limits_def Let_def gomap_simps)
  have hourly: "length (filter (\<lambda>x. u - hour < x \<and> x \<le> u) (map At (?ds @ [ev]))) \<le> maxPerHour" for u
  proof (cases "now \<le> u")
    case True
    have "length (filter (\<lambda>x. u - hour < x \<and> x \<le> u) (map At ?ds)) \<le> length (filter (\<lambda>x. cut < x) (map At ?ds))"
      using True cut(1) by (intro length_filter_mono) auto
    then show ?thesis using few cut(2) by simp
  next
    case False
    then show ?thesis using assms(1,4) by (simp add: limits_def Let_def)
  qed
  have "apart a ev" if a: "a \<in> set ?ds" for a
  proof (unfold apart_def, intro impI)
    assume same: "ev_ServiceID a = ev_ServiceID ev"
    obtain x where x: "map_of (lastBySvc e) (ev_ServiceID a) = Some x" "At a \<le> x"
      using assms(1) a by (auto simp: limits_def Let_def)
    have "\<not> time_sub now x < serviceGap" using assms(2) x(1) same assms(5) by (simp add: rate_limited_def)
    then have "\<not> now - x < serviceGap"
      by (subst (asm) time_sub_less) (simp_all add: serviceGap_def min_duration_def max_duration_def)
    then show "At a + serviceGap \<le> At ev" using x(2) assms(4) by simp
  qed
  then have "sorted_wrt apart (?ds @ [ev])" using assms(1) by (auto simp: limits_def Let_def sorted_wrt_append)
  then show ?thesis using r last hourly le assms(3,4) unfolding limits_def Let_def by auto
qed

lemma Evaluate_limits:
  assumes "Evaluate psl api env now e d = (e', d', evs')" and "limits e t evs" and "t \<le> now"
  shows "limits e' now (evs @ evs')"
proof (cases "isLeader env")
  case False
  then show ?thesis using assms limits_later [OF assms(2,3), of e'] by (auto simp: Evaluate_follower)
next
  case True
  have "case (e', d', evs') of (e', d', evs') \<Rightarrow> limits e' now (evs @ evs')"
    using assms(1) True
  proof (induction rule: Evaluate_induct)
    case start
    then show ?case using limits_later [OF assms(2,3)] by simp
  next
    case (step c e1 d1 evs1 e2 d2 evs2)
    from step.hyps(2) show ?case
    proof (cases rule: consider_elim)
      case quiet
      then show ?thesis using step.IH limits_quiet by (simp flip: append_assoc)
    next
      case failed
      then show ?thesis using step.IH by simp
    next
      case (drained m ev)
      then show ?thesis
        using step.IH limits_drain [of e1 now "evs @ evs1" "cand_key c" _ e2] window_candidate [OF step.hyps(1)]
        by (simp add: cleared_def is_drained_def about_key_def)
    qed
  qed
  then show ?thesis by simp
qed

lemma engine_run_limits: "engine_run psl api e t evs \<Longrightarrow> limits e t evs"
proof (induction rule: engine_run.induct)
  case (er_start leader t)
  show ?case by (auto simp: limits_def New_engine_def maxPerHour_def)
next
  case (er_count e t evs c)
  then show ?case by (simp add: limits_def)
next
  case (er_tick e t evs now env d e' d' evs')
  show ?case by (rule Evaluate_limits [OF er_tick.hyps(3) er_tick.IH er_tick.hyps(2)])
qed


section \<open>The store the engine writes to\<close>

text \<open>What the engine relies on: a listing of the live entries of a service, and a write that replaces the entry of
  its key and no other, whether or not it reports an error.\<close>

locale auto_store =
  fixes view_ok :: "'d \<Rightarrow> bool" and content :: "'d \<Rightarrow> drain_entry set" and api :: "'d drain_api"
  assumes listed: "view_ok d \<Longrightarrow> set (api_Active api d svc now) = {en \<in> content d. ServiceID (Key en) = svc \<and> now < Until en}"
    and set_ok: "view_ok d \<Longrightarrow> now < Until en \<Longrightarrow> view_ok (fst (api_Set api d en now))"
    and set_content: "view_ok d \<Longrightarrow> now < Until en \<Longrightarrow> content (fst (api_Set api d en now)) =
      {f \<in> content d. Key f \<noteq> lower_key (Key en)} \<union> {en\<lparr>Key := lower_key (Key en)\<rparr>}"
begin

definition auto_in :: "'d \<Rightarrow> time \<Rightarrow> service_id \<Rightarrow> rpc_type \<Rightarrow> drain_entry set" where
  "auto_in d now svc rpc = {en \<in> content d. now < Until en \<and> ServiceID (Key en) = svc \<and> RPCType (Key en) = rpc \<and> is_auto en}"

lemma unfound:
  assumes "view_ok d" and "find_drain api d k now = None" and "en \<in> content d" and "now < Until en"
  shows "Key en \<noteq> lower_key k"
proof
  assume k: "Key en = lower_key k"
  then have "covers_key k en" by (simp add: covers_key_def lower_key_def equal_fold_def)
  moreover have "en \<in> set (api_Active api d (ServiceID k) now)" using assms listed [OF assms(1)] k by (simp add: lower_key_def)
  ultimately show False using assms(2) by (simp add: find_drain_def find_None_iff)
qed

lemma no_auto:
  assumes "view_ok d" and "liveAuto api d svc rpc now < maxLivePool"
  shows "auto_in d now svc rpc = {}"
  using assms listed [OF assms(1)] by (auto simp: liveAuto_def maxLivePool_def filter_empty_conv auto_in_def)

text \<open>One write of the engine: nothing live is lost, what is new is the engine's own and bounded in time, and the
  pool it is in held no other.\<close>

lemma cleared_write:
  assumes ok: "view_ok d" and cl: "cleared psl api env k now acting ev e d"
    and st: "api_Set api d \<lparr>Key = k, Until = drain_end env now, Reason_text = ReasonPrefix @ r\<rparr> now = (d', ok')"
  shows "view_ok d'" "\<And>en. en \<in> content d \<Longrightarrow> now < Until en \<Longrightarrow> en \<in> content d'"
    "\<And>en. en \<in> content d' \<Longrightarrow> en \<notin> content d \<Longrightarrow>
       Key en = lower_key k \<and> is_auto en \<and> now < Until en \<and> Until en \<le> now + drainFor"
    "(\<And>svc rpc x y. x \<in> auto_in d now svc rpc \<Longrightarrow> y \<in> auto_in d now svc rpc \<Longrightarrow> x = y) \<Longrightarrow>
       x \<in> auto_in d' now svc rpc \<Longrightarrow> y \<in> auto_in d' now svc rpc \<Longrightarrow> x = y"
proof -
  let ?en = "\<lparr>Key = k, Until = drain_end env now, Reason_text = ReasonPrefix @ r\<rparr>"
  have live: "now < Until ?en" using drain_end_bounds by simp
  have d': "d' = fst (api_Set api d ?en now)" using st by simp
  show "view_ok d'" unfolding d' using set_ok [OF ok live] .
  have c: "content d' = {f \<in> content d. Key f \<noteq> lower_key k} \<union> {?en\<lparr>Key := lower_key k\<rparr>}"
    unfolding d' using set_content [OF ok live] by simp
  show "en \<in> content d'" if "en \<in> content d" "now < Until en" for en
    using that unfound [OF ok _ that] cl by (simp add: c cleared_def)
  show "Key en = lower_key k \<and> is_auto en \<and> now < Until en \<and> Until en \<le> now + drainFor" if "en \<in> content d'" "en \<notin> content d" for en
    using that drain_end_bounds by (auto simp: c is_auto_def)
  have empty: "auto_in d now (ServiceID k) (RPCType k) = {}" using no_auto [OF ok] cl by (simp add: cleared_def)
  have sub: "auto_in d' now svc rpc \<subseteq> auto_in d now svc rpc \<union> {?en\<lparr>Key := lower_key k\<rparr>}" for svc rpc
    by (auto simp: auto_in_def c)
  have own: "?en\<lparr>Key := lower_key k\<rparr> \<notin> auto_in d' now svc rpc" if "svc \<noteq> ServiceID k \<or> rpc \<noteq> RPCType k" for svc rpc
    using that by (auto simp: auto_in_def lower_key_def)
  assume one: "\<And>svc rpc x y. x \<in> auto_in d now svc rpc \<Longrightarrow> y \<in> auto_in d now svc rpc \<Longrightarrow> x = y"
  assume x: "x \<in> auto_in d' now svc rpc" and y: "y \<in> auto_in d' now svc rpc"
  show "x = y"
  proof (cases "svc = ServiceID k \<and> rpc = RPCType k")
    case True
    then show ?thesis using x y sub [of svc rpc] empty by auto
  next
    case False
    then have "x \<in> auto_in d now svc rpc" "y \<in> auto_in d now svc rpc" using x y sub [of svc rpc] own [of svc rpc] by auto
    then show ?thesis by (rule one)
  qed
qed

definition kept :: "psl \<Rightarrow> tick_env \<Rightarrow> time \<Rightarrow> candidate set \<Rightarrow> 'd \<Rightarrow> 'd \<Rightarrow> bool" where
  "kept psl env now cs d d' \<longleftrightarrow>
     view_ok d' \<and> (\<forall>en \<in> content d. now < Until en \<longrightarrow> en \<in> content d') \<and>
     (\<forall>en \<in> content d'. en \<notin> content d \<longrightarrow> is_auto en \<and> now < Until en \<and> Until en \<le> now + drainFor \<and>
        (\<exists>c \<in> cs. Key en = lower_key (cand_key c) \<and> live_act env c)) \<and>
     ((\<forall>svc rpc. \<forall>x \<in> auto_in d now svc rpc. \<forall>y \<in> auto_in d now svc rpc. x = y) \<longrightarrow>
        (\<forall>svc rpc. \<forall>x \<in> auto_in d' now svc rpc. \<forall>y \<in> auto_in d' now svc rpc. x = y))"

lemma kept_write:
  assumes "kept psl env now cs d d1" and "c \<in> cs" and cl: "cleared psl api env (cand_key c) now (live_act env c) ev e d1"
    and st: "api_Set api d1 \<lparr>Key = cand_key c, Until = drain_end env now, Reason_text = ReasonPrefix @ r\<rparr> now = (d2, ok')"
  shows "kept psl env now cs d d2"
proof -
  have ok: "view_ok d1" using assms(1) by (simp add: kept_def)
  note w = cleared_write [OF ok cl st]
  have act: "live_act env c" using cl by (simp add: cleared_def)
  have "\<forall>en \<in> content d. now < Until en \<longrightarrow> en \<in> content d2" using assms(1) w(2) by (auto simp: kept_def)
  moreover have "is_auto en \<and> now < Until en \<and> Until en \<le> now + drainFor \<and> (\<exists>c \<in> cs. Key en = lower_key (cand_key c) \<and> live_act env c)"
    if "en \<in> content d2" "en \<notin> content d" for en
    using that assms(1,2) act w(3) [of en] by (cases "en \<in> content d1") (auto simp: kept_def)
  moreover have "\<forall>svc rpc. \<forall>x \<in> auto_in d2 now svc rpc. \<forall>y \<in> auto_in d2 now svc rpc. x = y"
    if "\<forall>svc rpc. \<forall>x \<in> auto_in d now svc rpc. \<forall>y \<in> auto_in d now svc rpc. x = y"
    using that assms(1) w(4) unfolding kept_def by meson
  ultimately show ?thesis using w(1) by (simp add: kept_def)
qed

lemma Evaluate_kept:
  assumes "Evaluate psl api env now e d = (e', d', evs)" and "view_ok d"
  shows "kept psl env now (set (window (counts e) (op_rates_of env) now)) d d'"
proof (cases "isLeader env")
  case False
  then show ?thesis using assms by (auto simp: Evaluate_follower kept_def)
next
  case True
  let ?cs = "set (window (counts e) (op_rates_of env) now)"
  have "case (e', d', evs) of (_, d', _) \<Rightarrow> kept psl env now ?cs d d'"
    using assms(1) True
  proof (induction rule: Evaluate_induct)
    case start
    then show ?case using assms(2) by (simp add: kept_def)
  next
    case (step c e1 d1 evs1 e2 d2 evs2)
    from step.IH have k: "kept psl env now ?cs d d1" by simp
    from step.hyps(2) show ?case
    proof (cases rule: consider_elim)
      case quiet
      then show ?thesis using k by simp
    next
      case failed
      then show ?thesis using kept_write [OF k step.hyps(1) failed(1,4)] by simp
    next
      case drained
      then show ?thesis using kept_write [OF k step.hyps(1) drained(1,2)] by simp
    qed
  qed
  then show ?thesis by simp
qed

end

interpretation mem_engine: auto_store mem_ok mem_content mem_api
proof
  fix d :: mem_store and svc :: service_id and now :: time and en :: drain_entry
  assume ok: "mem_ok d"
  show "set (api_Active mem_api d svc now) = {en \<in> mem_content d. ServiceID (Key en) = svc \<and> now < Until en}"
    using mem.active_set [OF ok] by (simp add: mem_api_def)
  assume "now < Until en"
  then show "mem_ok (fst (api_Set mem_api d en now))"
    "mem_content (fst (api_Set mem_api d en now)) = {f \<in> mem_content d. Key f \<noteq> lower_key (Key en)} \<union> {en\<lparr>Key := lower_key (Key en)\<rparr>}"
    using mem.put_ok [OF ok] mem.put_content [OF ok] by (simp_all add: mem_api_def)
qed

lemma Set_redis_view:
  assumes "redis_ok s" and "now < Until en"
  obtains err s' h' where "Set_redis io1 io2 s h en now = (err, s', h')" "redis_ok s'" "err = propagate_err io1 (lower_entry en) now"
    "mem_content (mem s') = {f \<in> mem_content (mem s). Key f \<noteq> lower_key (Key en)} \<union> {en\<lparr>Key := lower_key (Key en)\<rparr>}"
proof -
  obtain err s' h' where r: "Set_redis io1 io2 s h en now = (err, s', h')" by (cases "Set_redis io1 io2 s h en now")
  have "mem_ok (mem s)" using assms(1) by (simp add: redis_ok_def)
  then have "mem_content (Set_mem (mem s) (lower_entry en) now) = {f \<in> mem_content (mem s). Key f \<noteq> lower_key (Key en)} \<union> {en\<lparr>Key := lower_key (Key en)\<rparr>}"
    using assms(2) by (simp add: mem.put_content) (simp add: lower_entry_def)
  then show ?thesis using that [OF r] Set_redis_live [OF assms r refl] by simp
qed

interpretation redis_engine: auto_store "\<lambda>d. redis_ok (fst d)" "\<lambda>d. mem_content (mem (fst d))" "redis_api io undo" for io undo
proof
  fix d :: "redis_store \<times> redis_hash" and svc :: service_id and now :: time and en :: drain_entry
  assume ok: "redis_ok (fst d)"
  then have "mem_ok (mem (fst d))" by (simp add: redis_ok_def)
  then show "set (api_Active (redis_api io undo) d svc now) = {en \<in> mem_content (mem (fst d)). ServiceID (Key en) = svc \<and> now < Until en}"
    using mem.active_set by (simp add: redis_api_def)
  assume live: "now < Until en"
  obtain err s' h' where "Set_redis (io en) (undo en) (fst d) (snd d) en now = (err, s', h')" "redis_ok s'"
    "mem_content (mem s') = {f \<in> mem_content (mem (fst d)). Key f \<noteq> lower_key (Key en)} \<union> {en\<lparr>Key := lower_key (Key en)\<rparr>}"
    by (rule Set_redis_view [OF ok live])
  then show "redis_ok (fst (fst (api_Set (redis_api io undo) d en now)))"
    "mem_content (mem (fst (fst (api_Set (redis_api io undo) d en now)))) =
       {f \<in> mem_content (mem (fst d)). Key f \<noteq> lower_key (Key en)} \<union> {en\<lparr>Key := lower_key (Key en)\<rparr>}"
    by (simp_all add: redis_api_def)
qed


section \<open>Properties\<close>

text \<open>C24. A drain is reported only with its whole case made: the replica is the leader and the service acts rather
  than watches; the operator met the thresholds of the trigger the event names; at least 50 client requests were
  seen and 5% of them failed or were harmed, or the operator is severe; the pool does not fail as a whole; an
  endpoint of another owner is vouched for; no person's release is being respected; and the drain ends within
  two hours.\<close>

theorem drained_with_cause:
  assumes "Evaluate psl api env now e d = (e', d', evs)" and "ev \<in> set evs" and "is_drained ev"
  shows "isLeader env \<and> At ev = now \<and> (\<exists>c \<in> set (window (counts e) (op_rates_of env) now). \<exists>k u. k = cand_key c \<and>
    about_key k ev \<and> live_act env c \<and> triggered ev \<and> 50 \<le> ClientRequests ev \<and>
    (0.05 \<le> ClientFailure ev \<or> 0.05 \<le> AnswerHarm ev \<or> severe ev) \<and> \<not> PoolWide ev \<and>
    (\<exists>ep \<in> set (availableEndpoints env k). Alternative ev = operator_of psl ep \<and> vouched_for env (ServiceID k) ep (RPCType k) \<and>
       \<not> Affiliates_Contains psl (owner_tbl env) (drained_affiliates psl (owner_tbl env) k (availableEndpoints env k)) ep) \<and>
    (\<forall>t. map_of (suppressed e') k = Some t \<longrightarrow> t \<le> now) \<and>
    ev_Until ev = Some u \<and> now < u \<and> u \<le> now + 2 * hour)"
    (is "_ \<and> _ \<and> ?cause (suppressed e') ev")
proof (cases "isLeader env")
  case False
  then show ?thesis using assms by (simp add: Evaluate_follower)
next
  case True
  let ?e0 = "reconcile api (e\<lparr>counts := (counts e)\<lparr>counting := isLeader env\<rparr>\<rparr>) d now"
  let ?P = "\<lambda>(e1, d1, evs1). suppressed e1 = suppressed ?e0 \<and>
    (\<forall>ev \<in> set evs1. is_drained ev \<longrightarrow> At ev = now \<and> ?cause (suppressed ?e0) ev)"
  have "?P (e', d', evs)"
    using assms(1) True
  proof (induction rule: Evaluate_induct)
    case (step c e1 d1 evs1 e2 d2 evs2)
    from step.hyps(2) show ?case
    proof (cases rule: consider_elim)
      case quiet
      then show ?thesis using step.IH by (auto simp: filter_empty_conv)
    next
      case failed
      then show ?thesis using step.IH by simp
    next
      case (drained m ev1)
      let ?ev = "ev1\<lparr>ev_Until := Some (drain_end env now), Outcome := Some OutcomeDrained\<rparr>"
      have alt: "alternative psl env (cand_key c) \<noteq> []" using drained(1) by (simp add: cleared_def)
      have sup: "suppressed e1 = suppressed ?e0" using step.IH by simp
      have "?cause (suppressed e1) ?ev"
        using drained(1) window_candidate [OF step.hyps(1)] alternative_vouched [OF alt] drain_end_bounds(1) [of now env]
          drain_end_bounds(2) [of env now]
        by (intro bexI [OF _ step.hyps(1)] exI [of _ "cand_key c"] exI [of _ "drain_end env now"])
          (auto simp: drained(3) cleared_def minClientRequests_def minClientFailure_def drainFor_def split: option.splits)
      then have "?cause (suppressed ?e0) ?ev" by (simp only: sup)
      moreover have "At ?ev = now" by (simp add: drained(3))
      moreover have "suppressed e2 = suppressed ?e0" using sup drained(4) by simp
      ultimately show ?thesis using step.IH drained(5) by simp
    qed
  qed simp
  then show ?thesis using assms(2,3) True by simp
qed


text \<open>C26. On the store shared through Redis, with any of its writes failing, an evaluation ends no drain that was
  in force, a person's in particular; every drain it adds is marked as its own, is about a candidate of a
  service that acts, and ends within two hours; and where every pool held at most one live automatic drain,
  every pool still does.\<close>

theorem Evaluate_keeps_drains:
  assumes "redis_ok s" and "Evaluate psl (redis_api io undo) env now e (s, h) = (e', (s', h'), evs)"
  shows "redis_ok s' \<and> (\<forall>en \<in> mem_content (mem s). now < Until en \<longrightarrow> en \<in> mem_content (mem s')) \<and>
    (\<forall>en \<in> mem_content (mem s') - mem_content (mem s). is_auto en \<and> now < Until en \<and> Until en \<le> now + 2 * hour \<and>
       (\<exists>c \<in> set (window (counts e) (op_rates_of env) now). Key en = lower_key (cand_key c) \<and> live_act env c)) \<and>
    ((\<forall>svc rpc. \<forall>x \<in> redis_engine.auto_in (s, h) now svc rpc. \<forall>y \<in> redis_engine.auto_in (s, h) now svc rpc. x = y) \<longrightarrow>
     (\<forall>svc rpc. \<forall>x \<in> redis_engine.auto_in (s', h') now svc rpc. \<forall>y \<in> redis_engine.auto_in (s', h') now svc rpc. x = y))"
  using redis_engine.Evaluate_kept [OF assms(2)] assms(1) by (simp add: redis_engine.kept_def drainFor_def)

text \<open>C27. A drain whose write to Redis fails is in force on the leader and yet the engine neither reports it nor
  charges it to its limits: its record of the hour, of the service and of its live drains is unchanged.\<close>

theorem unpropagated_drain_uncharged:
  assumes "redis_ok s" and "cleared psl (redis_api io undo) env k now True ev e (s, h)"
    and "\<And>en. io en \<noteq> Done"
  shows "\<exists>ev' s' h'. decide psl (redis_api io undo) env k now True ev e (s, h) = (None, ev', e, (s', h')) \<and>
    Drained_mem (mem s') (ServiceID k) (to_lower (Operator_key k)) (RPCType k) now"
proof -
  let ?ev = "ev\<lparr>Severe := severe ev, Alternative := alternative psl env k\<rparr>"
  let ?en = "\<lparr>Key = k, Until = drain_end env now, Reason_text = ReasonPrefix @ describe env ?ev\<rparr>"
  have live: "now < Until ?en" "Until ?en \<le> now + drainFor" using drain_end_bounds by simp_all
  obtain err s' h' where r: "Set_redis (io ?en) (undo ?en) s h ?en now = (err, s', h')" and ok: "redis_ok s'"
    and err: "err = propagate_err (io ?en) (lower_entry ?en) now"
    and c: "mem_content (mem s') = {f \<in> mem_content (mem s). Key f \<noteq> lower_key (Key ?en)} \<union> {?en\<lparr>Key := lower_key (Key ?en)\<rparr>}"
    by (rule Set_redis_view [OF assms(1) live(1)])
  have "err \<noteq> NoErr"
    using err assms(3) live by (simp add: propagate_err_def)
  then have dec: "decide psl (redis_api io undo) env k now True ev e (s, h) = (None, ?ev, e, (s', h'))"
    using decide_cleared [OF assms(2)] r by (simp add: set_drain_def Let_def redis_api_def)
  have "mem_ok (mem s')" using ok by (simp add: redis_ok_def)
  then have "Drained_mem (mem s') (ServiceID k) (to_lower (Operator_key k)) (RPCType k) now"
    using live(1) by (auto simp: mem.drained_iff c covers_def lower_key_def)
  then show ?thesis using dec by blast
qed


subsection \<open>Witnesses\<close>

text \<open>An operator that answered none of 60 attempts of ten minutes, in a pool with another provider, while 6 of 60 clients
  were failed.\<close>

definition no_psl :: psl where "no_psl = (\<lambda>h. None)"

definition bad_op :: string where "bad_op = operator_of no_psl ''s1-https://bad.example.org''"

definition demo_engine :: Engine where
  "demo_engine = (New_engine True)\<lparr>counts := \<lparr>counting = True,
     pools = [((''eth'', ''json_rpc''), (new_slot 10)\<lparr>collapse := 20, slot_ops := [(bad_op, no_count\<lparr>picks := 20, attempts := 60, firsts := 60, firstFails := 60\<rparr>)]\<rparr>
       # replicate 9 (new_slot 0))],
     clients = [(''eth'', (new_client_slot 10)\<lparr>cs_total := 60, cs_failed := 6\<rparr> # replicate 9 (new_client_slot 0))], peerRatio = None\<rparr>\<rparr>"

definition demo_env :: tick_env where
  "demo_env = \<lparr>isLeader = True, flag_on = (\<lambda>f svc. f = FlagAutoDrain),
     availableEndpoints = (\<lambda>k. [''s1-https://bad.example.org'', ''s2-https://good.example.net'']),
     vouched_for = (\<lambda>svc ep rpc. True), op_rates_of = None, maxDrain = 0, owner_tbl = empty_owner_table, describe = (\<lambda>ev. [])\<rparr>"

definition demo_now :: time where "demo_now = time_unix 600"

definition demo_state :: "redis_store \<times> redis_hash" where "demo_state = (NewRedisStore [], [])"


definition demo_tick :: "Engine \<times> (redis_store \<times> redis_hash) \<times> Event list" where
  "demo_tick = Evaluate no_psl (redis_api (\<lambda>_. Done) (\<lambda>_. Done)) demo_env demo_now demo_engine demo_state"

lemma demo_tick_drains:
  "map (\<lambda>ev. (is_drained ev, At ev)) (snd (snd demo_tick)) = [(True, demo_now)]"
  "length (entries (mem (fst (fst (snd demo_tick))))) = 1"
  by code_simp+

lemma demo_tick_eq:
  "Evaluate no_psl (redis_api (\<lambda>_. Done) (\<lambda>_. Done)) demo_env demo_now demo_engine demo_state =
     (fst demo_tick, fst (snd demo_tick), snd (snd demo_tick))"
  by (simp add: demo_tick_def)

theorem drained_with_cause_witness:
  "\<exists>ev u. snd (snd demo_tick) = [ev] \<and> is_drained ev \<and> triggered ev \<and> 50 \<le> ClientRequests ev \<and> ev_Until ev = Some u \<and> u \<le> demo_now + 2 * hour"
proof -
  obtain ev where ev: "snd (snd demo_tick) = [ev]" "is_drained ev" using demo_tick_drains(1) by auto
  then show ?thesis using drained_with_cause [OF demo_tick_eq, of ev] by auto
qed


theorem Evaluate_keeps_drains_witness:
  "redis_ok (fst demo_state) \<and> redis_ok (fst (fst (snd demo_tick))) \<and> length (entries (mem (fst (fst (snd demo_tick))))) = 1 \<and>
   mem_content (mem (fst (fst (snd demo_tick)))) - mem_content (mem (fst demo_state)) \<subseteq> Collect is_auto"
proof -
  have ok: "redis_ok (fst demo_state)" by (simp add: demo_state_def redis_ok_new)
  have "Evaluate no_psl (redis_api (\<lambda>_. Done) (\<lambda>_. Done)) demo_env demo_now demo_engine (fst demo_state, snd demo_state) =
     (fst demo_tick, (fst (fst (snd demo_tick)), snd (fst (snd demo_tick))), snd (snd demo_tick))"
    using demo_tick_eq by simp
  from Evaluate_keeps_drains [OF ok this] show ?thesis using ok demo_tick_drains(2) by (simp add: subset_iff)
qed

definition demo_event :: Event where
  "demo_event = cand_event (hd (window (counts demo_engine) None demo_now))"

definition demo_key :: drain_key where
  "demo_key = \<lparr>ServiceID = ''eth'', Operator_key = bad_op, RPCType = ''json_rpc''\<rparr>"

theorem unpropagated_drain_uncharged_witness:
  "\<exists>ev' s' h'. decide no_psl (redis_api (\<lambda>_. Failed) (\<lambda>_. Failed)) demo_env demo_key demo_now True demo_event demo_engine demo_state =
     (None, ev', demo_engine, (s', h')) \<and> Drained_mem (mem s') ''eth'' (to_lower bad_op) ''json_rpc'' demo_now"
proof -
  have "cleared no_psl (redis_api (\<lambda>_. Failed) (\<lambda>_. Failed)) demo_env demo_key demo_now True demo_event demo_engine (NewRedisStore [], [])"
    by code_simp
  from unpropagated_drain_uncharged [OF redis_ok_new this] show ?thesis by (simp add: demo_state_def demo_key_def)
qed

end
