(* ===== verification/Relay_Chain.thy ===== *)
theory Relay_Chain
  imports Domain_Types
begin

text \<open>
  The relay pipeline: the context a request carries (\<^verbatim>\<open>relay/context.go\<close>), payloads and responses
  (\<^verbatim>\<open>domain/payload.go\<close>), the verdict on a response (\<^verbatim>\<open>heuristic/result.go\<close>), handlers and their composition
  (\<^verbatim>\<open>relay/handler.go\<close>), and the order of the middleware with its validation (\<^verbatim>\<open>relay/chain_order.go\<close>).

  A handler is a function of the state of the gateway and the context; it returns both, changed, with the error
  if there was one. Of the context the fields that only observe (logger, writer, stage times) are left out, and
  of \<^verbatim>\<open>Ctx\<close> its deadline is kept.
\<close>

section \<open>Verdicts\<close>

datatype ErrorAttribution = AttrUnknown | AttrSupplier | AttrBlockchain | AttrClient

record AnalysisResult =
  ShouldRetry :: bool
  ShouldCircuitBreak :: bool
  ShouldPenalize :: bool
  PenaltySeverity :: string
  Attribution :: ErrorAttribution
  Confidence :: real
  vReason :: string
  vDetails :: string
  MethodBlocking :: bool
  HeadLag :: "64 word"
  HTTPStatus :: int

definition SeverityNone :: string where "SeverityNone = ''''"
definition SeverityMinor :: string where "SeverityMinor = ''minor''"
definition SeverityMajor :: string where "SeverityMajor = ''major''"
definition SeverityCritical :: string where "SeverityCritical = ''critical''"
definition SeverityFatal :: string where "SeverityFatal = ''fatal''"

definition ReasonRefusedRecent :: string where "ReasonRefusedRecent = ''refused_recent''"
definition ReasonStaleResponse :: string where "ReasonStaleResponse = ''stale_response''"
definition ReasonInvalidResult :: string where "ReasonInvalidResult = ''invalid_result''"
definition ReasonLightMethodError :: string where "ReasonLightMethodError = ''light_method_error''"
definition ReasonSuccess :: string where "ReasonSuccess = ''success''"
definition ReasonBlockchainError :: string where "ReasonBlockchainError = ''blockchain_error''"
definition ReasonFutureBlock :: string where "ReasonFutureBlock = ''future_block''"
definition ReasonMethodNotFound :: string where "ReasonMethodNotFound = ''method_not_found''"
definition ReasonRateLimited :: string where "ReasonRateLimited = ''rate_limited''"
definition ReasonQuotaExceeded :: string where "ReasonQuotaExceeded = ''quota_exceeded''"

text \<open>A number in decimal, as the standard library prints it.\<close>

fun decimal :: "nat \<Rightarrow> string" where
  "decimal n = (if n < 10 then [char_of (48 + n)] else decimal (n div 10) @ [char_of (48 + n mod 10)])"

declare decimal.simps [simp del]

definition supplier_verdict :: "real \<Rightarrow> string \<Rightarrow> string \<Rightarrow> 64 word \<Rightarrow> AnalysisResult" where
  "supplier_verdict conf reason details lag =
     \<lparr>ShouldRetry = True, ShouldCircuitBreak = False, ShouldPenalize = True, PenaltySeverity = SeverityMajor, Attribution = AttrSupplier,
      Confidence = conf, vReason = reason, vDetails = details, MethodBlocking = False, HeadLag = lag, HTTPStatus = 0\<rparr>"

definition RefusedRecent :: "string \<Rightarrow> AnalysisResult" where
  "RefusedRecent details = supplier_verdict 0.9 ReasonRefusedRecent details 0"

definition StaleResponse :: "64 word \<Rightarrow> AnalysisResult" where
  "StaleResponse lag =
     supplier_verdict 0.9 ReasonStaleResponse (''head answer '' @ decimal (unat lag) @ '' blocks behind the perceived head'') lag"

definition InvalidResult :: "string \<Rightarrow> AnalysisResult" where
  "InvalidResult details = supplier_verdict 0.95 ReasonInvalidResult details 0"

definition LightMethodError :: "AnalysisResult \<Rightarrow> AnalysisResult" where
  "LightMethodError prev = supplier_verdict 0.9 ReasonLightMethodError (''error on a call a working node always answers: '' @ vDetails prev) 0"

definition FutureBlock :: "AnalysisResult \<Rightarrow> string \<Rightarrow> AnalysisResult" where
  "FutureBlock prev detail = prev\<lparr>vReason := ReasonFutureBlock, vDetails := detail @ '': '' @ vDetails prev\<rparr>"

definition IsSuccess :: "AnalysisResult \<Rightarrow> bool" where
  "IsSuccess r \<longleftrightarrow> vReason r = ReasonSuccess"

definition successResult :: AnalysisResult where
  "successResult = \<lparr>ShouldRetry = False, ShouldCircuitBreak = False, ShouldPenalize = False, PenaltySeverity = SeverityNone,
     Attribution = AttrClient, Confidence = 1, vReason = ReasonSuccess, vDetails = ''valid response'', MethodBlocking = False,
     HeadLag = 0, HTTPStatus = 0\<rparr>"

section \<open>Payloads, responses and the context\<close>

record Payload =
  pl_data :: string
  pl_rpcType :: rpc_type
  pl_method :: string
  pl_path :: string
  pl_httpMethod :: string
  pl_contentType :: string

definition NewPayload :: "string \<Rightarrow> rpc_type \<Rightarrow> string \<Rightarrow> Payload" where
  "NewPayload data rpcType method =
     \<lparr>pl_data = data, pl_rpcType = rpcType, pl_method = method, pl_path = [], pl_httpMethod = [], pl_contentType = []\<rparr>"

definition WithHTTP :: "Payload \<Rightarrow> string \<Rightarrow> string \<Rightarrow> Payload" where
  "WithHTTP p path verb = p\<lparr>pl_path := path, pl_httpMethod := verb\<rparr>"

definition WithContentType :: "Payload \<Rightarrow> string \<Rightarrow> Payload" where
  "WithContentType p contentType = p\<lparr>pl_contentType := contentType\<rparr>"

definition IsWriteMethod :: "string \<Rightarrow> bool" where
  "IsWriteMethod method =
     (let m = to_lower method in sublist ''send'' m \<or> sublist ''submit'' m \<or> sublist ''broadcast'' m)"

record Response =
  Body :: string
  HTTPStatusCode :: int
  rs_EndpointAddr :: endpoint_addr

definition AttemptRetry :: string where "AttemptRetry = ''retry''"
definition AttemptHedge :: string where "AttemptHedge = ''hedge''"
definition AttemptProbation :: string where "AttemptProbation = ''probation''"

record Context =
  cx_deadline :: "time option"
  cx_ServiceID :: service_id
  cx_RPCType :: rpc_type
  cx_Payloads :: "Payload list"
  cx_BatchSize :: nat
  cx_Endpoint :: endpoint_addr
  cx_Attempts :: "string list"
  cx_Endpoints :: "endpoint_addr list"
  cx_Response :: "Response option"
  cx_Err :: "go_error option"
  cx_HeuristicResult :: "AnalysisResult option"
  cx_QuorumArm :: bool
  cx_AttemptKind :: string
  cx_Degraded :: bool
  cx_Cached :: bool
  cx_Coalesced :: bool

definition NewContext :: "time option \<Rightarrow> Context" where
  "NewContext deadline =
     \<lparr>cx_deadline = deadline, cx_ServiceID = [], cx_RPCType = [], cx_Payloads = [], cx_BatchSize = 0, cx_Endpoint = [], cx_Attempts = [],
      cx_Endpoints = [], cx_Response = None, cx_Err = None, cx_HeuristicResult = None, cx_QuorumArm = False, cx_AttemptKind = [],
      cx_Degraded = False, cx_Cached = False, cx_Coalesced = False\<rparr>"

text \<open>Whether a body is JSON is the standard library's question: an argument.\<close>

definition SupplierPage :: "(string \<Rightarrow> bool) \<Rightarrow> Context \<Rightarrow> bool" where
  "SupplierPage json_valid c =
     (case (cx_HeuristicResult c, cx_Response c) of
        (Some v, Some r) \<Rightarrow> Attribution v = AttrSupplier \<and> (HTTPStatusCode r = 408 \<or> \<not> json_valid (Body r))
      | _ \<Rightarrow> False)"

section \<open>Handlers and their composition\<close>

type_synonym 'w handler = "'w \<Rightarrow> Context \<Rightarrow> 'w \<times> Context \<times> go_error option"
type_synonym 'w middleware = "'w handler \<Rightarrow> 'w handler"

fun Chain :: "'w handler \<Rightarrow> 'w middleware list \<Rightarrow> 'w handler" where
  "Chain h [] = h"
| "Chain h (m # ms) = m (Chain h ms)"

definition Noop :: "'w handler" where
  "Noop w c = (w, c, None)"

section \<open>The order of the chain\<close>

definition MWShadow :: string where "MWShadow = ''shadow''"
definition MWTimeout :: string where "MWTimeout = ''timeout''"
definition MWRequestID :: string where "MWRequestID = ''request_id''"
definition MWClientIP :: string where "MWClientIP = ''client_ip''"
definition MWMetrics :: string where "MWMetrics = ''metrics''"
definition MWParse :: string where "MWParse = ''parse''"
definition MWValidate :: string where "MWValidate = ''validate''"
definition MWCache :: string where "MWCache = ''cache''"
definition MWBatch :: string where "MWBatch = ''batch''"
definition MWSingleflight :: string where "MWSingleflight = ''singleflight''"
definition MWObserve :: string where "MWObserve = ''observe''"
definition MWQuorum :: string where "MWQuorum = ''quorum''"
definition MWRetry :: string where "MWRetry = ''retry''"
definition MWHedge :: string where "MWHedge = ''hedge''"
definition MWSupplierAffinity :: string where "MWSupplierAffinity = ''supplier_affinity''"
definition MWCircuitBreak :: string where "MWCircuitBreak = ''circuit_break''"
definition MWMethodBlocks :: string where "MWMethodBlocks = ''method_blocks''"
definition MWSelectEndpoint :: string where "MWSelectEndpoint = ''select_endpoint''"
definition MWScore :: string where "MWScore = ''score''"
definition MWDebugLog :: string where "MWDebugLog = ''debug_log''"
definition MWHeuristic :: string where "MWHeuristic = ''heuristic''"
definition MWSendRelay :: string where "MWSendRelay = ''send_relay''"

definition DefaultChainOrder :: "string list" where
  "DefaultChainOrder = [MWShadow, MWRequestID, MWClientIP, MWParse, MWValidate, MWTimeout, MWQuorum, MWCache, MWBatch, MWSingleflight,
     MWObserve, MWRetry, MWHedge, MWMetrics, MWSupplierAffinity, MWCircuitBreak, MWMethodBlocks, MWSelectEndpoint, MWScore, MWDebugLog,
     MWHeuristic, MWSendRelay]"

datatype chain_error =
    DuplicateNames "string list"
  | NotInnermost nat nat
  | OutOfOrder string string nat nat

fun duplicates :: "string list \<Rightarrow> string list \<Rightarrow> string list" where
  "duplicates seen [] = []"
| "duplicates seen (n # ns) = (if n \<in> set seen then n # duplicates seen ns else duplicates (n # seen) ns)"

fun position :: "string \<Rightarrow> string list \<Rightarrow> nat option" where
  "position x [] = None"
| "position x (n # ns) = (if n = x then Some 0 else map_option Suc (position x ns))"

definition mustPrecede :: "(string \<times> string) list" where
  "mustPrecede =
     [(MWParse, MWValidate), (MWParse, MWCache), (MWParse, MWBatch), (MWParse, MWSingleflight), (MWParse, MWSelectEndpoint),
      (MWParse, MWSendRelay), (MWParse, MWHeuristic), (MWSelectEndpoint, MWSendRelay), (MWHeuristic, MWSendRelay),
      (MWRetry, MWSelectEndpoint), (MWHedge, MWSelectEndpoint), (MWCircuitBreak, MWSelectEndpoint), (MWParse, MWTimeout),
      (MWParse, MWQuorum), (MWTimeout, MWQuorum), (MWQuorum, MWCache), (MWQuorum, MWSingleflight), (MWQuorum, MWObserve),
      (MWQuorum, MWRetry), (MWQuorum, MWHedge), (MWQuorum, MWSelectEndpoint), (MWTimeout, MWBatch), (MWTimeout, MWRetry),
      (MWHedge, MWMethodBlocks), (MWMethodBlocks, MWSelectEndpoint), (MWRetry, MWScore), (MWHedge, MWScore), (MWBatch, MWScore),
      (MWSelectEndpoint, MWScore), (MWScore, MWHeuristic), (MWRetry, MWMetrics), (MWHedge, MWMetrics), (MWBatch, MWMetrics),
      (MWMetrics, MWSelectEndpoint), (MWSupplierAffinity, MWSelectEndpoint), (MWClientIP, MWSupplierAffinity), (MWTimeout, MWHedge),
      (MWObserve, MWHeuristic), (MWDebugLog, MWSendRelay)]"

definition broken_rule :: "string list \<Rightarrow> string \<times> string \<Rightarrow> chain_error option" where
  "broken_rule names rule =
     (case rule of (before, after) \<Rightarrow>
       case (position before names, position after names) of
         (Some a, Some b) \<Rightarrow> if a \<ge> b then Some (OutOfOrder before after a b) else None
       | _ \<Rightarrow> None)"

definition ValidateChainOrder :: "string list \<Rightarrow> chain_error + unit" where
  "ValidateChainOrder names =
     (let dups = duplicates [] names in
      if dups \<noteq> [] then Inl (DuplicateNames dups)
      else case position MWSendRelay names of
        Some sr \<Rightarrow>
          if sr \<noteq> length names - 1 then Inl (NotInnermost sr (length names))
          else (case List.map_filter (broken_rule names) mustPrecede of [] \<Rightarrow> Inr () | e # _ \<Rightarrow> Inl e)
      | None \<Rightarrow> (case List.map_filter (broken_rule names) mustPrecede of [] \<Rightarrow> Inr () | e # _ \<Rightarrow> Inl e))"

section \<open>Lemmas\<close>

lemma duplicates_Nil: "duplicates seen ns = [] \<longleftrightarrow> distinct ns \<and> set ns \<inter> set seen = {}"
  by (induction ns arbitrary: seen) auto

lemma set_duplicates: "set (duplicates seen ns) \<subseteq> set ns"
  by (induction ns arbitrary: seen) auto

lemma position_SomeD: "position x ns = Some i \<Longrightarrow> i < length ns \<and> ns ! i = x"
  by (induction ns arbitrary: i) (auto split: if_splits)

lemma position_None: "position x ns = None \<longleftrightarrow> x \<notin> set ns"
  by (induction ns) auto

lemma position_unique: "distinct ns \<Longrightarrow> i < length ns \<Longrightarrow> position (ns ! i) ns = Some i"
  by (induction ns arbitrary: i) (auto simp: nth_Cons split: nat.splits)

lemma map_filter_Nil: "List.map_filter f xs = [] \<longleftrightarrow> (\<forall>x \<in> set xs. f x = None)"
  by (induction xs) (auto simp: List.map_filter_simps split: option.splits)

lemma map_filter_ConsD: "List.map_filter f xs = y # ys \<Longrightarrow> \<exists>x \<in> set xs. f x = Some y"
  by (induction xs) (auto simp: List.map_filter_simps split: option.splits)

lemma broken_rule_None:
  assumes "distinct names"
  shows "broken_rule names (a, b) = None \<longleftrightarrow>
    (\<forall>i j. i < length names \<longrightarrow> j < length names \<longrightarrow> names ! i = a \<longrightarrow> names ! j = b \<longrightarrow> i < j)"
proof -
  have "broken_rule names (a, b) = None \<longleftrightarrow> \<not> (\<exists>i j. position a names = Some i \<and> position b names = Some j \<and> j \<le> i)"
    by (auto simp: broken_rule_def split: option.splits)
  also have "(\<exists>i j. position a names = Some i \<and> position b names = Some j \<and> j \<le> i) \<longleftrightarrow>
      (\<exists>i j. i < length names \<and> j < length names \<and> names ! i = a \<and> names ! j = b \<and> j \<le> i)"
    using position_unique [OF assms] position_SomeD by metis
  finally show ?thesis by (simp add: not_le) blast
qed

lemma Chain_append: "Chain h (ms @ ns) = Chain (Chain h ns) ms"
  by (induction ms) auto

section \<open>Properties\<close>

text \<open>C32. A chain is accepted exactly when no middleware is listed twice, \<^verbatim>\<open>send_relay\<close> is innermost and every
  rule holds between all listed middleware; a rejection names what is wrong: the names that are repeated, where
  \<^verbatim>\<open>send_relay\<close> is, or two middleware whose rule is broken, with their positions. The default order is accepted.\<close>

theorem ValidateChainOrder_spec:
  "ValidateChainOrder DefaultChainOrder = Inr () \<and>
   (case ValidateChainOrder names of
      Inr _ \<Rightarrow> distinct names \<and> (\<forall>i < length names. names ! i = MWSendRelay \<longrightarrow> i = length names - 1) \<and>
        (\<forall>(a, b) \<in> set mustPrecede. \<forall>i < length names. \<forall>j < length names. names ! i = a \<longrightarrow> names ! j = b \<longrightarrow> i < j)
    | Inl (DuplicateNames ds) \<Rightarrow> ds \<noteq> [] \<and> set ds \<subseteq> set names \<and> \<not> distinct names
    | Inl (NotInnermost i n) \<Rightarrow> n = length names \<and> i < n - 1 \<and> names ! i = MWSendRelay
    | Inl (OutOfOrder a b i j) \<Rightarrow> (a, b) \<in> set mustPrecede \<and> j < length names \<and> i < length names \<and> names ! i = a \<and> names ! j = b \<and> j \<le> i)"
proof (intro conjI)
  show "ValidateChainOrder DefaultChainOrder = Inr ()" by code_simp
  show "case ValidateChainOrder names of
      Inr _ \<Rightarrow> distinct names \<and> (\<forall>i < length names. names ! i = MWSendRelay \<longrightarrow> i = length names - 1) \<and>
        (\<forall>(a, b) \<in> set mustPrecede. \<forall>i < length names. \<forall>j < length names. names ! i = a \<longrightarrow> names ! j = b \<longrightarrow> i < j)
    | Inl (DuplicateNames ds) \<Rightarrow> ds \<noteq> [] \<and> set ds \<subseteq> set names \<and> \<not> distinct names
    | Inl (NotInnermost i n) \<Rightarrow> n = length names \<and> i < n - 1 \<and> names ! i = MWSendRelay
    | Inl (OutOfOrder a b i j) \<Rightarrow> (a, b) \<in> set mustPrecede \<and> j < length names \<and> i < length names \<and> names ! i = a \<and> names ! j = b \<and> j \<le> i"
  proof (cases "distinct names")
    case False
    then show ?thesis
      using duplicates_Nil [of "[]" names] set_duplicates [of "[]" names] by (auto simp: ValidateChainOrder_def Let_def)
  next
    case True
    let ?bad = "List.map_filter (broken_rule names) mustPrecede"
    have rules: "\<forall>(a, b) \<in> set mustPrecede. \<forall>i < length names. \<forall>j < length names. names ! i = a \<longrightarrow> names ! j = b \<longrightarrow> i < j" if "?bad = []"
      using that broken_rule_None [OF True] unfolding map_filter_Nil by blast
    have shape: "\<exists>a b i j. e = OutOfOrder a b i j \<and> (a, b) \<in> set mustPrecede \<and> j < length names \<and> i < length names \<and> names ! i = a \<and> names ! j = b \<and> j \<le> i"
      if "?bad = e # es" for e es
      using map_filter_ConsD [OF that] by (auto simp: broken_rule_def dest!: position_SomeD split: option.splits if_splits)
    have dups: "duplicates [] names = []" using True by (simp add: duplicates_Nil)
    show ?thesis
    proof (cases "position MWSendRelay names")
      case None
      then have "\<forall>i < length names. names ! i \<noteq> MWSendRelay" using position_None by (metis nth_mem)
      then show ?thesis using None True rules shape dups
        by (cases ?bad) (fastforce simp: ValidateChainOrder_def Let_def)+
    next
      case (Some sr)
      then have sr: "sr < length names" "names ! sr = MWSendRelay" using position_SomeD by auto
      then have only: "\<forall>i < length names. names ! i = MWSendRelay \<longrightarrow> i = sr" using True by (simp add: nth_eq_iff_index_eq flip: sr(2))
      show ?thesis
      proof (cases "sr = length names - 1")
        case False
        then show ?thesis using Some sr dups by (simp add: ValidateChainOrder_def Let_def)
      next
        case last: True
        then show ?thesis using Some True rules shape dups only
          by (cases ?bad) (fastforce simp: ValidateChainOrder_def Let_def)+
      qed
    qed
  qed
qed

theorem ValidateChainOrder_spec_witness:
  "ValidateChainOrder DefaultChainOrder = Inr () \<and>
   ValidateChainOrder [MWScore, MWRetry] = Inl (OutOfOrder MWRetry MWScore 1 0) \<and> (MWRetry, MWScore) \<in> set mustPrecede"
proof -
  have "ValidateChainOrder [MWScore, MWRetry] = Inl (OutOfOrder MWRetry MWScore 1 0)" by code_simp
  then show ?thesis using ValidateChainOrder_spec [of "[MWScore, MWRetry]"] by simp
qed

end
