(* ===== verification/Relay_Retry.thy ===== *)
theory Relay_Retry
  imports Relay_Chain
begin

text \<open>
  The retry middleware (\<^verbatim>\<open>relay/middleware/retry.go\<close>) with the guards it shares with the other middleware
  (\<^verbatim>\<open>endpointfilter.go\<close>, \<^verbatim>\<open>endpoint.go\<close>, \<^verbatim>\<open>methodblocks.go\<close>): which failures are tried again, on which endpoints,
  under which deadline, and which answer stands when the attempts run out.

  The rest of the chain is the handler \<open>next\<close>; what the middleware reads of the gateway (flags, clock, reputation,
  plugin, endpoints) is the record \<open>surroundings\<close>, each a function of the state of the gateway at that moment. A
  collaborator the code may lack is an option. The attempts are kept in a list beside the loop's variables so that
  statements about them can be made; the loop does not read it.
\<close>

section \<open>Model: surroundings and shared guards\<close>

record 'w surroundings =
  sr_clock :: "'w \<Rightarrow> time"
  sr_done :: "'w \<Rightarrow> Context \<Rightarrow> bool"
  sr_flag :: "'w \<Rightarrow> string \<Rightarrow> service_id \<Rightarrow> bool"
  sr_vouched :: "('w \<Rightarrow> service_id \<Rightarrow> endpoint_addr \<Rightarrow> rpc_type \<Rightarrow> bool) option"
  sr_probation :: "('w \<Rightarrow> service_id \<Rightarrow> endpoint_addr \<Rightarrow> rpc_type \<Rightarrow> bool) option"
  sr_available :: "('w \<Rightarrow> service_id \<Rightarrow> rpc_type \<Rightarrow> endpoint_addr list option) option"
  sr_allStale :: "('w \<Rightarrow> endpoint_addr list \<Rightarrow> bool) option"
  sr_retaining :: "('w \<Rightarrow> endpoint_addr list \<Rightarrow> Payload list \<Rightarrow> endpoint_addr list option) option"
  sr_psl :: psl
  sr_owners :: "'w \<Rightarrow> owner_table"

definition FlagRetry :: string where "FlagRetry = ''retry''"
definition FlagOperatorAwareSelection :: string where "FlagOperatorAwareSelection = ''operator_aware_selection''"
definition FlagArchivalRetry :: string where "FlagArchivalRetry = ''archival_retry''"

definition filterEndpoints :: "endpoint_addr list \<Rightarrow> (endpoint_addr \<Rightarrow> bool) \<Rightarrow> endpoint_addr list" where
  "filterEndpoints eps keep = filter keep eps"

definition anyVouched :: "'w surroundings \<Rightarrow> 'w \<Rightarrow> Context \<Rightarrow> endpoint_addr list \<Rightarrow> bool" where
  "anyVouched sr w c eps =
     (case sr_vouched sr of None \<Rightarrow> True | Some v \<Rightarrow> list_ex (\<lambda>ep. v w (cx_ServiceID c) ep (cx_RPCType c)) eps)"

definition narrowsIntoStale :: "'w surroundings \<Rightarrow> 'w \<Rightarrow> endpoint_addr list \<Rightarrow> endpoint_addr list \<Rightarrow> bool" where
  "narrowsIntoStale sr w narrowed full =
     (case sr_allStale sr of None \<Rightarrow> False | Some stale \<Rightarrow> stale w narrowed \<and> \<not> stale w full)"

definition fillEndpoints :: "'w surroundings \<Rightarrow> 'w \<Rightarrow> Context \<Rightarrow> Context" where
  "fillEndpoints sr w c =
     (case sr_available sr of
        None \<Rightarrow> c
      | Some av \<Rightarrow> if cx_Endpoints c \<noteq> [] then c
          else (case av w (cx_ServiceID c) (cx_RPCType c) of Some eps \<Rightarrow> c\<lparr>cx_Endpoints := eps\<rparr> | None \<Rightarrow> c))"

text \<open>What selection answers a hedge arm whose every candidate is ruled out.\<close>

definition errHedgeRuledOut :: go_error where
  "errHedgeRuledOut = OtherError ''hedge: every endpoint left for it is ruled out''"

section \<open>Model: the helpers of retry\<close>

definition retryBudgetFraction :: int where "retryBudgetFraction = 5"

definition budgetForRetry :: "time option \<Rightarrow> time \<Rightarrow> time \<Rightarrow> bool" where
  "budgetForRetry deadline start now =
     (case deadline of None \<Rightarrow> True | Some dl \<Rightarrow> time_sub dl now \<ge> go_div (time_sub dl start) retryBudgetFraction)"

definition perAttemptContext :: "time option \<Rightarrow> int \<Rightarrow> time \<Rightarrow> time option" where
  "perAttemptContext deadline attemptsLeft now =
     (case deadline of
        None \<Rightarrow> None
      | Some dl \<Rightarrow>
          if attemptsLeft \<le> 1 then Some dl
          else let remaining = time_sub dl now in
            if remaining \<le> 0 then Some dl else Some (min dl (now + go_div remaining attemptsLeft)))"

definition retryReason :: "go_error option \<Rightarrow> string" where
  "retryReason err =
     (case err of
        None \<Rightarrow> ''error''
      | Some e \<Rightarrow> if error_is e ErrEndpointsStale then ''rollover''
          else (case as_relay_error e of Some (k, _) \<Rightarrow> kind_string k | None \<Rightarrow> ''error''))"

definition retryCause :: "Context \<Rightarrow> go_error option \<Rightarrow> string" where
  "retryCause c err =
     (case cx_HeuristicResult c of
        Some v \<Rightarrow> if vReason v \<noteq> [] then vReason v else retryReason err
      | None \<Rightarrow> retryReason err)"

definition isStale :: "AnalysisResult option \<Rightarrow> bool" where
  "isStale v = (case v of Some r \<Rightarrow> vReason r = ReasonStaleResponse | None \<Rightarrow> False)"

definition fresherStale :: "AnalysisResult option \<Rightarrow> AnalysisResult option \<Rightarrow> bool" where
  "fresherStale a b = (case (a, b) of (Some ra, Some rb) \<Rightarrow> isStale a \<and> isStale b \<and> HeadLag ra < HeadLag rb | _ \<Rightarrow> False)"

definition supplierAttributed :: "Context \<Rightarrow> bool" where
  "supplierAttributed c = (case cx_HeuristicResult c of Some v \<Rightarrow> Attribution v = AttrSupplier | None \<Rightarrow> False)"

definition attemptNote :: "'w surroundings \<Rightarrow> 'w \<Rightarrow> Context \<Rightarrow> go_error option \<Rightarrow> string" where
  "attemptNote sr w c err =
     (let host = (if Domain_addr (cx_Endpoint c) = [] then ''-'' else Domain_addr (cx_Endpoint c));
          host = (case sr_probation sr of
            Some p \<Rightarrow> if cx_Endpoint c \<noteq> [] \<and> p w (cx_ServiceID c) (cx_Endpoint c) (cx_RPCType c) then host @ '':probation'' else host
          | None \<Rightarrow> host)
      in case err of None \<Rightarrow> host @ '':ok'' | Some e \<Rightarrow> host @ '':'' @ retryCause c err)"

definition limiterVerdict :: "string \<Rightarrow> bool" where
  "limiterVerdict reason \<longleftrightarrow> reason \<in> {ReasonRateLimited, ReasonQuotaExceeded, ''http_429'', ''upstream_429''}"

definition historyRefusal :: "string \<Rightarrow> bool" where
  "historyRefusal reason \<longleftrightarrow> reason = ReasonBlockchainError \<or> reason = ReasonRefusedRecent"

section \<open>Model: the loop\<close>

record kept_answer =
  kp_Response :: "Response option"
  kp_Endpoint :: endpoint_addr
  kp_Verdict :: "AnalysisResult option"
  kp_Err :: "go_error option"

record tried_set =
  td_Endpoints :: "(endpoint_addr, bool) gomap"
  td_Operators :: "string list"
  td_Affiliates :: affiliates
  td_Pool :: "endpoint_addr list"

text \<open>What one attempt was given, what it left, and its error.\<close>

record attempt =
  at_given :: Context
  at_out :: Context
  at_err :: "go_error option"

record retry_vars =
  rv_tried :: "tried_set option"
  rv_kept :: kept_answer
  rv_lastErr :: "go_error option"
  rv_pendingCause :: string
  rv_retriedFor :: string
  rv_limited :: bool
  rv_trail :: "string list"
  rv_attempts :: "attempt list"

definition own_answer :: "Context \<Rightarrow> go_error option \<Rightarrow> bool" where
  "own_answer c lastErr =
     (cx_Response c \<noteq> None \<and> (case lastErr of Some e \<Rightarrow> error_is e ErrRetryVerdict | None \<Rightarrow> False) \<and>
      (case cx_HeuristicResult c of
         None \<Rightarrow> True
       | Some v \<Rightarrow> Attribution v \<noteq> AttrSupplier \<or> vReason v = ReasonStaleResponse \<or> vReason v = ReasonLightMethodError))"

definition keep_answer :: "Context \<Rightarrow> go_error option \<Rightarrow> kept_answer \<Rightarrow> kept_answer" where
  "keep_answer c lastErr kp =
     (if own_answer c lastErr \<and>
         (\<not> isStale (cx_HeuristicResult c) \<or> \<not> isStale (kp_Verdict kp) \<or> fresherStale (cx_HeuristicResult c) (kp_Verdict kp))
      then \<lparr>kp_Response = cx_Response c, kp_Endpoint = cx_Endpoint c, kp_Verdict = cx_HeuristicResult c, kp_Err = lastErr\<rparr>
      else kp)"

definition clear_attempt :: "Context \<Rightarrow> Context" where
  "clear_attempt c = c\<lparr>cx_Endpoint := [], cx_Response := None, cx_Err := None, cx_HeuristicResult := None\<rparr>"

definition note_tried :: "'w surroundings \<Rightarrow> 'w \<Rightarrow> Context \<Rightarrow> tried_set option \<Rightarrow> tried_set" where
  "note_tried sr w c td =
     (let t = (case td of Some t \<Rightarrow> t
        | None \<Rightarrow> \<lparr>td_Endpoints = [], td_Operators = [], td_Affiliates = AffiliatesOf (sr_psl sr) (sr_owners sr w) [], td_Pool = cx_Endpoints c\<rparr>)
      in t\<lparr>td_Endpoints := AList.update (cx_Endpoint c) True (td_Endpoints t),
           td_Operators := operator_of (sr_psl sr) (cx_Endpoint c) # td_Operators t,
           td_Affiliates := Affiliates_Add (sr_psl sr) (sr_owners sr w) (td_Affiliates t) (cx_Endpoint c)\<rparr>)"

definition prefer_operators :: "'w surroundings \<Rightarrow> 'w \<Rightarrow> bool \<Rightarrow> Context \<Rightarrow> tried_set \<Rightarrow> endpoint_addr list \<Rightarrow> endpoint_addr list" where
  "prefer_operators sr w aware c t available =
     (if aware then
        let narrowed = ExcludeAffiliates (sr_psl sr) (sr_owners sr w) (td_Affiliates t) available in
        if (anyVouched sr w c narrowed \<or> \<not> anyVouched sr w c available) \<and> \<not> narrowsIntoStale sr w narrowed available
        then narrowed else available
      else available)"

definition other_operators :: "'w surroundings \<Rightarrow> tried_set \<Rightarrow> endpoint_addr list \<Rightarrow> endpoint_addr list" where
  "other_operators sr t available = filterEndpoints available (\<lambda>ep. operator_of (sr_psl sr) ep \<notin> set (td_Operators t))"

definition prefer_archival :: "'w surroundings \<Rightarrow> 'w \<Rightarrow> string \<Rightarrow> Context \<Rightarrow> endpoint_addr list \<Rightarrow> endpoint_addr list" where
  "prefer_archival sr w cause c available =
     (if historyRefusal cause \<and> sr_flag sr w FlagArchivalRetry (cx_ServiceID c) then
        (case sr_retaining sr of
           None \<Rightarrow> available
         | Some retaining \<Rightarrow>
             (case retaining w available (cx_Payloads c) of
                Some kept \<Rightarrow> if anyVouched sr w c kept then kept else available
              | None \<Rightarrow> available))
      else available)"

text \<open>Before a further attempt: \<open>Inl\<close> the variables when there is none, \<open>Inr\<close> the variables and the context for it.\<close>

definition prepare_retry :: "'w surroundings \<Rightarrow> 'w \<Rightarrow> bool \<Rightarrow> time \<Rightarrow> retry_vars \<Rightarrow> Context \<Rightarrow> retry_vars + retry_vars \<times> Context" where
  "prepare_retry sr w aware start rv c =
     (if sr_done sr w c \<or> \<not> budgetForRetry (cx_deadline c) start (sr_clock sr w) then Inl rv
      else
        let cause = retryCause c (rv_lastErr rv);
            rv = rv\<lparr>rv_pendingCause := cause, rv_kept := keep_answer c (rv_lastErr rv) (rv_kept rv)\<rparr>
        in if (case rv_lastErr rv of Some e \<Rightarrow> error_is e ErrEndpointsStale | None \<Rightarrow> False)
           then Inr (rv\<lparr>rv_tried := None\<rparr>, clear_attempt (c\<lparr>cx_Endpoints := []\<rparr>))
           else
             let t = note_tried sr w c (rv_tried rv); rv = rv\<lparr>rv_tried := Some t\<rparr>; available = Exclude (td_Pool t) (td_Endpoints t) in
             if available = [] then Inl rv
             else
               let available = prefer_operators sr w aware c t available; other = other_operators sr t available in
               if limiterVerdict cause \<and> (other = [] \<or> \<not> anyVouched sr w c other \<or> narrowsIntoStale sr w other available)
               then Inl (rv\<lparr>rv_retriedFor := cause, rv_limited := True\<rparr>)
               else
                 let available = (if limiterVerdict cause then other else available);
                     available = prefer_archival sr w cause c available
                 in Inr (rv, clear_attempt (c\<lparr>cx_Endpoints := available\<rparr>)))"

definition run_attempt :: "'w surroundings \<Rightarrow> 'w handler \<Rightarrow> int \<Rightarrow> 'w \<Rightarrow> retry_vars \<Rightarrow> Context \<Rightarrow> 'w \<times> retry_vars \<times> Context \<times> go_error option" where
  "run_attempt sr next left w rv c =
     (let given = c\<lparr>cx_AttemptKind := (if rv_attempts rv \<noteq> [] then AttemptRetry else []),
                    cx_deadline := perAttemptContext (cx_deadline c) left (sr_clock sr w)\<rparr>
      in case next w given of (w', c', err) \<Rightarrow>
        let c' = c'\<lparr>cx_deadline := cx_deadline c\<rparr>;
            trail = (if err \<noteq> None \<or> rv_trail rv \<noteq> [] then rv_trail rv @ [attemptNote sr w' c' err] else rv_trail rv)
        in (w', rv\<lparr>rv_retriedFor := rv_pendingCause rv, rv_pendingCause := [], rv_trail := trail,
                   rv_attempts := rv_attempts rv @ [\<lparr>at_given = given, at_out = c', at_err = err\<rparr>]\<rparr>, c', err))"

text \<open>The loop with the attempts that are left; its result is the variables, the context and the error returned.\<close>

fun retry_loop :: "'w surroundings \<Rightarrow> 'w handler \<Rightarrow> bool \<Rightarrow> duration \<Rightarrow> time \<Rightarrow> nat \<Rightarrow> 'w \<Rightarrow> retry_vars \<Rightarrow> Context \<Rightarrow>
    'w \<times> retry_vars \<times> Context \<times> go_error option" where
  "retry_loop sr next aware maxLatency start 0 w rv c = (w, rv, c, rv_lastErr rv)"
| "retry_loop sr next aware maxLatency start (Suc left) w rv c =
     (case (if rv_attempts rv = [] then Inr (rv, c) else prepare_retry sr w aware start rv c) of
        Inl rv' \<Rightarrow> (w, rv', c, rv_lastErr rv')
      | Inr (rv', c') \<Rightarrow>
          (case run_attempt sr next (int left + 1) w rv' c' of (w', rv'', c'', err) \<Rightarrow>
            (case err of
               None \<Rightarrow> (w', rv'', c'', None)
             | Some e \<Rightarrow>
                 let rv'' = rv''\<lparr>rv_lastErr := err\<rparr> in
                 if \<not> IsRetryable e \<or> maxLatency > 0 \<and> time_sub (sr_clock sr w') start \<ge> maxLatency then (w', rv'', c'', err)
                 else retry_loop sr next aware maxLatency start left w' rv'' c'')))"

definition stand_by_kept :: "kept_answer \<Rightarrow> Context \<Rightarrow> go_error option \<Rightarrow> Context \<times> go_error option" where
  "stand_by_kept kp c err =
     (if err \<noteq> None \<and> kp_Response kp \<noteq> None \<and> (cx_Response c = None \<or> supplierAttributed c) \<and>
         (cx_Response c = None \<or> \<not> fresherStale (cx_HeuristicResult c) (kp_Verdict kp))
      then (c\<lparr>cx_Response := kp_Response kp, cx_Endpoint := kp_Endpoint kp, cx_HeuristicResult := kp_Verdict kp, cx_Err := kp_Err kp\<rparr>, kp_Err kp)
      else (c, err))"

definition retry_start :: "Context \<Rightarrow> retry_vars" where
  "retry_start c =
     \<lparr>rv_tried = None,
      rv_kept = \<lparr>kp_Response = cx_Response c, kp_Endpoint = cx_Endpoint c, kp_Verdict = cx_HeuristicResult c, kp_Err = None\<rparr>,
      rv_lastErr = None, rv_pendingCause = [], rv_retriedFor = [], rv_limited = False, rv_trail = [], rv_attempts = []\<rparr>"

definition retry_resolution :: "retry_vars \<Rightarrow> go_error option \<Rightarrow> (string \<times> string) option" where
  "retry_resolution rv err =
     (if rv_retriedFor rv = [] then None
      else Some (rv_retriedFor rv, if rv_limited rv then ''limited'' else if err = None then ''recovered'' else ''exhausted''))"

record RetryConfig =
  MaxRetries :: int
  MaxLatency :: duration

definition retry_run :: "'w surroundings \<Rightarrow> RetryConfig \<Rightarrow> 'w handler \<Rightarrow> 'w \<Rightarrow> Context \<Rightarrow> 'w \<times> retry_vars \<times> Context \<times> go_error option" where
  "retry_run sr cfg next w c =
     (let c = fillEndpoints sr w c; aware = sr_flag sr w FlagOperatorAwareSelection (cx_ServiceID c) in
      retry_loop sr next aware (MaxLatency cfg) (sr_clock sr w) (nat (MaxRetries cfg + 1)) w (retry_start c) c)"

definition Retry :: "'w surroundings \<Rightarrow> ('w \<Rightarrow> service_id \<Rightarrow> RetryConfig) \<Rightarrow> 'w middleware" where
  "Retry sr configFn next w c =
     (if cx_QuorumArm c \<or> \<not> sr_flag sr w FlagRetry (cx_ServiceID c) then next w c
      else
        let cfg = configFn w (cx_ServiceID c) in
        if MaxRetries cfg = 0 then next w c
        else case retry_run sr cfg next w c of (w', rv, c', err) \<Rightarrow>
          (case stand_by_kept (rv_kept rv) c' err of (c'', err') \<Rightarrow>
            (w', if rv_trail rv \<noteq> [] then c''\<lparr>cx_Attempts := rv_trail rv\<rparr> else c'', err')))"


section \<open>Lemmas: one step\<close>

text \<open>What the code relies on from a plugin that narrows by archival marks: it keeps some of what it was given.\<close>

definition narrows_only :: "'w surroundings \<Rightarrow> bool" where
  "narrows_only sr \<longleftrightarrow> (\<forall>f w eps ps kept. sr_retaining sr = Some f \<longrightarrow> f w eps ps = Some kept \<longrightarrow> kept \<noteq> [] \<and> set kept \<subseteq> set eps)"

definition stale_attempt :: "attempt \<Rightarrow> bool" where
  "stale_attempt a = (case at_err a of Some e \<Rightarrow> error_is e ErrEndpointsStale | None \<Rightarrow> False)"

text \<open>The endpoints the attempts since the last rollover were sent to.\<close>

definition tried_since :: "attempt list \<Rightarrow> endpoint_addr set" where
  "tried_since as = foldl (\<lambda>S a. if stale_attempt a then {} else insert (cx_Endpoint (at_out a)) S) {} as"

lemma tried_since_simps [simp]:
  "tried_since [] = {}"
  "tried_since (as @ [a]) = (if stale_attempt a then {} else insert (cx_Endpoint (at_out a)) (tried_since as))"
  by (simp_all add: tried_since_def)

definition limited_attempt :: "attempt \<Rightarrow> bool" where
  "limited_attempt a \<longleftrightarrow> limiterVerdict (retryCause (at_out a) (at_err a)) \<and> \<not> stale_attempt a"

text \<open>What may be said of an attempt given the ones before it.\<close>

definition steered :: "psl \<Rightarrow> attempt list \<Rightarrow> attempt \<Rightarrow> bool" where
  "steered psl as a \<longleftrightarrow>
     (let eps = cx_Endpoints (at_given a) in
       set eps \<inter> tried_since as = {} \<and>
       (as \<noteq> [] \<longrightarrow> cx_Response (at_given a) = None \<and> cx_HeuristicResult (at_given a) = None \<and> cx_AttemptKind (at_given a) = AttemptRetry) \<and>
       (as \<noteq> [] \<and> \<not> stale_attempt (last as) \<longrightarrow> eps \<noteq> []) \<and>
       (as \<noteq> [] \<and> limited_attempt (last as) \<longrightarrow> operator_of psl ` set eps \<inter> operator_of psl ` tried_since as = {}))"

lemma set_Exclude: "set (Exclude l m) = {a \<in> set l. map_of m a \<noteq> Some True}"
  by (auto simp: Exclude_def)

lemma ExcludeAffiliates_sub: "set (ExcludeAffiliates psl t a l) \<subseteq> set l" "l \<noteq> [] \<Longrightarrow> ExcludeAffiliates psl t a l \<noteq> []"
  by (auto simp: ExcludeAffiliates_def Let_def)

lemma prefer_operators_sub:
  "set (prefer_operators sr w aware c t l) \<subseteq> set l" "l \<noteq> [] \<Longrightarrow> prefer_operators sr w aware c t l \<noteq> []"
  using ExcludeAffiliates_sub(1) [of "sr_psl sr" "sr_owners sr w" "td_Affiliates t" l]
    ExcludeAffiliates_sub(2) [of l "sr_psl sr" "sr_owners sr w" "td_Affiliates t"]
  by (simp_all add: prefer_operators_def Let_def)

lemma prefer_archival_sub:
  assumes "narrows_only sr"
  shows "set (prefer_archival sr w cause c l) \<subseteq> set l" "l \<noteq> [] \<Longrightarrow> prefer_archival sr w cause c l \<noteq> []"
  using assms by (auto simp: prefer_archival_def narrows_only_def split: option.splits)

lemma note_tried_simps:
  "map_of (td_Endpoints (note_tried sr w c td)) a = (if a = cx_Endpoint c then Some True else
     (case td of Some t \<Rightarrow> map_of (td_Endpoints t) a | None \<Rightarrow> None))"
  "set (td_Operators (note_tried sr w c td)) = insert (operator_of (sr_psl sr) (cx_Endpoint c)) (case td of Some t \<Rightarrow> set (td_Operators t) | None \<Rightarrow> {})"
  by (simp_all add: note_tried_def Let_def gomap_simps split: option.split)

text \<open>The bookkeeping covers the attempts before the last one.\<close>

definition covered :: "psl \<Rightarrow> retry_vars \<Rightarrow> attempt list \<Rightarrow> bool" where
  "covered psl rv as =
     (case rv_tried rv of
        None \<Rightarrow> tried_since as = {}
      | Some t \<Rightarrow> (\<forall>a \<in> tried_since as. map_of (td_Endpoints t) a = Some True) \<and> operator_of psl ` tried_since as \<subseteq> set (td_Operators t))"

lemma note_tried_covers:
  assumes "covered (sr_psl sr) rv as" and "\<not> stale_attempt a" and "cx_Endpoint (at_out a) = cx_Endpoint c"
  shows "covered (sr_psl sr) (rv\<lparr>rv_tried := Some (note_tried sr w c (rv_tried rv))\<rparr>) (as @ [a])"
  using assms by (auto simp: covered_def note_tried_simps split: option.splits)

lemma prepare_retry_Inr:
  assumes "prepare_retry sr w aware start rv c = Inr (rv', c')" and nar: "narrows_only sr"
    and cov: "covered (sr_psl sr) rv as" and l: "at_out a = c" "at_err a = rv_lastErr rv"
  shows "covered (sr_psl sr) rv' (as @ [a])" and "rv_attempts rv' = rv_attempts rv" and "rv_lastErr rv' = rv_lastErr rv"
    and "rv_kept rv' = keep_answer c (rv_lastErr rv) (rv_kept rv)"
    and "cx_Response c' = None \<and> cx_HeuristicResult c' = None"
    and "set (cx_Endpoints c') \<inter> tried_since (as @ [a]) = {}"
    and "\<not> stale_attempt a \<Longrightarrow> cx_Endpoints c' \<noteq> []"
    and "limited_attempt a \<Longrightarrow> operator_of (sr_psl sr) ` set (cx_Endpoints c') \<inter> operator_of (sr_psl sr) ` tried_since (as @ [a]) = {}"
    and "cx_deadline c' = cx_deadline c"
proof -
  let ?kept = "keep_answer c (rv_lastErr rv) (rv_kept rv)"
  let ?cause = "retryCause c (rv_lastErr rv)"
  let ?rv = "rv\<lparr>rv_pendingCause := ?cause, rv_kept := ?kept\<rparr>"
  show "rv_attempts rv' = rv_attempts rv" "rv_lastErr rv' = rv_lastErr rv" "rv_kept rv' = ?kept" "cx_Response c' = None \<and> cx_HeuristicResult c' = None"
    "cx_deadline c' = cx_deadline c"
    using assms(1) by (auto simp: prepare_retry_def Let_def clear_attempt_def split: if_splits option.splits)
  have stale: "stale_attempt a \<longleftrightarrow> (case rv_lastErr rv of Some e \<Rightarrow> error_is e ErrEndpointsStale | None \<Rightarrow> False)"
    by (simp add: stale_attempt_def l)
  have "covered (sr_psl sr) rv' (as @ [a]) \<and> set (cx_Endpoints c') \<inter> tried_since (as @ [a]) = {} \<and>
    (\<not> stale_attempt a \<longrightarrow> cx_Endpoints c' \<noteq> []) \<and>
    (limited_attempt a \<longrightarrow> operator_of (sr_psl sr) ` set (cx_Endpoints c') \<inter> operator_of (sr_psl sr) ` tried_since (as @ [a]) = {})"
  proof (cases "stale_attempt a")
    case True
    then have "rv' = ?rv\<lparr>rv_tried := None\<rparr>" "cx_Endpoints c' = []"
      using assms(1) by (auto simp: prepare_retry_def Let_def stale clear_attempt_def split: if_splits)
    then show ?thesis using True by (simp add: covered_def limited_attempt_def)
  next
    case False
    let ?t = "note_tried sr w c (rv_tried rv)"
    let ?av = "Exclude (td_Pool ?t) (td_Endpoints ?t)"
    let ?pref = "prefer_operators sr w aware c ?t ?av"
    let ?other = "other_operators sr ?t ?pref"
    let ?base = "if limiterVerdict ?cause then ?other else ?pref"
    have r: "rv' = ?rv\<lparr>rv_tried := Some ?t\<rparr>" "cx_Endpoints c' = prefer_archival sr w ?cause c ?base" "?av \<noteq> []"
      "limiterVerdict ?cause \<longrightarrow> ?other \<noteq> []"
      using assms(1) False by (auto simp: prepare_retry_def Let_def stale clear_attempt_def split: if_splits)
    have cov': "covered (sr_psl sr) (rv\<lparr>rv_tried := Some ?t\<rparr>) (as @ [a])"
      using note_tried_covers [OF cov False] l(1) by simp
    have sub: "set (cx_Endpoints c') \<subseteq> set ?base" using prefer_archival_sub(1) [OF nar] r(2) by simp
    have base: "set ?base \<subseteq> set ?av"
      using prefer_operators_sub(1) [of sr w aware c ?t ?av] by (auto simp: other_operators_def filterEndpoints_def)
    have fresh: "set ?av \<inter> tried_since (as @ [a]) = {}" using cov' by (auto simp: covered_def set_Exclude)
    have ne: "?base \<noteq> []" using prefer_operators_sub(2) [OF r(3), of sr w aware c ?t] r(4) by simp
    have ops: "operator_of (sr_psl sr) ` tried_since (as @ [a]) \<subseteq> set (td_Operators ?t)"
      using cov' unfolding covered_def by (simp del: tried_since_simps)
    have lim: "operator_of (sr_psl sr) ` set ?base \<inter> operator_of (sr_psl sr) ` tried_since (as @ [a]) = {}" if "limiterVerdict ?cause"
      using ops that by (auto simp: other_operators_def filterEndpoints_def simp del: tried_since_simps)
    have "covered (sr_psl sr) rv' (as @ [a])" using cov' r(1) by (simp add: covered_def)
    moreover have "cx_Endpoints c' \<noteq> []" using prefer_archival_sub(2) [OF nar ne] r(2) by simp
    moreover have "set (cx_Endpoints c') \<inter> tried_since (as @ [a]) = {}" using sub base fresh by blast
    moreover have "operator_of (sr_psl sr) ` set (cx_Endpoints c') \<inter> operator_of (sr_psl sr) ` tried_since (as @ [a]) = {}" if "limited_attempt a"
    proof -
      have "limiterVerdict ?cause" using that by (simp add: limited_attempt_def l)
      then show ?thesis using lim sub by blast
    qed
    ultimately show ?thesis by blast
  qed
  then show "covered (sr_psl sr) rv' (as @ [a])" "set (cx_Endpoints c') \<inter> tried_since (as @ [a]) = {}"
    "\<not> stale_attempt a \<Longrightarrow> cx_Endpoints c' \<noteq> []"
    "limited_attempt a \<Longrightarrow> operator_of (sr_psl sr) ` set (cx_Endpoints c') \<inter> operator_of (sr_psl sr) ` tried_since (as @ [a]) = {}"
    by blast+
qed

lemma prepare_retry_Inl:
  "prepare_retry sr w aware start rv c = Inl rv' \<Longrightarrow> rv_attempts rv' = rv_attempts rv \<and> rv_lastErr rv' = rv_lastErr rv \<and>
     (rv_kept rv' = rv_kept rv \<or> rv_kept rv' = keep_answer c (rv_lastErr rv) (rv_kept rv))"
  by (auto simp: prepare_retry_def Let_def split: if_splits option.splits)

lemma run_attempt_result:
  assumes "run_attempt sr next left w rv c = (w', rv', c', err)"
  obtains a where "rv_attempts rv' = rv_attempts rv @ [a]" "at_out a = c'" "at_err a = err"
    "cx_Endpoints (at_given a) = cx_Endpoints c" "cx_Response (at_given a) = cx_Response c"
    "cx_HeuristicResult (at_given a) = cx_HeuristicResult c" "cx_AttemptKind (at_given a) = (if rv_attempts rv \<noteq> [] then AttemptRetry else [])"
    "cx_deadline (at_given a) = perAttemptContext (cx_deadline c) left (sr_clock sr w)" "cx_deadline c' = cx_deadline c"
    "rv_tried rv' = rv_tried rv" "rv_kept rv' = rv_kept rv"
  using assms by (auto simp: run_attempt_def Let_def split: prod.splits)

text \<open>The variables between two attempts, and an induction over the loop in terms of them: what holds before an
  attempt and is kept by it holds of the result.\<close>

definition between :: "psl \<Rightarrow> retry_vars \<Rightarrow> Context \<Rightarrow> bool" where
  "between psl rv c \<longleftrightarrow>
     (rv_attempts rv = [] \<and> rv_tried rv = None \<and> rv_lastErr rv = None) \<or>
     (\<exists>as a. rv_attempts rv = as @ [a] \<and> at_out a = c \<and> at_err a = rv_lastErr rv \<and> rv_lastErr rv \<noteq> None \<and> covered psl rv as)"

definition all_steered :: "psl \<Rightarrow> attempt list \<Rightarrow> bool" where
  "all_steered psl as \<longleftrightarrow> (\<forall>j < length as. steered psl (take j as) (as ! j))"

lemma all_steered_simps [simp]:
  "all_steered psl []"
  "all_steered psl (as @ [a]) \<longleftrightarrow> all_steered psl as \<and> steered psl as a"
  by (auto simp: all_steered_def nth_append less_Suc_eq)

lemma attempt_step:
  assumes nar: "narrows_only sr" and bt: "between (sr_psl sr) rv c"
    and pr: "(if rv_attempts rv = [] then Inr (rv, c) else prepare_retry sr w aware start rv c) = Inr (rv', c')"
    and run: "run_attempt sr next left w rv' c' = (w', rv'', c'', err)"
  obtains a where "rv_attempts rv'' = rv_attempts rv @ [a]" "steered (sr_psl sr) (rv_attempts rv) a" "at_out a = c''" "at_err a = err"
    "covered (sr_psl sr) rv'' (rv_attempts rv)"
    "rv_kept rv'' = (if rv_attempts rv = [] then rv_kept rv else keep_answer c (rv_lastErr rv) (rv_kept rv))"
proof -
  obtain a where a: "rv_attempts rv'' = rv_attempts rv' @ [a]" "at_out a = c''" "at_err a = err"
    "cx_Endpoints (at_given a) = cx_Endpoints c'" "cx_Response (at_given a) = cx_Response c'"
    "cx_HeuristicResult (at_given a) = cx_HeuristicResult c'" "cx_AttemptKind (at_given a) = (if rv_attempts rv' \<noteq> [] then AttemptRetry else [])"
    "rv_tried rv'' = rv_tried rv'" "rv_kept rv'' = rv_kept rv'"
    by (rule run_attempt_result [OF run])
  show ?thesis
  proof (cases "rv_attempts rv = []")
    case True
    then have "rv' = rv" "c' = c" using pr by auto
    moreover have "rv_tried rv = None" using bt True by (auto simp: between_def)
    ultimately show ?thesis using that [of a] a True by (simp add: steered_def covered_def)
  next
    case False
    then obtain as a0 where as: "rv_attempts rv = as @ [a0]" "at_out a0 = c" "at_err a0 = rv_lastErr rv" "covered (sr_psl sr) rv as"
      using bt by (auto simp: between_def)
    have "prepare_retry sr w aware start rv c = Inr (rv', c')" using pr False by simp
    note p = prepare_retry_Inr [OF this nar as(4) as(2,3)]
    have "steered (sr_psl sr) (rv_attempts rv) a" using p a by (simp add: steered_def as(1) p(2))
    moreover have "covered (sr_psl sr) rv'' (rv_attempts rv)" using p(1) a(8) by (simp add: covered_def as(1))
    ultimately show ?thesis using that [of a] a p(2,4) False by simp
  qed
qed

text \<open>A response that is a node's answer rather than a supplier's own page.\<close>

definition node_verdict :: "AnalysisResult option \<Rightarrow> bool" where
  "node_verdict v = (case v of None \<Rightarrow> True
     | Some r \<Rightarrow> Attribution r \<noteq> AttrSupplier \<or> vReason r = ReasonStaleResponse \<or> vReason r = ReasonLightMethodError)"

definition answered_in :: "attempt list \<Rightarrow> bool" where
  "answered_in as \<longleftrightarrow> (\<exists>a \<in> set as. own_answer (at_out a) (at_err a))"

definition kept_good :: "kept_answer \<Rightarrow> attempt list \<Rightarrow> bool" where
  "kept_good kp as \<longleftrightarrow>
     (isStale (kp_Verdict kp) \<longrightarrow> kp_Response kp \<noteq> None) \<and> (kp_Response kp \<noteq> None \<longrightarrow> node_verdict (kp_Verdict kp)) \<and>
     (answered_in as \<longrightarrow> kp_Response kp \<noteq> None)"

lemma own_answer_node: "own_answer c err \<Longrightarrow> cx_Response c \<noteq> None \<and> node_verdict (cx_HeuristicResult c)"
  by (auto simp: own_answer_def node_verdict_def split: option.splits)

lemma keep_answer_good: "kept_good kp as \<Longrightarrow> kept_good (keep_answer (at_out a) (at_err a) kp) (as @ [a])"
  using own_answer_node [of "at_out a" "at_err a"]
  by (auto simp: kept_good_def keep_answer_def answered_in_def)

lemma kept_good_snoc: "kept_good kp (as @ [a]) \<Longrightarrow> kept_good kp as"
  by (auto simp: kept_good_def answered_in_def)

lemma retry_loop_result:
  assumes "narrows_only sr" and "retry_loop sr next aware ml start n w rv c = (w', rv', c', err)"
    and "between (sr_psl sr) rv c" and "all_steered (sr_psl sr) (rv_attempts rv)" and "kept_good (rv_kept rv) (butlast (rv_attempts rv))"
  shows "all_steered (sr_psl sr) (rv_attempts rv') \<and> length (rv_attempts rv') \<le> length (rv_attempts rv) + n \<and>
    kept_good (rv_kept rv') (butlast (rv_attempts rv')) \<and>
    (rv_attempts rv' \<noteq> [] \<longrightarrow> at_out (last (rv_attempts rv')) = c' \<and> at_err (last (rv_attempts rv')) = err)"
  using assms
proof (induction n arbitrary: w rv c)
  case 0
  then show ?case by (auto simp: between_def)
next
  case (Suc n)
  let ?pre = "if rv_attempts rv = [] then Inr (rv, c) else prepare_retry sr w aware start rv c"
  show ?case
  proof (cases ?pre)
    case (Inl rv1)
    then have ne: "rv_attempts rv \<noteq> []" "prepare_retry sr w aware start rv c = Inl rv1" by (auto split: if_splits)
    then obtain as a where as: "rv_attempts rv = as @ [a]" "at_out a = c" "at_err a = rv_lastErr rv"
      using Suc.prems(3) by (auto simp: between_def)
    have "kept_good (rv_kept rv1) as"
      using prepare_retry_Inl [OF ne(2)] Suc.prems(5) keep_answer_good [of "rv_kept rv" as a] kept_good_snoc as by auto
    then show ?thesis using Suc.prems Inl prepare_retry_Inl [OF ne(2)] as by auto
  next
    case (Inr r)
    obtain rv1 c1 where r: "r = (rv1, c1)" by (cases r)
    obtain w2 rv2 c2 err2 where run: "run_attempt sr next (int n + 1) w rv1 c1 = (w2, rv2, c2, err2)"
      by (cases "run_attempt sr next (int n + 1) w rv1 c1")
    obtain a where a: "rv_attempts rv2 = rv_attempts rv @ [a]" "steered (sr_psl sr) (rv_attempts rv) a" "at_out a = c2" "at_err a = err2"
      "covered (sr_psl sr) rv2 (rv_attempts rv)"
      "rv_kept rv2 = (if rv_attempts rv = [] then rv_kept rv else keep_answer c (rv_lastErr rv) (rv_kept rv))"
      by (rule attempt_step [OF Suc.prems(1,3) Inr [unfolded r] run])
    have st: "all_steered (sr_psl sr) (rv_attempts rv2)" using Suc.prems(4) a by simp
    have kg: "kept_good (rv_kept rv2) (rv_attempts rv)"
    proof (cases "rv_attempts rv = []")
      case True
      then show ?thesis using a(6) Suc.prems(5) by simp
    next
      case False
      then obtain as a0 where as: "rv_attempts rv = as @ [a0]" "at_out a0 = c" "at_err a0 = rv_lastErr rv"
        using Suc.prems(3) by (auto simp: between_def)
      then show ?thesis using a(6) Suc.prems(5) keep_answer_good [of "rv_kept rv" as a0] by simp
    qed
    show ?thesis
    proof (cases "err2 = None \<or> (\<exists>e. err2 = Some e \<and> (\<not> IsRetryable e \<or> ml > 0 \<and> time_sub (sr_clock sr w2) start \<ge> ml))")
      case True
      then have "rv_attempts rv' = rv_attempts rv2" "rv_kept rv' = rv_kept rv2" "c' = c2" "err = err2"
        using Suc.prems(2) Inr r run by (auto simp: Let_def)
      then show ?thesis using st a(1,3,4) kg by simp
    next
      case False
      let ?rv = "rv2\<lparr>rv_lastErr := err2\<rparr>"
      have "between (sr_psl sr) ?rv c2" using a False by (auto simp: between_def covered_def)
      moreover have "retry_loop sr next aware ml start n w2 ?rv c2 = (w', rv', c', err)"
        using Suc.prems(2) Inr r run False by (auto simp: Let_def)
      ultimately show ?thesis using Suc.IH [OF Suc.prems(1), of w2 ?rv c2] st a(1) kg by simp
    qed
  qed
qed

lemma fillEndpoints_frame [simp]:
  "cx_Response (fillEndpoints sr w c) = cx_Response c" "cx_HeuristicResult (fillEndpoints sr w c) = cx_HeuristicResult c"
  "cx_ServiceID (fillEndpoints sr w c) = cx_ServiceID c" "cx_deadline (fillEndpoints sr w c) = cx_deadline c"
  by (auto simp: fillEndpoints_def split: option.split)

lemma retry_start_between: "between psl (retry_start c) c' \<and> all_steered psl (rv_attempts (retry_start c))"
  by (simp add: retry_start_def between_def)

lemma stand_by_kept_answers:
  assumes "stand_by_kept kp c err = (c', err')" and "err \<noteq> None" and "kept_good kp as"
    and "answered_in as \<or> own_answer c err"
  shows "cx_Response c' \<noteq> None \<and> node_verdict (cx_HeuristicResult c')"
proof (cases "own_answer c err")
  case True
  then show ?thesis using assms own_answer_node [OF True]
    by (auto simp: stand_by_kept_def kept_good_def split: if_splits)
next
  case False
  then have kp: "kp_Response kp \<noteq> None" "node_verdict (kp_Verdict kp)" using assms(3,4) by (auto simp: kept_good_def)
  show ?thesis
  proof (cases "(cx_Response c = None \<or> supplierAttributed c) \<and> (cx_Response c = None \<or> \<not> fresherStale (cx_HeuristicResult c) (kp_Verdict kp))")
    case True
    then show ?thesis using assms(1,2) kp by (auto simp: stand_by_kept_def)
  next
    case other: False
    then have "c' = c" "cx_Response c \<noteq> None" "\<not> supplierAttributed c \<or> isStale (cx_HeuristicResult c)"
      using assms(1) by (auto simp: stand_by_kept_def fresherStale_def split: option.splits)
    then show ?thesis by (auto simp: node_verdict_def supplierAttributed_def isStale_def split: option.splits)
  qed
qed

lemma retry_run_result:
  assumes "narrows_only sr" and "retry_run sr cfg next w c = (w', rv, c', err)" and "cx_HeuristicResult c = None"
  shows "all_steered (sr_psl sr) (rv_attempts rv) \<and> length (rv_attempts rv) \<le> nat (MaxRetries cfg + 1) \<and>
    kept_good (rv_kept rv) (butlast (rv_attempts rv)) \<and>
    (rv_attempts rv \<noteq> [] \<longrightarrow> at_out (last (rv_attempts rv)) = c' \<and> at_err (last (rv_attempts rv)) = err)"
proof -
  let ?c = "fillEndpoints sr w c"
  have "kept_good (rv_kept (retry_start ?c)) (butlast (rv_attempts (retry_start ?c)))"
    using assms(3) by (simp add: retry_start_def kept_good_def isStale_def node_verdict_def answered_in_def)
  moreover have "rv_attempts (retry_start ?c) = []" by (simp add: retry_start_def)
  ultimately show ?thesis
    using retry_loop_result [OF assms(1) assms(2) [unfolded retry_run_def Let_def]] retry_start_between [of "sr_psl sr" ?c ?c] by simp
qed

text \<open>With a negative number of retries the loop is never entered: nothing is sent and no error is returned.\<close>

lemma negative_retries_send_nothing:
  assumes "\<not> cx_QuorumArm c" and "sr_flag sr w FlagRetry (cx_ServiceID c)" and "MaxRetries (configFn w (cx_ServiceID c)) < 0"
  shows "Retry sr configFn next w c = (w, fillEndpoints sr w c, None)"
  using assms by (simp add: Retry_def Let_def retry_run_def stand_by_kept_def retry_start_def)

section \<open>Properties\<close>


text \<open>C29. When the attempts end in an error and a node answered one of them, the client is given a node's answer: there is a
  response, and it is not a supplier's own page, even if later attempts brought nothing or such a page.\<close>

theorem retry_keeps_answer:
  assumes "narrows_only sr" and "cx_HeuristicResult c = None" and "retry_run sr cfg next w c = (w', rv, c', Some e)"
    and "\<exists>a \<in> set (rv_attempts rv). own_answer (at_out a) (at_err a)"
    and "\<not> cx_QuorumArm c" and "sr_flag sr w FlagRetry (cx_ServiceID c)" and "configFn w (cx_ServiceID c) = cfg" and "MaxRetries cfg \<noteq> 0"
    and "Retry sr configFn next w c = (w'', f, err'')"
  shows "cx_Response f \<noteq> None \<and> node_verdict (cx_HeuristicResult f)"
proof -
  obtain c'' err2 where st: "stand_by_kept (rv_kept rv) c' (Some e) = (c'', err2)" by (cases "stand_by_kept (rv_kept rv) c' (Some e)")
  have f: "cx_Response f = cx_Response c''" "cx_HeuristicResult f = cx_HeuristicResult c''"
    using assms(3,5-9) st by (auto simp: Retry_def Let_def)
  note r = retry_run_result [OF assms(1,3,2)]
  have ne: "rv_attempts rv \<noteq> []" using assms(4) by auto
  have "answered_in (butlast (rv_attempts rv)) \<or> own_answer c' (Some e)"
  proof -
    have "rv_attempts rv = butlast (rv_attempts rv) @ [last (rv_attempts rv)]" using ne by simp
    then have "\<exists>a \<in> set (butlast (rv_attempts rv)) \<union> {last (rv_attempts rv)}. own_answer (at_out a) (at_err a)"
      using assms(4) by (metis Un_commute insert_is_Un list.simps(15) set_append empty_set)
    then show ?thesis using r ne by (auto simp: answered_in_def)
  qed
  then show ?thesis using stand_by_kept_answers [OF st] r f by auto
qed


subsection \<open>Witnesses\<close>

text \<open>The first attempt gets a node's answer worth another try, the second gets nothing.\<close>

definition demo_sr :: "nat surroundings" where
  "demo_sr = \<lparr>sr_clock = (\<lambda>w. 0), sr_done = (\<lambda>w c. False), sr_flag = (\<lambda>w f svc. True), sr_vouched = None, sr_probation = None,
     sr_available = None, sr_allStale = None, sr_retaining = None, sr_psl = (\<lambda>h. None), sr_owners = (\<lambda>w. empty_owner_table)\<rparr>"

definition demo_next :: "nat handler" where
  "demo_next w c =
     (w + 1,
      c\<lparr>cx_Endpoint := hd (cx_Endpoints c),
        cx_Response := (if w = 0 then Some \<lparr>Body = ''block not found'', HTTPStatusCode = 200, rs_EndpointAddr = hd (cx_Endpoints c)\<rparr> else None)\<rparr>,
      Some (RelayError ErrEndpoint ''try elsewhere'' (if w = 0 then Some ErrRetryVerdict else None) True))"

definition demo_ctx :: Context where
  "demo_ctx = (NewContext None)\<lparr>cx_ServiceID := ''eth'', cx_Endpoints := [''s1-https://a.io'', ''s2-https://b.io'']\<rparr>"

definition demo_cfg :: RetryConfig where "demo_cfg = \<lparr>MaxRetries = 1, MaxLatency = 0\<rparr>"

definition demo_attempts :: "attempt list" where
  "demo_attempts = rv_attempts (fst (snd (retry_run demo_sr demo_cfg demo_next 0 demo_ctx)))"

lemma demo_retry:
  "length demo_attempts = 2" "cx_Endpoints (at_given (demo_attempts ! 1)) = [''s2-https://b.io'']"
  "tried_since (take 1 demo_attempts) = {''s1-https://a.io''}" "\<exists>a \<in> set demo_attempts. own_answer (at_out a) (at_err a)"
  "snd (snd (snd (retry_run demo_sr demo_cfg demo_next 0 demo_ctx))) = Some (RelayError ErrEndpoint ''try elsewhere'' None True)"
  by code_simp+

lemma demo_narrows: "narrows_only demo_sr" "cx_HeuristicResult demo_ctx = None"
  by (simp_all add: narrows_only_def demo_sr_def demo_ctx_def NewContext_def)

lemma demo_run:
  "retry_run demo_sr demo_cfg demo_next 0 demo_ctx =
     (fst (retry_run demo_sr demo_cfg demo_next 0 demo_ctx), fst (snd (retry_run demo_sr demo_cfg demo_next 0 demo_ctx)),
      fst (snd (snd (retry_run demo_sr demo_cfg demo_next 0 demo_ctx))), Some (RelayError ErrEndpoint ''try elsewhere'' None True))"
  using demo_retry(5) by (simp add: prod_eq_iff)


theorem retry_keeps_answer_witness:
  "(case Retry demo_sr (\<lambda>w svc. demo_cfg) demo_next 0 demo_ctx of (w, f, err) \<Rightarrow> cx_Response f \<noteq> None \<and> node_verdict (cx_HeuristicResult f))"
proof -
  obtain w f err where r: "Retry demo_sr (\<lambda>w svc. demo_cfg) demo_next 0 demo_ctx = (w, f, err)"
    by (cases "Retry demo_sr (\<lambda>w svc. demo_cfg) demo_next 0 demo_ctx")
  have "cx_Response f \<noteq> None \<and> node_verdict (cx_HeuristicResult f)"
    by (rule retry_keeps_answer [OF demo_narrows demo_run _ _ _ _ _ r])
      (use demo_retry(4) in \<open>simp_all add: demo_attempts_def demo_sr_def demo_ctx_def NewContext_def demo_cfg_def\<close>)
  then show ?thesis using r by simp
qed

end
