(* ===== verification/Relay_Select.thy ===== *)
theory Relay_Select
  imports Circuit_Breaker Method_Block Relay_Retry "HOL-Library.Multiset"
begin

text \<open>
  The middleware between retry and the wire that decide which endpoint an attempt is sent to and learn from how it
  went: \<^verbatim>\<open>circuitbreak.go\<close>, \<^verbatim>\<open>methodblocks.go\<close>, \<^verbatim>\<open>endpoint.go\<close> and the reordering of \<^verbatim>\<open>affinity.go\<close> under
  \<^verbatim>\<open>relay/middleware\<close>. Each middleware is what it does before the rest of the chain (\<open>_pre\<close>) and after it (\<open>_post\<close>).

  The state of the gateway they share is the record \<open>gateway\<close>; the rest of the chain may change it in any way. The
  URL an endpoint is dialed at, the plugin's filter, the name of a request's method, and the reputation service's
  choice are parameters of \<open>pipeline\<close>. That the breaker's notification and the metrics are only told is not modelled.
\<close>

section \<open>Model: surroundings\<close>

record gateway =
  gw_now :: time
  gw_breaker :: breaker
  gw_blocks :: mb_store

record pipeline =
  pp_sr :: "gateway surroundings"
  pp_hostname :: "service_id \<Rightarrow> endpoint_addr \<Rightarrow> rpc_type \<Rightarrow> string option"
  pp_redis_ok :: bool
  pp_method :: "Context \<Rightarrow> string"
  pp_family :: "Context \<Rightarrow> string \<Rightarrow> string list"
  pp_filter :: "(gateway \<Rightarrow> endpoint_addr list \<Rightarrow> Payload list \<Rightarrow> endpoint_addr list option) option"
  pp_ruledOut :: "(gateway \<Rightarrow> service_id \<Rightarrow> endpoint_addr \<Rightarrow> rpc_type \<Rightarrow> bool) option"
  pp_class :: "Context \<Rightarrow> string"
  pp_select :: "gateway \<Rightarrow> string \<Rightarrow> service_id \<Rightarrow> endpoint_addr list \<Rightarrow> rpc_type \<Rightarrow> endpoint_addr"

definition FlagCircuitBreaker :: string where "FlagCircuitBreaker = ''circuit_breaker''"
definition FlagMethodBlocks :: string where "FlagMethodBlocks = ''method_blocks''"
definition MethodOther :: string where "MethodOther = ''_other''"

definition dialedHost :: "pipeline \<Rightarrow> service_id \<Rightarrow> endpoint_addr \<Rightarrow> rpc_type \<Rightarrow> string" where
  "dialedHost pp svc ep rpc =
     (case pp_hostname pp svc ep rpc of Some h \<Rightarrow> if h \<noteq> [] then h else Domain_addr ep | None \<Rightarrow> Domain_addr ep)"

section \<open>Model: circuit breaking\<close>

text \<open>The filter asks the breaker about each endpoint in turn; a question may claim a refresh.\<close>

fun unbroken :: "pipeline \<Rightarrow> Context \<Rightarrow> time \<Rightarrow> breaker \<Rightarrow> endpoint_addr list \<Rightarrow> endpoint_addr list \<times> breaker" where
  "unbroken pp c now b [] = ([], b)"
| "unbroken pp c now b (ep # eps) =
     (case IsBroken b (cx_ServiceID c) (dialedHost pp (cx_ServiceID c) ep (cx_RPCType c)) now of (is_broken, b') \<Rightarrow>
        case unbroken pp c now b' eps of (rest, b'') \<Rightarrow> (if is_broken then rest else ep # rest, b''))"

definition circuit_pre :: "pipeline \<Rightarrow> gateway \<Rightarrow> Context \<Rightarrow> gateway \<times> Context" where
  "circuit_pre pp w c =
     (let c = fillEndpoints (pp_sr pp) w c in
      if cx_Endpoints c = [] then (w, c)
      else case unbroken pp c (gw_now w) (gw_breaker w) (cx_Endpoints c) of (healthy, b) \<Rightarrow>
        (w\<lparr>gw_breaker := b\<rparr>, if healthy \<noteq> [] then c\<lparr>cx_Endpoints := healthy\<rparr> else c))"

definition circuit_post :: "pipeline \<Rightarrow> gateway \<Rightarrow> Context \<Rightarrow> go_error option \<Rightarrow> gateway" where
  "circuit_post pp w c err =
     (if cx_Endpoint c = [] then w
      else
        let host = dialedHost pp (cx_ServiceID c) (cx_Endpoint c) (cx_RPCType c);
            reason = (case cx_HeuristicResult c of Some v \<Rightarrow> if vReason v = [] then ''heuristic_circuit_break'' else vReason v | None \<Rightarrow> [])
        in if (case cx_HeuristicResult c of Some v \<Rightarrow> ShouldCircuitBreak v | None \<Rightarrow> False)
           then w\<lparr>gw_breaker := snd (MarkBroken (pp_redis_ok pp) (gw_breaker w) (cx_ServiceID c) host reason (gw_now w))\<rparr>
           else if err = None then w\<lparr>gw_breaker := RecordSuccess (gw_breaker w) (cx_ServiceID c) host (gw_now w)\<rparr>
           else w)"

definition CircuitBreak :: "pipeline \<Rightarrow> gateway middleware" where
  "CircuitBreak pp next w c =
     (if \<not> sr_flag (pp_sr pp) w FlagCircuitBreaker (cx_ServiceID c) then next w c
      else case circuit_pre pp w c of (w1, c1) \<Rightarrow> case next w1 c1 of (w2, c2, err) \<Rightarrow> (circuit_post pp w2 c2 err, c2, err))"

section \<open>Model: method blocks\<close>

definition countVouched :: "pipeline \<Rightarrow> gateway \<Rightarrow> Context \<Rightarrow> endpoint_addr list \<Rightarrow> nat" where
  "countVouched pp w c eps =
     (case sr_vouched (pp_sr pp) of None \<Rightarrow> 0 | Some v \<Rightarrow> length (filter (\<lambda>ep. v w (cx_ServiceID c) ep (cx_RPCType c)) eps))"

definition keepsVouchedCapacity :: "pipeline \<Rightarrow> gateway \<Rightarrow> Context \<Rightarrow> endpoint_addr list \<Rightarrow> endpoint_addr list \<Rightarrow> bool" where
  "keepsVouchedCapacity pp w c narrowed full =
     (case sr_vouched (pp_sr pp) of None \<Rightarrow> True
      | Some _ \<Rightarrow> let have = countVouched pp w c full in countVouched pp w c narrowed \<ge> min have (max 2 ((have + 1) div 2)))"

definition is_open :: "pipeline \<Rightarrow> gateway \<Rightarrow> Context \<Rightarrow> string \<Rightarrow> endpoint_addr \<Rightarrow> bool" where
  "is_open pp w c method ep \<longleftrightarrow>
     \<not> Blocked (gw_blocks w) (cx_ServiceID c) (dialedHost pp (cx_ServiceID c) ep (cx_RPCType c)) method (gw_now w)"

definition bypass :: "pipeline \<Rightarrow> gateway \<Rightarrow> Context \<Rightarrow> endpoint_addr list \<Rightarrow> endpoint_addr list \<Rightarrow> bool" where
  "bypass pp w c filtered full \<longleftrightarrow>
     filtered = [] \<or> length filtered < length full \<and> (\<not> anyVouched (pp_sr pp) w c filtered \<or> \<not> keepsVouchedCapacity pp w c filtered full)"

definition blocks_pre :: "pipeline \<Rightarrow> gateway \<Rightarrow> string \<Rightarrow> Context \<Rightarrow> Context" where
  "blocks_pre pp w method c =
     (let c = fillEndpoints (pp_sr pp) w c in
      if cx_Endpoints c = [] then c
      else let filtered = filterEndpoints (cx_Endpoints c) (is_open pp w c method) in
        if bypass pp w c filtered (cx_Endpoints c) then c\<lparr>cx_Degraded := True\<rparr> else c\<lparr>cx_Endpoints := filtered\<rparr>)"

definition mark_block :: "pipeline \<Rightarrow> gateway \<Rightarrow> Context \<Rightarrow> string \<Rightarrow> bool \<Rightarrow> gateway" where
  "mark_block pp w c method escalates =
     w\<lparr>gw_blocks := snd (Mark (gw_blocks w) (cx_ServiceID c) (dialedHost pp (cx_ServiceID c) (cx_Endpoint c) (cx_RPCType c)) method escalates (gw_now w))\<rparr>"

definition blocks_post :: "pipeline \<Rightarrow> endpoint_addr list \<Rightarrow> string \<Rightarrow> gateway \<Rightarrow> Context \<Rightarrow> go_error option \<Rightarrow> gateway \<times> Context \<times> go_error option" where
  "blocks_post pp pool method w c err =
     (case cx_HeuristicResult c of
        None \<Rightarrow> (w, c, err)
      | Some v \<Rightarrow>
          if cx_Endpoint c = [] \<or> \<not> MethodBlocking v then (w, c, err)
          else
            let w = mark_block pp w c method (Attribution v = AttrSupplier \<and> vReason v \<noteq> ''http_408'') in
            if vReason v \<noteq> ReasonMethodNotFound then (w, c, err)
            else
              let w = fold (\<lambda>m w. if m \<noteq> method then mark_block pp w c m False else w) (pp_family pp c method) w in
              if ShouldRetry v \<and> filterEndpoints pool (is_open pp w c method) = []
              then (w, c\<lparr>cx_HeuristicResult := Some (v\<lparr>ShouldRetry := False\<rparr>), cx_Err := None\<rparr>, None)
              else (w, c, err))"

definition MethodBlocks :: "pipeline \<Rightarrow> gateway middleware" where
  "MethodBlocks pp next w c =
     (let method = pp_method pp c in
      if \<not> sr_flag (pp_sr pp) w FlagMethodBlocks (cx_ServiceID c) \<or> method = [] \<or> method = MethodOther then next w c
      else
        let pool = cx_Endpoints (fillEndpoints (pp_sr pp) w c); c1 = blocks_pre pp w method c in
        case next w c1 of (w2, c2, err) \<Rightarrow> blocks_post pp pool method w2 c2 err)"

section \<open>Model: the choice\<close>

definition no_endpoint :: go_error where
  "no_endpoint = RelayError ErrProtocol ''no endpoint available for service'' None False"

definition allRuledOut :: "pipeline \<Rightarrow> gateway \<Rightarrow> Context \<Rightarrow> endpoint_addr list \<Rightarrow> bool" where
  "allRuledOut pp w c eps =
     (case pp_ruledOut pp of None \<Rightarrow> False | Some r \<Rightarrow> list_all (\<lambda>ep. r w (cx_ServiceID c) ep (cx_RPCType c)) eps)"

definition probationBudgetShare :: int where "probationBudgetShare = 4"

text \<open>The endpoints to choose from, with the context's mark when that is less than was wanted.\<close>

definition candidates_for :: "pipeline \<Rightarrow> gateway \<Rightarrow> Context \<Rightarrow> endpoint_addr list \<times> Context" where
  "candidates_for pp w c =
     (let sr = pp_sr pp;
          (cands, c) = (case pp_filter pp of
            None \<Rightarrow> (cx_Endpoints c, c)
          | Some f \<Rightarrow>
              (case f w (cx_Endpoints c) (cx_Payloads c) of
                 Some filtered \<Rightarrow>
                   if filtered = [] then (cx_Endpoints c, c\<lparr>cx_Degraded := True\<rparr>)
                   else if length filtered < length (cx_Endpoints c) \<and> \<not> anyVouched sr w c filtered \<and> anyVouched sr w c (cx_Endpoints c)
                     then (cx_Endpoints c, c\<lparr>cx_Degraded := True\<rparr>)
                   else (filtered, c)
               | None \<Rightarrow> (cx_Endpoints c, c\<lparr>cx_Degraded := True\<rparr>)))
      in if cands = [] then (cx_Endpoints c, c\<lparr>cx_Degraded := True\<rparr>) else (cands, c))"

definition probation_terms :: "pipeline \<Rightarrow> gateway \<Rightarrow> Context \<Rightarrow> Context" where
  "probation_terms pp w c =
     (case sr_probation (pp_sr pp) of
        None \<Rightarrow> c
      | Some p \<Rightarrow>
          if p w (cx_ServiceID c) (cx_Endpoint c) (cx_RPCType c) then
            let c = (if cx_AttemptKind c = [] then c\<lparr>cx_AttemptKind := AttemptProbation\<rparr> else c) in
            (case cx_deadline c of
               None \<Rightarrow> c
             | Some dl \<Rightarrow>
                 let remaining = time_sub dl (gw_now w) in
                 if remaining > 0 then c\<lparr>cx_deadline := Some (min dl (gw_now w + go_div remaining probationBudgetShare))\<rparr> else c)
          else c)"

text \<open>\<open>Inl\<close> the error when nothing is sent, \<open>Inr\<close> the context of the attempt. The error of a failed fetch is the
  provider's own, for which \<open>OtherError\<close> stands.\<close>

definition select_pre :: "pipeline \<Rightarrow> gateway \<Rightarrow> Context \<Rightarrow> (Context \<times> go_error) + Context" where
  "select_pre pp w c =
     (let fetch = (cx_Endpoints c = [] \<and> sr_available (pp_sr pp) \<noteq> None);
          fetched = (case sr_available (pp_sr pp) of Some av \<Rightarrow> av w (cx_ServiceID c) (cx_RPCType c) | None \<Rightarrow> None)
      in if fetch \<and> fetched = None then Inl (c, OtherError ''endpoints unavailable'')
         else
           let c = (if fetch then c\<lparr>cx_Endpoints := the fetched\<rparr> else c); (cands, c) = candidates_for pp w c in
           if cands = [] then Inl (c, no_endpoint)
           else if cx_AttemptKind c = AttemptHedge \<and> allRuledOut pp w c cands then Inl (c, errHedgeRuledOut)
           else Inr (probation_terms pp w (c\<lparr>cx_Endpoint := pp_select pp w (pp_class pp c) (cx_ServiceID c) cands (cx_RPCType c)\<rparr>)))"

definition SelectEndpoint :: "pipeline \<Rightarrow> gateway middleware" where
  "SelectEndpoint pp next w c =
     (case select_pre pp w c of
        Inl (c', e) \<Rightarrow> (w, c', Some e)
      | Inr c' \<Rightarrow> (case next w c' of (w2, c2, err) \<Rightarrow> (w2, if cx_deadline c' = cx_deadline c then c2 else c2\<lparr>cx_deadline := cx_deadline c\<rparr>, err)))"

section \<open>Model: affinity\<close>

definition prioritize :: "endpoint_addr list \<Rightarrow> endpoint_addr \<Rightarrow> endpoint_addr list" where
  "prioritize eps preferred =
     (case position preferred eps of
        None \<Rightarrow> eps
      | Some i \<Rightarrow> if i = 0 then eps else preferred # take i eps @ drop (Suc i) eps)"

definition FlagSupplierAffinity :: string where "FlagSupplierAffinity = ''supplier_affinity''"

record affinityEntry =
  af_endpoint :: endpoint_addr
  af_expiry :: time

definition affinity_pre :: "(string, affinityEntry) gomap \<Rightarrow> string \<Rightarrow> time \<Rightarrow> endpoint_addr list \<Rightarrow> (string, affinityEntry) gomap \<times> endpoint_addr list" where
  "affinity_pre store clientKey now eps =
     (if clientKey = [] then (store, eps)
      else case map_of store clientKey of
        None \<Rightarrow> (store, eps)
      | Some entry \<Rightarrow> if now < af_expiry entry then (store, prioritize eps (af_endpoint entry)) else (AList.delete clientKey store, eps))"

definition isWriteMethod :: "Context \<Rightarrow> bool" where
  "isWriteMethod c = (case cx_Payloads c of [] \<Rightarrow> False | p # _ \<Rightarrow> IsWriteMethod (pl_method p))"

definition affinity_post :: "(string, affinityEntry) gomap \<Rightarrow> string \<Rightarrow> time \<Rightarrow> duration \<Rightarrow> Context \<Rightarrow> go_error option \<Rightarrow> (string, affinityEntry) gomap" where
  "affinity_post store clientKey now ttl c err =
     (if err = None \<and> clientKey \<noteq> [] \<and> cx_Endpoint c \<noteq> [] \<and> isWriteMethod c
      then AList.update clientKey \<lparr>af_endpoint = cx_Endpoint c, af_expiry = now + ttl\<rparr> store else store)"

text \<open>The client's key is the address the request came from, an argument.\<close>

definition SupplierAffinity :: "pipeline \<Rightarrow> (Context \<Rightarrow> string) \<Rightarrow> duration \<Rightarrow> ((string, affinityEntry) gomap \<times> gateway) middleware" where
  "SupplierAffinity pp remoteIP ttl next s c =
     (case s of (store, w) \<Rightarrow>
       if \<not> sr_flag (pp_sr pp) w FlagSupplierAffinity (cx_ServiceID c) then next s c
       else
         let clientKey = remoteIP c in
         case affinity_pre store clientKey (gw_now w) (cx_Endpoints c) of (store1, eps) \<Rightarrow>
           (case next (store1, w) (c\<lparr>cx_Endpoints := eps\<rparr>) of ((store2, w2), c2, err) \<Rightarrow>
             ((affinity_post store2 clientKey (gw_now w2) ttl c2 err, w2), c2, err)))"


section \<open>Lemmas: before the rest of the chain\<close>

text \<open>What the code relies on: the plugin's filter keeps endpoints it was given, and the reputation service answers a
  non-empty list of addresses with one of them.\<close>

definition plugin_narrows :: "pipeline \<Rightarrow> bool" where
  "plugin_narrows pp \<longleftrightarrow> (\<forall>f w eps ps kept. pp_filter pp = Some f \<longrightarrow> f w eps ps = Some kept \<longrightarrow> set kept \<subseteq> set eps)"

definition picks_member :: "pipeline \<Rightarrow> bool" where
  "picks_member pp \<longleftrightarrow> (\<forall>w cl svc eps rpc. eps \<noteq> [] \<longrightarrow> [] \<notin> set eps \<longrightarrow> pp_select pp w cl svc eps rpc \<in> set eps)"

definition host_broken :: "pipeline \<Rightarrow> gateway \<Rightarrow> Context \<Rightarrow> endpoint_addr \<Rightarrow> bool" where
  "host_broken pp w c ep = broken_now (gw_breaker w) (cx_ServiceID c) (dialedHost pp (cx_ServiceID c) ep (cx_RPCType c)) (gw_now w)"

lemma broken_now_cong: "broken b' = broken b \<Longrightarrow> broken_now b' s d t = broken_now b s d t"
  by (simp add: broken_now_def)

lemma IsBroken_frame: "broken (snd (IsBroken b s d now)) = broken b"
  by (simp add: IsBroken_def split: prod.split) (metis maybeRefresh_broken(1) snd_conv)

lemma unbroken_spec:
  "fst (unbroken pp c now b eps) = filter (\<lambda>ep. \<not> broken_now b (cx_ServiceID c) (dialedHost pp (cx_ServiceID c) ep (cx_RPCType c)) now) eps \<and>
   broken (snd (unbroken pp c now b eps)) = broken b"
proof (induction eps arbitrary: b)
  case (Cons ep eps)
  let ?h = "dialedHost pp (cx_ServiceID c) ep (cx_RPCType c)"
  obtain ib b' where ib: "IsBroken b (cx_ServiceID c) ?h now = (ib, b')" by (cases "IsBroken b (cx_ServiceID c) ?h now")
  have b: "ib = broken_now b (cx_ServiceID c) ?h now" "broken b' = broken b"
    using IsBroken_now [of b "cx_ServiceID c" ?h now] IsBroken_frame [of b "cx_ServiceID c" ?h now] ib by simp_all
  show ?case using Cons [of b'] b ib by (auto simp: broken_now_cong [OF b(2)] split: prod.split)
qed simp

lemma fillEndpoints_more [simp]:
  "cx_RPCType (fillEndpoints sr w c) = cx_RPCType c" "cx_Payloads (fillEndpoints sr w c) = cx_Payloads c"
  "cx_Degraded (fillEndpoints sr w c) = cx_Degraded c" "cx_AttemptKind (fillEndpoints sr w c) = cx_AttemptKind c"
  by (auto simp: fillEndpoints_def split: option.split)

lemma fillEndpoints_full [simp]: "cx_Endpoints c \<noteq> [] \<Longrightarrow> fillEndpoints sr w c = c"
  by (auto simp: fillEndpoints_def split: option.split)

lemma circuit_pre_spec:
  assumes "circuit_pre pp w c = (w1, c1)" and ne: "cx_Endpoints (fillEndpoints (pp_sr pp) w c) \<noteq> []"
  shows "gw_now w1 = gw_now w" "gw_blocks w1 = gw_blocks w" "broken (gw_breaker w1) = broken (gw_breaker w)"
    "c1 = (fillEndpoints (pp_sr pp) w c)\<lparr>cx_Endpoints := cx_Endpoints c1\<rparr>" "cx_Endpoints c1 \<noteq> []"
    "set (cx_Endpoints c1) \<subseteq> set (cx_Endpoints (fillEndpoints (pp_sr pp) w c))"
    "ep \<in> set (cx_Endpoints c1) \<Longrightarrow> host_broken pp w c ep \<Longrightarrow> e \<in> set (cx_Endpoints (fillEndpoints (pp_sr pp) w c)) \<Longrightarrow> host_broken pp w c e"
proof -
  let ?c = "fillEndpoints (pp_sr pp) w c"
  obtain healthy b where u: "unbroken pp ?c (gw_now w) (gw_breaker w) (cx_Endpoints ?c) = (healthy, b)" by fastforce
  have h: "healthy = filter (\<lambda>ep. \<not> host_broken pp w c ep) (cx_Endpoints ?c)" "broken b = broken (gw_breaker w)"
    using unbroken_spec [of pp ?c "gw_now w" "gw_breaker w" "cx_Endpoints ?c"] u by (simp_all add: host_broken_def)
  have r: "w1 = w\<lparr>gw_breaker := b\<rparr>" "c1 = (if healthy \<noteq> [] then ?c\<lparr>cx_Endpoints := healthy\<rparr> else ?c)"
    using assms u by (simp_all add: circuit_pre_def Let_def)
  show "gw_now w1 = gw_now w" "gw_blocks w1 = gw_blocks w" "broken (gw_breaker w1) = broken (gw_breaker w)" using r h by simp_all
  show "c1 = ?c\<lparr>cx_Endpoints := cx_Endpoints c1\<rparr>" "cx_Endpoints c1 \<noteq> []" "set (cx_Endpoints c1) \<subseteq> set (cx_Endpoints ?c)"
    using r ne h by auto
  show "host_broken pp w c e" if "ep \<in> set (cx_Endpoints c1)" "host_broken pp w c ep" "e \<in> set (cx_Endpoints ?c)"
    using that r h by (auto simp: filter_empty_conv split: if_splits)
qed

lemma blocks_pre_spec:
  assumes "cx_Endpoints c \<noteq> []"
  shows "cx_Endpoints (blocks_pre pp w m c) \<noteq> []" "set (cx_Endpoints (blocks_pre pp w m c)) \<subseteq> set (cx_Endpoints c)"
    "ep \<in> set (cx_Endpoints (blocks_pre pp w m c)) \<Longrightarrow> \<not> is_open pp w c m ep \<Longrightarrow>
       cx_Degraded (blocks_pre pp w m c) \<and> bypass pp w c (filter (is_open pp w c m) (cx_Endpoints c)) (cx_Endpoints c)"
    "blocks_pre pp w m c = c\<lparr>cx_Endpoints := cx_Endpoints (blocks_pre pp w m c), cx_Degraded := cx_Degraded (blocks_pre pp w m c)\<rparr>"
    "cx_Degraded c \<Longrightarrow> cx_Degraded (blocks_pre pp w m c)"
  using assms by (auto simp: blocks_pre_def Let_def filterEndpoints_def bypass_def split: if_splits)

lemma candidates_for_spec:
  assumes "plugin_narrows pp" and "cx_Endpoints c \<noteq> []" and "candidates_for pp w c = (cands, c')"
  shows "cands \<noteq> []" "set cands \<subseteq> set (cx_Endpoints c)" "c' = c\<lparr>cx_Degraded := cx_Degraded c'\<rparr>" "cx_Degraded c \<Longrightarrow> cx_Degraded c'"
    "pp_filter pp = Some f \<Longrightarrow> cx_Degraded c' \<or> f w (cx_Endpoints c) (cx_Payloads c) = Some cands"
  using assms by (auto simp: candidates_for_def plugin_narrows_def Let_def split: option.splits if_splits)

lemma probation_terms_frame [simp]:
  "cx_Endpoint (probation_terms pp w c) = cx_Endpoint c" "cx_Degraded (probation_terms pp w c) = cx_Degraded c"
  "cx_Endpoints (probation_terms pp w c) = cx_Endpoints c"
  by (auto simp: probation_terms_def Let_def split: option.split)


section \<open>Lemmas: the three together\<close>

text \<open>What becomes of the answer of the rest of the chain.\<close>

definition selected_post :: "pipeline \<Rightarrow> endpoint_addr list \<Rightarrow> string \<Rightarrow> Context \<Rightarrow> Context \<Rightarrow> gateway \<times> Context \<times> go_error option \<Rightarrow>
    gateway \<times> Context \<times> go_error option" where
  "selected_post pp pool method c2 c3 r =
     (case r of (w, c, err) \<Rightarrow>
       case blocks_post pp pool method w (if cx_deadline c3 = cx_deadline c2 then c else c\<lparr>cx_deadline := cx_deadline c2\<rparr>) err of (w', c', err') \<Rightarrow>
         (circuit_post pp w' c' err', c', err'))"

lemma pipeline_unfold:
  assumes "sr_flag (pp_sr pp) w FlagCircuitBreaker (cx_ServiceID c)" and "circuit_pre pp w c = (w1, c1)"
    and "sr_flag (pp_sr pp) w1 FlagMethodBlocks (cx_ServiceID c1)" and "pp_method pp c1 \<noteq> []" "pp_method pp c1 \<noteq> MethodOther"
    and "select_pre pp w1 (blocks_pre pp w1 (pp_method pp c1) c1) = Inr c3"
  shows "Chain send [CircuitBreak pp, MethodBlocks pp, SelectEndpoint pp] w c =
    selected_post pp (cx_Endpoints (fillEndpoints (pp_sr pp) w1 c1)) (pp_method pp c1) (blocks_pre pp w1 (pp_method pp c1) c1) c3 (send w1 c3)"
  using assms by (auto simp: CircuitBreak_def MethodBlocks_def SelectEndpoint_def selected_post_def Let_def split: prod.splits)

lemma pipeline_choice:
  assumes nar: "plugin_narrows pp" and pick: "picks_member pp"
    and E: "E = cx_Endpoints (fillEndpoints (pp_sr pp) w c)" "E \<noteq> []" "[] \<notin> set E"
    and c1: "circuit_pre pp w c = (w1, c1)" and c2: "c2 = blocks_pre pp w1 m c1"
    and hedge: "cx_AttemptKind c \<noteq> AttemptHedge"
  obtains c3 where "select_pre pp w1 c2 = Inr c3" "cx_Endpoint c3 \<in> set E"
    "\<And>e. host_broken pp w c (cx_Endpoint c3) \<Longrightarrow> e \<in> set E \<Longrightarrow> host_broken pp w c e"
    "\<not> is_open pp w1 c1 m (cx_Endpoint c3) \<Longrightarrow>
       cx_Degraded c3 \<and> bypass pp w1 c1 (filter (is_open pp w1 c1 m) (cx_Endpoints c1)) (cx_Endpoints c1)"
    "\<And>f. pp_filter pp = Some f \<Longrightarrow>
       cx_Degraded c3 \<or> (\<exists>kept. f w1 (cx_Endpoints c2) (cx_Payloads c2) = Some kept \<and> cx_Endpoint c3 \<in> set kept)"
proof -
  note p1 = circuit_pre_spec [OF c1 E(2) [unfolded E(1)]]
  note p2 = blocks_pre_spec [OF p1(5), where pp = pp and w = w1 and m = m, folded c2]
  obtain cands c' where cf: "candidates_for pp w1 c2 = (cands, c')" by fastforce
  note p3 = candidates_for_spec [OF nar p2(1) cf]
  have sub: "set cands \<subseteq> set E" using p3(2) p2(2) p1(6) E(1) by blast
  define ep where "ep = pp_select pp w1 (pp_class pp c') (cx_ServiceID c') cands (cx_RPCType c')"
  have ep: "ep \<in> set cands" using pick p3(1) sub E(3) unfolding picks_member_def ep_def by blast
  have kind: "cx_AttemptKind c' \<noteq> AttemptHedge"
    using hedge arg_cong [OF p1(4), of cx_AttemptKind] arg_cong [OF p2(4), of cx_AttemptKind] arg_cong [OF p3(3), of cx_AttemptKind] by simp
  define c3 where "c3 = probation_terms pp w1 (c'\<lparr>cx_Endpoint := ep\<rparr>)"
  have sel: "select_pre pp w1 c2 = Inr c3"
    using p2(1) p3(1) cf kind by (simp add: select_pre_def Let_def c3_def ep_def)
  have ep3: "cx_Endpoint c3 = ep" "cx_Degraded c3 = cx_Degraded c'" by (simp_all add: c3_def)
  have in2: "ep \<in> set (cx_Endpoints c2)" using ep p3(2) by blast
  then have in1: "ep \<in> set (cx_Endpoints c1)" using p2(2) by blast
  show ?thesis
  proof (rule that [OF sel])
    show "cx_Endpoint c3 \<in> set E" using ep sub ep3 by auto
    show "host_broken pp w c e" if "host_broken pp w c (cx_Endpoint c3)" "e \<in> set E" for e
      using p1(7) [OF in1] that ep3 E(1) by simp
    show "cx_Degraded c3 \<and> bypass pp w1 c1 (filter (is_open pp w1 c1 m) (cx_Endpoints c1)) (cx_Endpoints c1)"
      if "\<not> is_open pp w1 c1 m (cx_Endpoint c3)"
      using p2(3) [OF in2] that ep3 p3(4) by simp
    show "cx_Degraded c3 \<or> (\<exists>kept. f w1 (cx_Endpoints c2) (cx_Payloads c2) = Some kept \<and> cx_Endpoint c3 \<in> set kept)"
      if "pp_filter pp = Some f" for f
      using p3(5) [OF that] ep ep3 by auto
  qed
qed

lemma prioritize_perm: "mset (prioritize eps ep) = mset eps"
proof (cases "position ep eps")
  case (Some i)
  then have i: "i < length eps" "eps ! i = ep" using position_SomeD by auto
  then have "eps = take i eps @ ep # drop (Suc i) eps" using id_take_nth_drop by metis
  then have "mset eps = add_mset ep (mset (take i eps) + mset (drop (Suc i) eps))" by (metis mset.simps(2) mset_append union_mset_add_mset_right)
  then show ?thesis using Some by (simp add: prioritize_def)
qed (simp add: prioritize_def)

lemma prioritize_front: "ep \<in> set eps \<Longrightarrow> hd (prioritize eps ep) = ep"
  using position_None [of ep eps] position_SomeD [of ep eps]
  by (cases "position ep eps") (auto simp: prioritize_def hd_conv_nth)

text \<open>A client's successful write puts its endpoint first in the client's next requests, for one lifetime.\<close>

lemma affinity_remembers:
  assumes "clientKey \<noteq> []" and "cx_Endpoint c \<noteq> []" and "isWriteMethod c" and "now' < now + ttl" and "cx_Endpoint c \<in> set eps"
    and "affinity_pre (affinity_post store clientKey now ttl c None) clientKey now' eps = (store', eps')"
  shows "hd eps' = cx_Endpoint c" "mset eps' = mset eps"
  using assms prioritize_front [OF assms(5)] by (auto simp: affinity_pre_def affinity_post_def gomap_simps prioritize_perm)

end
