(* ===== verification/Relay_Hedge.thy ===== *)
theory Relay_Hedge
  imports Relay_Retry
begin

text \<open>
  The hedge race (\<^verbatim>\<open>relay/middleware/hedge.go\<close>): a second attempt sent when the first has not answered within the hedge
  delay, and with \<^verbatim>\<open>rehedge\<close> a third. The arms run on their own; what the race sees of them is a sequence of events,
  in any order: an arm reports, the delay elapses, the request's context ends. The state of the race is what the code
  keeps in its variables and in the place it waits at. An event carries what the code reads at that moment: the state of
  the gateway and the endpoint an arm has published.
\<close>

section \<open>Model\<close>

definition FlagHedge :: string where "FlagHedge = ''hedge''"
definition FlagRehedge :: string where "FlagRehedge = ''rehedge''"

record HedgeConfig =
  HedgeDelay :: duration
  HedgeMaxBatchSize :: int

definition DefaultHedgeMaxBatchSize :: int where "DefaultHedgeMaxBatchSize = 10"

definition HedgesBatchOf :: "HedgeConfig \<Rightarrow> int \<Rightarrow> bool" where
  "HedgesBatchOf cfg n =
     (let limit = (if HedgeMaxBatchSize cfg = 0 then DefaultHedgeMaxBatchSize else HedgeMaxBatchSize cfg) in limit < 0 \<or> n \<le> limit)"

definition hedge_applies :: "'w surroundings \<Rightarrow> 'w \<Rightarrow> HedgeConfig \<Rightarrow> Context \<Rightarrow> bool" where
  "hedge_applies sr w cfg c \<longleftrightarrow>
     \<not> cx_QuorumArm c \<and> sr_flag sr w FlagHedge (cx_ServiceID c) \<and> HedgeDelay cfg \<noteq> 0 \<and> HedgesBatchOf cfg (int (cx_BatchSize c))"

record hedge_result =
  hr_ctx :: Context
  hr_err :: "go_error option"

definition DeadlineExceeded :: go_error where "DeadlineExceeded = OtherError ''context deadline exceeded''"
definition Canceled :: go_error where "Canceled = OtherError ''context canceled''"

definition mergeContext :: "Context \<Rightarrow> Context \<Rightarrow> Context" where
  "mergeContext dst src =
     dst\<lparr>cx_Endpoint := cx_Endpoint src, cx_Endpoints := cx_Endpoints src, cx_Response := cx_Response src, cx_Err := cx_Err src,
         cx_Degraded := cx_Degraded src, cx_Cached := cx_Cached src, cx_Coalesced := cx_Coalesced src,
         cx_HeuristicResult := cx_HeuristicResult src\<rparr>"

definition armContext :: "time option \<Rightarrow> time \<Rightarrow> time option" where
  "armContext deadline now = map_option (\<lambda>dl. dl + max (time_sub dl now) 0) deadline"

definition ctxDoneError :: "bool \<Rightarrow> go_error" where
  "ctxDoneError deadline =
     (if deadline then RelayError ErrTransport ''hedge: attempt deadline exceeded'' (Some DeadlineExceeded) True else Canceled)"

fun join_with :: "string \<Rightarrow> string list \<Rightarrow> string" where
  "join_with sep [] = []"
| "join_with sep [x] = x"
| "join_with sep (x # y # ys) = x @ sep @ join_with sep (y # ys)"

definition in_flight :: "endpoint_addr option list \<Rightarrow> endpoint_addr list" where
  "in_flight picks = filter (\<lambda>ep. ep \<noteq> []) (List.map_filter (\<lambda>p. p) picks)"

definition deadlineInFlight :: "Context \<Rightarrow> bool \<Rightarrow> endpoint_addr option list \<Rightarrow> Context \<times> go_error" where
  "deadlineInFlight c deadline picks =
     (let eps = in_flight picks in
      (if cx_Endpoint c = [] \<and> eps \<noteq> [] then c\<lparr>cx_Endpoint := hd eps\<rparr> else c,
       if eps = [] \<or> \<not> deadline then ctxDoneError deadline
       else RelayError ErrTransport (''hedge: attempt deadline exceeded with '' @ join_with '', '' (map Domain_addr eps) @ '' in flight'')
              (Some DeadlineExceeded) True))"

definition fresh_arm :: "'w surroundings \<Rightarrow> 'w \<Rightarrow> Context \<Rightarrow> endpoint_addr list \<Rightarrow> Context" where
  "fresh_arm sr w c eps =
     c\<lparr>cx_AttemptKind := AttemptHedge, cx_Endpoints := eps, cx_Endpoint := [], cx_Response := None, cx_Err := None,
       cx_deadline := armContext (cx_deadline c) (sr_clock sr w)\<rparr>"

text \<open>The second arm, or none when it could only reach hosts far behind the head.\<close>

definition hedge_arm :: "'w surroundings \<Rightarrow> 'w \<Rightarrow> Context \<Rightarrow> endpoint_addr option \<Rightarrow> Context option" where
  "hedge_arm sr w c pick =
     (case pick of
        Some ep \<Rightarrow>
          if ep = [] then Some (fresh_arm sr w c (cx_Endpoints c))
          else
            let full = cx_Endpoints c;
                excluded = Exclude full [(ep, True)];
                narrowed = ExcludeAffiliates (sr_psl sr) (sr_owners sr w) (AffiliatesOf (sr_psl sr) (sr_owners sr w) [ep]) excluded;
                eps = (if sr_flag sr w FlagOperatorAwareSelection (cx_ServiceID c) \<and> \<not> narrowsIntoStale sr w narrowed full
                       then narrowed else excluded)
            in if narrowsIntoStale sr w eps full then None else Some (fresh_arm sr w c eps)
      | None \<Rightarrow> Some (fresh_arm sr w c (cx_Endpoints c)))"

definition rehedgeArm :: "'w surroundings \<Rightarrow> 'w \<Rightarrow> Context \<Rightarrow> endpoint_addr list \<Rightarrow> Context option" where
  "rehedgeArm sr w c tried =
     (let affiliates = AffiliatesOf (sr_psl sr) (sr_owners sr w) tried;
          left = filterEndpoints (cx_Endpoints c) (\<lambda>ep. \<not> Affiliates_Contains (sr_psl sr) (sr_owners sr w) affiliates ep)
      in if left = [] \<or> narrowsIntoStale sr w left (cx_Endpoints c) then None else Some (fresh_arm sr w c left))"

datatype 'w hedge_event =
    PrimaryReports hedge_result
  | HedgeReports 'w hedge_result "endpoint_addr option"
  | DelayElapses 'w "endpoint_addr option"
  | ContextEnds bool "endpoint_addr option" "endpoint_addr option"

text \<open>Waiting for the delay; waiting for the primary alone, with the label recorded for that; racing, with the reports so far and whether the third arm was
  considered; decided, with the context, the error and the label of the outcome.\<close>

datatype hedge_state =
    Waiting
  | OnlyPrimary "endpoint_addr option" string
  | Racing "hedge_result option" "hedge_result option" bool
  | Decided Context "go_error option" string

definition hedge_won :: "bool \<Rightarrow> string" where
  "hedge_won rehedged = (if rehedged then ''rehedge_won'' else ''hedge_won'')"

definition gave_up :: "Context \<Rightarrow> bool \<Rightarrow> endpoint_addr option list \<Rightarrow> string \<Rightarrow> hedge_state" where
  "gave_up c deadline picks label = (case deadlineInFlight c deadline picks of (c', e) \<Rightarrow> Decided c' (Some e) label)"

definition settle :: "Context \<Rightarrow> hedge_result \<Rightarrow> string \<Rightarrow> hedge_state" where
  "settle c r label = Decided (mergeContext c (hr_ctx r)) (hr_err r) label"

text \<open>The state and the arms launched beside the primary.\<close>

fun hedge_step :: "'w surroundings \<Rightarrow> Context \<Rightarrow> hedge_state \<times> Context list \<Rightarrow> 'w hedge_event \<Rightarrow> hedge_state \<times> Context list" where
  "hedge_step sr c (Waiting, arms) ev =
     (case ev of
        PrimaryReports r \<Rightarrow> (settle c r (if hr_err r = None then ''primary_before_delay'' else ''''), arms)
      | ContextEnds deadline p _ \<Rightarrow> (gave_up c deadline [p] '''', arms)
      | DelayElapses w p \<Rightarrow> (case hedge_arm sr w c p of None \<Rightarrow> (OnlyPrimary p ''suppressed_stale'', arms) | Some arm \<Rightarrow> (Racing None None False, arms @ [arm]))
      | HedgeReports _ _ _ \<Rightarrow> (Waiting, arms))"
| "hedge_step sr c (OnlyPrimary pick label, arms) ev =
     (case ev of
        PrimaryReports r \<Rightarrow> (settle c r label, arms)
      | ContextEnds deadline p _ \<Rightarrow> (gave_up c deadline [case pick of Some x \<Rightarrow> Some x | None \<Rightarrow> p] label, arms)
      | _ \<Rightarrow> (OnlyPrimary pick label, arms))"
| "hedge_step sr c (Racing pr hg rehedged, arms) ev =
     (case ev of
        ContextEnds deadline p h \<Rightarrow> (gave_up c deadline [p, h] '''', arms)
      | PrimaryReports r \<Rightarrow>
          if hr_err r = None then (settle c r ''primary_won'', arms)
          else (case hg of
                  Some h \<Rightarrow> if hr_err h = None then (settle c h (hedge_won rehedged), arms) else (settle c r ''both_failed'', arms)
                | None \<Rightarrow> (Racing (Some r) hg rehedged, arms))
      | HedgeReports w r p \<Rightarrow>
          if (case hr_err r of Some e \<Rightarrow> error_is e errHedgeRuledOut | None \<Rightarrow> False) \<and> \<not> rehedged
          then (case pr of Some x \<Rightarrow> settle c x ''suppressed_ruled_out'' | None \<Rightarrow> OnlyPrimary None ''suppressed_ruled_out'', arms)
          else if hr_err r = None then (settle c r (hedge_won rehedged), arms)
          else
            (case pr of
               Some x \<Rightarrow> if hr_err x = None then (settle c x ''primary_won'', arms) else (settle c x ''both_failed'', arms)
             | None \<Rightarrow>
                 if \<not> rehedged \<and> sr_flag sr w FlagRehedge (cx_ServiceID c) then
                   (case rehedgeArm sr w c (cx_Endpoint (hr_ctx r) # (case p of Some x \<Rightarrow> [x] | None \<Rightarrow> [])) of
                      Some arm \<Rightarrow> (Racing None None True, arms @ [arm])
                    | None \<Rightarrow> (Racing None (Some r) True, arms))
                 else (Racing None (Some r) rehedged, arms))
      | DelayElapses _ _ \<Rightarrow> (Racing pr hg rehedged, arms))"
| "hedge_step sr c (Decided f err label, arms) ev = (Decided f err label, arms)"

text \<open>A run of the race: the primary reports once, and a hedge arm that was launched reports once.\<close>

definition hedge_reports :: "'w hedge_event list \<Rightarrow> nat" where
  "hedge_reports evs = length (filter (\<lambda>ev. case ev of HedgeReports _ _ _ \<Rightarrow> True | _ \<Rightarrow> False) evs)"

definition primary_reported :: "'w hedge_event list \<Rightarrow> bool" where
  "primary_reported evs \<longleftrightarrow> (\<exists>r. PrimaryReports r \<in> set evs)"

inductive hedge_run :: "'w surroundings \<Rightarrow> Context \<Rightarrow> 'w hedge_event list \<Rightarrow> hedge_state \<times> Context list \<Rightarrow> bool" for sr c where
  hr_start: "hedge_run sr c [] (Waiting, [])"
| hr_primary: "hedge_run sr c evs s \<Longrightarrow> \<not> primary_reported evs \<Longrightarrow> hedge_run sr c (evs @ [PrimaryReports r]) (hedge_step sr c s (PrimaryReports r))"
| hr_hedge: "hedge_run sr c evs s \<Longrightarrow> hedge_reports evs < length (snd s) \<Longrightarrow>
    hedge_run sr c (evs @ [HedgeReports w r p]) (hedge_step sr c s (HedgeReports w r p))"
| hr_delay: "hedge_run sr c evs s \<Longrightarrow> hedge_run sr c (evs @ [DelayElapses w p]) (hedge_step sr c s (DelayElapses w p))"
| hr_ends: "hedge_run sr c evs s \<Longrightarrow> hedge_run sr c (evs @ [ContextEnds d p h]) (hedge_step sr c s (ContextEnds d p h))"


section \<open>Lemmas\<close>

lemma hedge_reports_snoc [simp]:
  "hedge_reports [] = 0"
  "hedge_reports (evs @ [PrimaryReports r]) = hedge_reports evs" "hedge_reports (evs @ [HedgeReports w r p]) = Suc (hedge_reports evs)"
  "hedge_reports (evs @ [DelayElapses w p]) = hedge_reports evs" "hedge_reports (evs @ [ContextEnds d p h]) = hedge_reports evs"
  by (simp_all add: hedge_reports_def)

lemma primary_reported_snoc [simp]:
  "\<not> primary_reported []" "primary_reported (evs @ [PrimaryReports r])"
  "primary_reported (evs @ [HedgeReports w x p]) = primary_reported evs" "primary_reported (evs @ [DelayElapses w p]) = primary_reported evs"
  "primary_reported (evs @ [ContextEnds d p h]) = primary_reported evs"
  by (auto simp: primary_reported_def)

definition reported :: "'w hedge_event list \<Rightarrow> hedge_result \<Rightarrow> bool" where
  "reported evs r \<longleftrightarrow> PrimaryReports r \<in> set evs \<or> (\<exists>w p. HedgeReports w r p \<in> set evs)"

text \<open>How an outcome came about.\<close>

definition outcome_ok :: "Context \<Rightarrow> 'w hedge_event list \<Rightarrow> Context \<Rightarrow> go_error option \<Rightarrow> bool" where
  "outcome_ok c evs f err =
     (case err of
        None \<Rightarrow> \<exists>r. reported evs r \<and> hr_err r = None \<and> f = mergeContext c (hr_ctx r)
      | Some e \<Rightarrow> (\<exists>r. PrimaryReports r \<in> set evs \<and> hr_err r = Some e \<and> f = mergeContext c (hr_ctx r)) \<or> (\<exists>d p h. ContextEnds d p h \<in> set evs))"

definition arms_ok :: "'w surroundings \<Rightarrow> Context \<Rightarrow> 'w hedge_event list \<Rightarrow> Context list \<Rightarrow> bool" where
  "arms_ok sr c evs arms \<longleftrightarrow>
     length arms \<le> 2 \<and>
     (0 < length arms \<longrightarrow> (\<exists>w p. DelayElapses w p \<in> set evs \<and> hedge_arm sr w c p = Some (arms ! 0))) \<and>
     (1 < length arms \<longrightarrow> (\<exists>w r p. HedgeReports w r p \<in> set evs \<and> sr_flag sr w FlagRehedge (cx_ServiceID c) \<and>
        rehedgeArm sr w c (cx_Endpoint (hr_ctx r) # (case p of Some x \<Rightarrow> [x] | None \<Rightarrow> [])) = Some (arms ! 1)))"

fun race_ok :: "Context \<Rightarrow> 'w hedge_event list \<Rightarrow> hedge_state \<times> Context list \<Rightarrow> bool" where
  "race_ok c evs (Waiting, arms) \<longleftrightarrow> arms = [] \<and> \<not> primary_reported evs"
| "race_ok c evs (OnlyPrimary p l, arms) \<longleftrightarrow> \<not> primary_reported evs"
| "race_ok c evs (Racing pr hg re, arms) \<longleftrightarrow>
     arms \<noteq> [] \<and> (re \<or> length arms = 1) \<and> (pr = None \<or> hg = None) \<and>
     (case pr of None \<Rightarrow> \<not> primary_reported evs | Some r \<Rightarrow> PrimaryReports r \<in> set evs \<and> hr_err r \<noteq> None) \<and>
     (case hg of None \<Rightarrow> hedge_reports evs < length arms | Some h \<Rightarrow> hr_err h \<noteq> None)"
| "race_ok c evs (Decided f err l, arms) \<longleftrightarrow> outcome_ok c evs f err"

lemma reported_snoc: "reported evs r \<Longrightarrow> reported (evs @ [ev]) r"
  by (auto simp: reported_def)

lemma outcome_ok_snoc: "outcome_ok c evs f err \<Longrightarrow> outcome_ok c (evs @ [ev]) f err"
  by (fastforce simp: outcome_ok_def split: option.splits intro: reported_snoc)

lemma settle_ok:
  "race_ok c evs (settle c r l, arms) \<longleftrightarrow> outcome_ok c evs (mergeContext c (hr_ctx r)) (hr_err r)"
  by (simp add: settle_def)

lemma gave_up_ok: "race_ok c (evs @ [ContextEnds d p h]) (gave_up c d picks l, arms)"
  by (auto simp: gave_up_def outcome_ok_def split: prod.split)

lemma arms_ok_snoc: "arms_ok sr c evs arms \<Longrightarrow> arms_ok sr c (evs @ [ev]) arms"
  by (fastforce simp: arms_ok_def)

lemma race_primary:
  assumes "race_ok c evs s" and "arms_ok sr c evs (snd s)"
  shows "race_ok c (evs @ [PrimaryReports r]) (hedge_step sr c s (PrimaryReports r)) \<and>
    arms_ok sr c (evs @ [PrimaryReports r]) (snd (hedge_step sr c s (PrimaryReports r)))"
proof -
  have r: "outcome_ok c (evs @ [PrimaryReports r]) (mergeContext c (hr_ctx r)) (hr_err r)"
    by (auto simp: outcome_ok_def reported_def split: option.split)
  have a: "arms_ok sr c (evs @ [PrimaryReports r]) (snd s)" using arms_ok_snoc [OF assms(2)] .
  obtain st arms where s: "s = (st, arms)" by (cases s)
  show ?thesis
    using assms(1) r a unfolding s
    by (cases st) (auto simp: settle_ok outcome_ok_snoc split: option.splits)
qed

lemma race_hedge:
  assumes "race_ok c evs s" and "arms_ok sr c evs (snd s)" and "hedge_reports evs < length (snd s)"
  shows "race_ok c (evs @ [HedgeReports w r p]) (hedge_step sr c s (HedgeReports w r p)) \<and>
    arms_ok sr c (evs @ [HedgeReports w r p]) (snd (hedge_step sr c s (HedgeReports w r p)))"
proof -
  let ?evs = "evs @ [HedgeReports w r p]"
  have r: "outcome_ok c ?evs (mergeContext c (hr_ctx r)) None" if "hr_err r = None"
    using that by (auto simp: outcome_ok_def reported_def)
  have x: "outcome_ok c ?evs (mergeContext c (hr_ctx x)) (hr_err x)" if "PrimaryReports x \<in> set evs" for x
    using that by (auto simp: outcome_ok_def reported_def split: option.split)
  have a: "arms_ok sr c ?evs (snd s)" using arms_ok_snoc [OF assms(2)] .
  have re: "arms_ok sr c ?evs ([a0] @ [arm])"
    if "snd s = [a0]" "sr_flag sr w FlagRehedge (cx_ServiceID c)"
      "rehedgeArm sr w c (cx_Endpoint (hr_ctx r) # (case p of Some x \<Rightarrow> [x] | None \<Rightarrow> [])) = Some arm" for a0 arm
    using that a by (fastforce simp: arms_ok_def)
  obtain st arms where s: "s = (st, arms)" by (cases s)
  show ?thesis
  proof (cases st)
    case (Racing pr hg rehedged)
    show ?thesis
      using assms(1,3) r x a re unfolding s Racing
      by (auto simp: settle_ok length_Suc_conv split: option.splits)
  qed (use assms(1,3) a in \<open>auto simp: s outcome_ok_snoc\<close>)
qed

lemma race_delay:
  assumes "race_ok c evs s" and "arms_ok sr c evs (snd s)" and "hedge_reports evs \<le> length (snd s)"
  shows "race_ok c (evs @ [DelayElapses w p]) (hedge_step sr c s (DelayElapses w p)) \<and>
    arms_ok sr c (evs @ [DelayElapses w p]) (snd (hedge_step sr c s (DelayElapses w p)))"
proof -
  have a: "arms_ok sr c (evs @ [DelayElapses w p]) (snd s)" using arms_ok_snoc [OF assms(2)] .
  obtain st arms where s: "s = (st, arms)" by (cases s)
  show ?thesis
    using assms(1,3) a unfolding s
    by (cases st) (auto simp: outcome_ok_snoc arms_ok_def split: option.splits)
qed

lemma race_ends:
  assumes "race_ok c evs s" and "arms_ok sr c evs (snd s)"
  shows "race_ok c (evs @ [ContextEnds d p h]) (hedge_step sr c s (ContextEnds d p h)) \<and>
    arms_ok sr c (evs @ [ContextEnds d p h]) (snd (hedge_step sr c s (ContextEnds d p h)))"
proof -
  have a: "arms_ok sr c (evs @ [ContextEnds d p h]) (snd s)" using arms_ok_snoc [OF assms(2)] .
  obtain st arms where s: "s = (st, arms)" by (cases s)
  show ?thesis using assms(1) a unfolding s by (cases st) (auto simp: outcome_ok_snoc gave_up_ok)
qed

lemma hedge_step_arms: "length (snd s) \<le> length (snd (hedge_step sr c s ev))"
  by (cases "(sr, c, s, ev)" rule: hedge_step.cases) (auto split: hedge_event.splits option.splits)

lemma hedge_run_ok:
  "hedge_run sr c evs s \<Longrightarrow> race_ok c evs s \<and> arms_ok sr c evs (snd s) \<and> hedge_reports evs \<le> length (snd s)"
proof (induction rule: hedge_run.induct)
  case hr_start
  show ?case by (simp add: arms_ok_def)
next
  case (hr_primary evs s r)
  then show ?case using race_primary hedge_step_arms [of s sr c] by (metis (no_types) hedge_reports_snoc(2) le_trans)
next
  case (hr_hedge evs s w r p)
  then show ?case using race_hedge hedge_step_arms [of s sr c] by (metis (no_types) Suc_leI hedge_reports_snoc(3) le_trans)
next
  case (hr_delay evs s w p)
  then show ?case using race_delay hedge_step_arms [of s sr c] by (metis (no_types) hedge_reports_snoc(4) le_trans)
next
  case (hr_ends evs s d p h)
  then show ?case using race_ends hedge_step_arms [of s sr c] by (metis (no_types) hedge_reports_snoc(5) le_trans)
qed

lemma hedge_arm_result:
  assumes "hedge_arm sr w c p = Some arm"
  shows "set (cx_Endpoints arm) \<subseteq> set (cx_Endpoints c)" "p = Some ep \<Longrightarrow> ep \<noteq> [] \<Longrightarrow> ep \<notin> set (cx_Endpoints arm)"
    "cx_AttemptKind arm = AttemptHedge \<and> cx_Response arm = None"
  using assms ExcludeAffiliates_sub(1)
  by (fastforce simp: hedge_arm_def fresh_arm_def Let_def set_Exclude split: option.splits if_splits)+

lemma rehedgeArm_result:
  assumes "rehedgeArm sr w c tried = Some arm"
  shows "cx_Endpoints arm \<noteq> []" "set (cx_Endpoints arm) \<subseteq> set (cx_Endpoints c)"
    "ep \<in> set (cx_Endpoints arm) \<Longrightarrow> \<not> Affiliates_Contains (sr_psl sr) (sr_owners sr w) (AffiliatesOf (sr_psl sr) (sr_owners sr w) tried) ep"
    "cx_AttemptKind arm = AttemptHedge \<and> cx_Response arm = None"
  using assms by (auto simp: rehedgeArm_def fresh_arm_def Let_def filterEndpoints_def split: if_splits)

section \<open>Properties\<close>

text \<open>C30. A race is never left hanging: in whatever order its events come, once the primary and every arm launched have reported it is
  decided. A success it returns is the answer of an arm that reported success, merged into the request; an error it
  returns is the primary's, with the primary's context merged, unless the request's context ended.\<close>

theorem hedge_decides:
  assumes "hedge_run sr c evs (st, arms)" and "primary_reported evs" and "length arms \<le> hedge_reports evs"
  shows "\<exists>f err label. st = Decided f err label \<and>
    (case err of
       None \<Rightarrow> \<exists>r. reported evs r \<and> hr_err r = None \<and> f = mergeContext c (hr_ctx r)
     | Some e \<Rightarrow> (\<exists>r. PrimaryReports r \<in> set evs \<and> hr_err r = Some e \<and> f = mergeContext c (hr_ctx r)) \<or> (\<exists>d p h. ContextEnds d p h \<in> set evs))"
proof -
  have ok: "race_ok c evs (st, arms)" using hedge_run_ok [OF assms(1)] by simp
  have "\<exists>f err label. st = Decided f err label \<and> outcome_ok c evs f err"
    using ok assms(2,3) by (cases st) (auto split: option.splits)
  then show ?thesis by (simp add: outcome_ok_def)
qed

text \<open>C31. A race launches at most two arms beside the primary, the second only with \<^verbatim>\<open>rehedge\<close> on. Every arm is offered only endpoints
  of the request and no earlier response. The first is not offered the endpoint the primary had chosen when the delay
  elapsed; the second is offered at least one endpoint, and none affiliated by operator or owner with the arm that
  failed or with the primary's choice.\<close>

theorem hedge_arms_independent:
  assumes "hedge_run sr c evs (st, arms)"
  shows "length arms \<le> 2 \<and>
    (\<forall>arm \<in> set arms. set (cx_Endpoints arm) \<subseteq> set (cx_Endpoints c) \<and> cx_AttemptKind arm = AttemptHedge \<and> cx_Response arm = None) \<and>
    (0 < length arms \<longrightarrow> (\<exists>w p. DelayElapses w p \<in> set evs \<and> (\<forall>ep. p = Some ep \<longrightarrow> ep \<noteq> [] \<longrightarrow> ep \<notin> set (cx_Endpoints (arms ! 0))))) \<and>
    (1 < length arms \<longrightarrow> (\<exists>w r p. HedgeReports w r p \<in> set evs \<and> sr_flag sr w FlagRehedge (cx_ServiceID c) \<and> cx_Endpoints (arms ! 1) \<noteq> [] \<and>
       (let used = cx_Endpoint (hr_ctx r) # (case p of Some x \<Rightarrow> [x] | None \<Rightarrow> []) in
        \<forall>ep \<in> set (cx_Endpoints (arms ! 1)).
          \<not> Affiliates_Contains (sr_psl sr) (sr_owners sr w) (AffiliatesOf (sr_psl sr) (sr_owners sr w) used) ep)))"
proof -
  have ok: "arms_ok sr c evs arms" using hedge_run_ok [OF assms] by simp
  then have len: "length arms \<le> 2" by (simp add: arms_ok_def)
  have first: "\<exists>w p. DelayElapses w p \<in> set evs \<and> hedge_arm sr w c p = Some (arms ! 0)" if "0 < length arms"
    using ok that by (simp add: arms_ok_def)
  have second: "\<exists>w r p. HedgeReports w r p \<in> set evs \<and> sr_flag sr w FlagRehedge (cx_ServiceID c) \<and>
        rehedgeArm sr w c (cx_Endpoint (hr_ctx r) # (case p of Some x \<Rightarrow> [x] | None \<Rightarrow> [])) = Some (arms ! 1)" if "1 < length arms"
    using ok that by (simp add: arms_ok_def)
  have "set (cx_Endpoints arm) \<subseteq> set (cx_Endpoints c) \<and> cx_AttemptKind arm = AttemptHedge \<and> cx_Response arm = None" if "arm \<in> set arms" for arm
  proof -
    obtain i where i: "i < length arms" "arm = arms ! i" using \<open>arm \<in> set arms\<close> by (auto simp: in_set_conv_nth)
    then consider "i = 0" | "i = 1" using len by linarith
    then show ?thesis
    proof cases
      case 1
      then obtain w p where a: "hedge_arm sr w c p = Some arm" using first i by auto
      show ?thesis using hedge_arm_result(1,3) [OF a] by simp
    next
      case 2
      then obtain w tried where a: "rehedgeArm sr w c tried = Some arm" using second i by auto
      show ?thesis using rehedgeArm_result(2,4) [OF a] by simp
    qed
  qed
  moreover have "\<exists>w p. DelayElapses w p \<in> set evs \<and> (\<forall>ep. p = Some ep \<longrightarrow> ep \<noteq> [] \<longrightarrow> ep \<notin> set (cx_Endpoints (arms ! 0)))" if "0 < length arms"
  proof -
    note r = that
    obtain w p where e: "DelayElapses w p \<in> set evs" "hedge_arm sr w c p = Some (arms ! 0)" using first [OF r] by auto
    show ?thesis using e(1) hedge_arm_result(2) [OF e(2)] by (intro exI [of _ w] exI [of _ p]) simp
  qed
  moreover have "\<exists>w r p. HedgeReports w r p \<in> set evs \<and> sr_flag sr w FlagRehedge (cx_ServiceID c) \<and> cx_Endpoints (arms ! 1) \<noteq> [] \<and>
       (let used = cx_Endpoint (hr_ctx r) # (case p of Some x \<Rightarrow> [x] | None \<Rightarrow> []) in
        \<forall>ep \<in> set (cx_Endpoints (arms ! 1)).
          \<not> Affiliates_Contains (sr_psl sr) (sr_owners sr w) (AffiliatesOf (sr_psl sr) (sr_owners sr w) used) ep)" if "1 < length arms"
  proof -
    note q = that
    obtain w r p where e: "HedgeReports w r p \<in> set evs" "sr_flag sr w FlagRehedge (cx_ServiceID c)"
        "rehedgeArm sr w c (cx_Endpoint (hr_ctx r) # (case p of Some x \<Rightarrow> [x] | None \<Rightarrow> [])) = Some (arms ! 1)" using second [OF q] by auto
    show ?thesis using e(1,2) rehedgeArm_result(1,3) [OF e(3)] by (intro exI [of _ w] exI [of _ r] exI [of _ p]) (simp add: Let_def)
  qed
  ultimately show ?thesis using len by (intro conjI ballI impI) simp_all
qed

subsection \<open>Witnesses\<close>

text \<open>The delay elapses, the hedge is refused at once, a third arm goes to a third operator and answers; the hung primary
  reports too late.\<close>

definition race_ctx :: Context where
  "race_ctx = (NewContext None)\<lparr>cx_ServiceID := ''eth'', cx_Endpoints := [''s1-https://a.io'', ''s2-https://b.io'', ''s3-https://c.io'']\<rparr>"

definition refused :: hedge_result where
  "refused = \<lparr>hr_ctx = race_ctx\<lparr>cx_Endpoint := ''s2-https://b.io''\<rparr>, hr_err = Some (RelayError ErrRateLimit ''429'' None True)\<rparr>"

definition answer :: hedge_result where
  "answer = \<lparr>hr_ctx = race_ctx\<lparr>cx_Endpoint := ''s3-https://c.io'', cx_Response := Some \<lparr>Body = ''0x1'', HTTPStatusCode = 200, rs_EndpointAddr = ''s3-https://c.io''\<rparr>\<rparr>,
     hr_err = None\<rparr>"

definition late :: hedge_result where
  "late = \<lparr>hr_ctx = race_ctx\<lparr>cx_Endpoint := ''s1-https://a.io''\<rparr>, hr_err = Some (RelayError ErrTransport ''timeout'' None True)\<rparr>"

definition race_events :: "nat hedge_event list" where
  "race_events = [DelayElapses 0 (Some ''s1-https://a.io''), HedgeReports 0 refused (Some ''s1-https://a.io''),
     HedgeReports 0 answer (Some ''s1-https://a.io''), PrimaryReports late]"

definition race_end :: "hedge_state \<times> Context list" where
  "race_end = fold (\<lambda>ev s. hedge_step demo_sr race_ctx s ev) race_events (Waiting, [])"

lemma race_runs: "hedge_run demo_sr race_ctx race_events (fst race_end, snd race_end)"
proof -
  let ?d = "DelayElapses 0 (Some ''s1-https://a.io'') :: nat hedge_event"
  let ?h1 = "HedgeReports 0 refused (Some ''s1-https://a.io'') :: nat hedge_event"
  let ?h2 = "HedgeReports 0 answer (Some ''s1-https://a.io'') :: nat hedge_event"
  define s1 where "s1 = hedge_step demo_sr race_ctx (Waiting, []) ?d"
  define s2 where "s2 = hedge_step demo_sr race_ctx s1 ?h1"
  define s3 where "s3 = hedge_step demo_sr race_ctx s2 ?h2"
  have len: "length (snd s1) = 1" "length (snd s2) = 2" unfolding s2_def s1_def by code_simp+
  have r1: "hedge_run demo_sr race_ctx ([] @ [?d]) s1" unfolding s1_def by (rule hr_delay [OF hr_start])
  have r2: "hedge_run demo_sr race_ctx (([] @ [?d]) @ [?h1]) s2"
    unfolding s2_def by (rule hr_hedge [OF r1]) (simp add: len hedge_reports_def)
  have r3: "hedge_run demo_sr race_ctx ((([] @ [?d]) @ [?h1]) @ [?h2]) s3"
    unfolding s3_def by (rule hr_hedge [OF r2]) (simp add: len hedge_reports_def)
  have "hedge_run demo_sr race_ctx (((([] @ [?d]) @ [?h1]) @ [?h2]) @ [PrimaryReports late]) (hedge_step demo_sr race_ctx s3 (PrimaryReports late))"
    by (rule hr_primary [OF r3]) (simp add: primary_reported_def)
  moreover have "hedge_step demo_sr race_ctx s3 (PrimaryReports late) = race_end"
    unfolding race_end_def race_events_def s3_def s2_def s1_def by (simp only: fold.simps comp_apply id_apply)
  ultimately show ?thesis by (simp only: race_events_def append.simps prod.collapse)
qed

lemma race_facts: "primary_reported race_events" "length (snd race_end) = 2" "hedge_reports race_events = 2"
proof -
  show "primary_reported race_events" by (auto simp: primary_reported_def race_events_def)
  show "length (snd race_end) = 2" "hedge_reports race_events = 2" by code_simp+
qed

theorem hedge_decides_witness:
  "\<exists>f err label. fst race_end = Decided f err label"
  using hedge_decides [OF race_runs race_facts(1)] race_facts(2,3) by auto

theorem hedge_arms_independent_witness:
  "length (snd race_end) = 2 \<and> cx_Endpoints (snd race_end ! 1) \<noteq> []"
  using hedge_arms_independent [OF race_runs] race_facts(2) by auto

end
