(* ===== verification/Relay_Quorum.thy ===== *)
theory Relay_Quorum
  imports Relay_Hedge "HOL-Library.Char_ord" "HOL-Library.List_Lexorder" "HOL-Library.Multiset" "HOL-Library.Product_Lexorder"
begin

text \<open>
  Quorum requests (\<^verbatim>\<open>relay/middleware/quorum.go\<close>): one request sent to several operators at once and answered by what a
  majority of them agrees on, or by everything they said. The arms run on their own; what the middleware sees of them is
  the list of their reports in the order they arrive, each with the table of owners at that moment, cut short when the
  request's context ends.

  What a vote compares (\<^verbatim>\<open>answerDigest\<close>, a hash) and the rendering of the envelope as JSON are arguments. The reputation
  service's scores are an argument beside the surroundings the other middleware use.
\<close>

section \<open>Model: the size of a quorum\<close>

definition QuorumModeConsensus :: string where "QuorumModeConsensus = ''consensus''"
definition QuorumModeCollect :: string where "QuorumModeCollect = ''collect''"
definition FlagQuorum :: string where "FlagQuorum = ''quorum''"

definition defaultQuorum :: int where "defaultQuorum = 3"
definition maxQuorum :: int where "maxQuorum = 9"

text \<open>White space and decimal numbers as the standard library reads them.\<close>

definition is_space :: "char \<Rightarrow> bool" where
  "is_space c \<longleftrightarrow> of_char c \<in> {9, 10, 11, 12, 13, 32 :: nat}"

definition trim_space :: "string \<Rightarrow> string" where
  "trim_space s = rev (dropWhile is_space (rev (dropWhile is_space s)))"

definition is_digit :: "char \<Rightarrow> bool" where
  "is_digit c \<longleftrightarrow> 48 \<le> (of_char c :: nat) \<and> (of_char c :: nat) \<le> 57"

definition digits_value :: "string \<Rightarrow> int" where
  "digits_value ds = foldl (\<lambda>n c. 10 * n + (int (of_char c) - 48)) 0 ds"

definition atoi :: "string \<Rightarrow> int option" where
  "atoi s =
     (let neg = (s \<noteq> [] \<and> hd s = CHR ''-'');
          ds = (if s \<noteq> [] \<and> (hd s = CHR ''-'' \<or> hd s = CHR ''+'') then tl s else s);
          n = (if neg then - digits_value ds else digits_value ds)
      in if ds = [] \<or> \<not> list_all is_digit ds \<or> n < - (2 ^ 63) \<or> n \<ge> 2 ^ 63 then None else Some n)"

definition quorumSize :: "string \<Rightarrow> int" where
  "quorumSize header =
     (let n = (case atoi (trim_space header) of Some n \<Rightarrow> n | None \<Rightarrow> defaultQuorum);
          n = min (max n defaultQuorum) maxQuorum
      in if n mod 2 = 0 then n - 1 else n)"

section \<open>Model: the operators asked\<close>

record operatorGroup =
  og_operator :: string
  og_endpoints :: "endpoint_addr list"
  og_vouched :: bool
  og_best :: real

type_synonym 'w scores = "'w \<Rightarrow> service_id \<Rightarrow> endpoint_addr \<Rightarrow> rpc_type \<Rightarrow> real option"

definition join_group :: "'w surroundings \<Rightarrow> 'w scores \<Rightarrow> 'w \<Rightarrow> Context \<Rightarrow> endpoint_addr \<Rightarrow> operatorGroup \<Rightarrow> operatorGroup" where
  "join_group sr score w c ep g =
     (let g = g\<lparr>og_endpoints := og_endpoints g @ [ep]\<rparr> in
      case (sr_vouched sr, score w (cx_ServiceID c) ep (cx_RPCType c)) of
        (Some v, Some x) \<Rightarrow>
          let vouched = v w (cx_ServiceID c) ep (cx_RPCType c) in
          if vouched \<and> \<not> og_vouched g then g\<lparr>og_vouched := True, og_best := x\<rparr>
          else if vouched = og_vouched g \<and> og_best g < x then g\<lparr>og_best := x\<rparr>
          else g
      | _ \<Rightarrow> g)"

definition place_endpoint :: "'w surroundings \<Rightarrow> 'w scores \<Rightarrow> 'w \<Rightarrow> Context \<Rightarrow> (string, operatorGroup) gomap \<Rightarrow> endpoint_addr \<Rightarrow> (string, operatorGroup) gomap" where
  "place_endpoint sr score w c m ep =
     (let op = operator_of (sr_psl sr) ep;
          g = (case map_of m op of Some g \<Rightarrow> g | None \<Rightarrow> \<lparr>og_operator = op, og_endpoints = [], og_vouched = False, og_best = - 1\<rparr>)
      in AList.update op (join_group sr score w c ep g) m)"

definition group_rank :: "operatorGroup \<Rightarrow> bool \<times> real \<times> string" where
  "group_rank g = (\<not> og_vouched g, - og_best g, og_operator g)"

definition groups_taken :: "nat \<Rightarrow> nat \<Rightarrow> nat" where
  "groups_taken n groups = (let k = min n groups in if k > 2 \<and> k mod 2 = 0 then k - 1 else k)"

definition topOperators :: "'w surroundings \<Rightarrow> 'w scores \<Rightarrow> 'w \<Rightarrow> Context \<Rightarrow> endpoint_addr list \<Rightarrow> nat \<Rightarrow> operatorGroup list" where
  "topOperators sr score w c pool n =
     (let groups = map snd (foldl (place_endpoint sr score w c) [] pool)
      in take (groups_taken n (length groups)) (sort_key group_rank groups))"

section \<open>Model: the vote\<close>

record armResult =
  ar_index :: nat
  ar_ctx :: Context
  ar_err :: "go_error option"

type_synonym arm_report = "owner_table \<times> armResult"

record 'd tally =
  tl_votes :: "('d, armResult list) gomap"
  tl_voted :: nat
  tl_voters :: affiliates
  tl_done :: "armResult option list"
  tl_answered :: nat

definition empty_tally :: "nat \<Rightarrow> 'd tally" where
  "empty_tally n = \<lparr>tl_votes = [], tl_voted = 0, tl_voters = Affiliates_empty, tl_done = replicate n None, tl_answered = 0\<rparr>"

definition arm_answer :: "armResult \<Rightarrow> Response option" where
  "arm_answer r = (if ar_err r = None then cx_Response (ar_ctx r) else None)"

text \<open>The reports counted so far, and the arm whose vote completed a majority, if one did.\<close>

fun wait_votes :: "psl \<Rightarrow> (Response \<Rightarrow> 'd) \<Rightarrow> bool \<Rightarrow> nat \<Rightarrow> 'd tally \<Rightarrow> arm_report list \<Rightarrow> 'd tally \<times> armResult option" where
  "wait_votes psl digest consensus need t [] = (t, None)"
| "wait_votes psl digest consensus need t ((tbl, r) # rs) =
     (let t = t\<lparr>tl_done := (tl_done t)[ar_index r := Some r]\<rparr> in
      case arm_answer r of
        None \<Rightarrow> wait_votes psl digest consensus need t rs
      | Some resp \<Rightarrow>
          let t = t\<lparr>tl_answered := tl_answered t + 1\<rparr> in
          if \<not> consensus \<or> Affiliates_Contains psl tbl (tl_voters t) (cx_Endpoint (ar_ctx r))
          then wait_votes psl digest consensus need t rs
          else
            let same = (case map_of (tl_votes t) (digest resp) of Some l \<Rightarrow> l | None \<Rightarrow> []) @ [r];
                t = t\<lparr>tl_voted := tl_voted t + 1, tl_voters := Affiliates_Add psl tbl (tl_voters t) (cx_Endpoint (ar_ctx r)),
                      tl_votes := AList.update (digest resp) same (tl_votes t)\<rparr>
            in if length same < need then wait_votes psl digest consensus need t rs else (t, Some r))"

section \<open>Model: the request\<close>

record quorumAnswer =
  qa_operator :: string
  qa_status :: int
  qa_body :: "string option"
  qa_error :: string

definition rawJSON :: "(string \<Rightarrow> bool) \<Rightarrow> (string \<Rightarrow> string) \<Rightarrow> string \<Rightarrow> string option" where
  "rawJSON json_valid json_string body = (if body = [] then None else Some (if json_valid body then body else json_string body))"

definition quorum_answer :: "(string \<Rightarrow> string option) \<Rightarrow> operatorGroup \<Rightarrow> armResult option \<Rightarrow> quorumAnswer" where
  "quorum_answer raw g r =
     (case r of
        None \<Rightarrow> \<lparr>qa_operator = og_operator g, qa_status = 0, qa_body = None, qa_error = ''no answer before the deadline''\<rparr>
      | Some a \<Rightarrow>
          \<lparr>qa_operator = og_operator g,
           qa_status = (case cx_Response (ar_ctx a) of Some resp \<Rightarrow> HTTPStatusCode resp | None \<Rightarrow> 0),
           qa_body = (case cx_Response (ar_ctx a) of Some resp \<Rightarrow> raw (Body resp) | None \<Rightarrow> None),
           qa_error = (if ar_err a = None then [] else ClientMessage (ar_err a))\<rparr>)"

definition quorum_arm :: "'w surroundings \<Rightarrow> 'w \<Rightarrow> Context \<Rightarrow> operatorGroup \<Rightarrow> Context" where
  "quorum_arm sr w c g =
     c\<lparr>cx_QuorumArm := True, cx_Endpoints := og_endpoints g, cx_Endpoint := [], cx_Response := None, cx_Err := None,
       cx_HeuristicResult := None, cx_deadline := armContext (cx_deadline c) (sr_clock sr w)\<rparr>"

text \<open>How a request begins: passed on, refused for its mode, passed on with the reason in a header, ended with an
  error, or the arms in the mode and with the label it has so far.\<close>

datatype quorum_start =
    PassThrough
  | RejectMode string
  | SkipQuorum string
  | FailQuorum go_error
  | StartArms string string "operatorGroup list"

definition quorum_begin :: "'w surroundings \<Rightarrow> 'w scores \<Rightarrow> (Payload \<Rightarrow> bool) option \<Rightarrow> (endpoint_addr list, go_error) sum \<Rightarrow>
    string \<Rightarrow> string \<Rightarrow> 'w \<Rightarrow> Context \<Rightarrow> quorum_start" where
  "quorum_begin sr score immutable pool countHeader modeHeader w c =
     (let mode = to_lower (trim_space modeHeader); mode = (if mode = [] then QuorumModeConsensus else mode) in
      if countHeader = [] \<and> modeHeader = [] then PassThrough
      else if mode \<noteq> QuorumModeConsensus \<and> mode \<noteq> QuorumModeCollect then RejectMode modeHeader
      else if \<not> sr_flag sr w FlagQuorum (cx_ServiceID c) then SkipQuorum ''disabled''
      else if length (cx_Payloads c) \<noteq> 1 then SkipQuorum ''batch''
      else if cx_RPCType c = RPCTypeGRPC then SkipQuorum ''rpc_type''
      else
        let demoted = (mode = QuorumModeConsensus \<and> (case immutable of None \<Rightarrow> True | Some f \<Rightarrow> \<not> f (hd (cx_Payloads c)))) in
        case pool of
          Inr e \<Rightarrow> FailQuorum e
        | Inl eps \<Rightarrow>
            let groups = topOperators sr score w c eps (nat (quorumSize countHeader)) in
            if groups = [] then FailQuorum (RelayError ErrProtocol ''no endpoint available for service'' None False)
            else StartArms (if demoted then QuorumModeCollect else mode) (if demoted then ''collect_not_immutable'' else []) groups)"

record quorum_end =
  qe_ctx :: Context
  qe_err :: "go_error option"
  qe_label :: string
  qe_headers :: "(string \<times> string) list"
  qe_dissent :: nat

definition quorum_end_of :: "(nat \<Rightarrow> quorumAnswer list \<Rightarrow> string) \<Rightarrow> (string \<Rightarrow> string option) \<Rightarrow> Context \<Rightarrow> string \<Rightarrow> string \<Rightarrow>
    operatorGroup list \<Rightarrow> bool option \<Rightarrow> 'd tally \<Rightarrow> armResult option \<Rightarrow> ('d \<Rightarrow> nat) \<Rightarrow> (Response \<Rightarrow> 'd) \<Rightarrow> quorum_end" where
  "quorum_end_of render raw c mode outcome groups ended t winner achieved digest =
     (let n = length groups in
      case winner of
        Some r \<Rightarrow>
          let k = (case cx_Response (ar_ctx r) of Some resp \<Rightarrow> achieved (digest resp) | None \<Rightarrow> 0) in
          \<lparr>qe_ctx = mergeContext c (ar_ctx r), qe_err = None, qe_label = ''majority'',
           qe_headers = [(''X-Quorum-Mode'', QuorumModeConsensus), (''X-Quorum-Count'', decimal n),
                         (''X-Quorum-Achieved'', decimal k), (''X-Quorum-Majority'', ''true'')],
           qe_dissent = tl_voted t - k\<rparr>
      | None \<Rightarrow>
          if tl_answered t = 0 \<and> ended \<noteq> None
          then \<lparr>qe_ctx = c, qe_err = Some (ctxDoneError (the ended)), qe_label = ''timeout'', qe_headers = [], qe_dissent = 0\<rparr>
          else
            \<lparr>qe_ctx = c\<lparr>cx_Response := Some \<lparr>Body = render n (map2 (quorum_answer raw) groups (tl_done t)), HTTPStatusCode = 200, rs_EndpointAddr = []\<rparr>,
                        cx_Err := None\<rparr>,
             qe_err = None,
             qe_label = (if outcome \<noteq> [] then outcome else if ended \<noteq> None then ''timeout''
                         else if mode = QuorumModeConsensus then ''no_majority'' else ''collect''),
             qe_headers = [(''X-Quorum-Mode'', QuorumModeCollect), (''X-Quorum-Count'', decimal n), (''X-Quorum-Achieved'', decimal (tl_answered t))] @
                          (if mode = QuorumModeConsensus then [(''X-Quorum-Majority'', ''false'')] else []),
             qe_dissent = 0\<rparr>)"

definition quorum_run :: "psl \<Rightarrow> (Response \<Rightarrow> 'd) \<Rightarrow> (nat \<Rightarrow> quorumAnswer list \<Rightarrow> string) \<Rightarrow> (string \<Rightarrow> string option) \<Rightarrow> Context \<Rightarrow> string \<Rightarrow> string \<Rightarrow>
    operatorGroup list \<Rightarrow> arm_report list \<Rightarrow> bool option \<Rightarrow> quorum_end" where
  "quorum_run psl digest render raw c mode outcome groups reports ended =
     (case wait_votes psl digest (mode = QuorumModeConsensus) (length groups div 2 + 1) (empty_tally (length groups)) reports of
        (t, winner) \<Rightarrow>
          quorum_end_of render raw c mode outcome groups ended t winner
            (\<lambda>d. case map_of (tl_votes t) d of Some l \<Rightarrow> length l | None \<Rightarrow> 0) digest)"

section \<open>Lemmas: size and groups\<close>

lemma quorumSize_range: "3 \<le> quorumSize h" "quorumSize h \<le> 9" "odd (quorumSize h)"
proof -
  define n where "n = min (max (case atoi (trim_space h) of Some n \<Rightarrow> n | None \<Rightarrow> defaultQuorum) defaultQuorum) maxQuorum"
  have q: "quorumSize h = (if n mod 2 = 0 then n - 1 else n)" by (simp add: quorumSize_def n_def Let_def)
  have n: "3 \<le> n" "n \<le> 9" by (auto simp: n_def defaultQuorum_def maxQuorum_def)
  show "3 \<le> quorumSize h" "quorumSize h \<le> 9" "odd (quorumSize h)" unfolding q using n by presburger+
qed

lemma groups_taken_le: "groups_taken n m \<le> n" "groups_taken n m \<le> m" "groups_taken n m \<le> 2 \<or> odd (groups_taken n m)"
  "0 < n \<Longrightarrow> 0 < m \<Longrightarrow> 0 < groups_taken n m"
proof -
  define k where "k = min n m"
  have g: "groups_taken n m = (if 2 < k \<and> k mod 2 = 0 then k - 1 else k)" by (simp add: groups_taken_def k_def Let_def)
  have k: "k \<le> n" "k \<le> m" "0 < n \<Longrightarrow> 0 < m \<Longrightarrow> 0 < k" by (simp_all add: k_def)
  show "groups_taken n m \<le> n" "groups_taken n m \<le> m" unfolding g using k(1,2) by auto
  show "groups_taken n m \<le> 2 \<or> odd (groups_taken n m)" unfolding g by presburger
  show "0 < n \<Longrightarrow> 0 < m \<Longrightarrow> 0 < groups_taken n m" unfolding g using k(3) by auto
qed

lemma join_group_frame [simp]:
  "og_operator (join_group sr score w c ep g) = og_operator g"
  "og_endpoints (join_group sr score w c ep g) = og_endpoints g @ [ep]"
  by (auto simp: join_group_def Let_def split: option.split)

lemma join_group_rank:
  assumes "sr_vouched sr = Some v" and "score w (cx_ServiceID c) ep (cx_RPCType c) = Some x"
  shows "og_vouched (join_group sr score w c ep g) = (og_vouched g \<or> v w (cx_ServiceID c) ep (cx_RPCType c))"
    "og_best (join_group sr score w c ep g) =
       (if v w (cx_ServiceID c) ep (cx_RPCType c) = og_vouched g then max x (og_best g) else if og_vouched g then og_best g else x)"
  using assms by (auto simp: join_group_def Let_def)

definition new_group :: "string \<Rightarrow> operatorGroup" where
  "new_group op = \<lparr>og_operator = op, og_endpoints = [], og_vouched = False, og_best = - 1\<rparr>"

definition group_of :: "'w surroundings \<Rightarrow> 'w scores \<Rightarrow> 'w \<Rightarrow> Context \<Rightarrow> string \<Rightarrow> endpoint_addr list \<Rightarrow> operatorGroup" where
  "group_of sr score w c op eps = foldl (\<lambda>g ep. join_group sr score w c ep g) (new_group op) eps"

lemma group_of_frame [simp]:
  "og_operator (group_of sr score w c op eps) = op" "og_endpoints (group_of sr score w c op eps) = eps"
  by (induction eps rule: rev_induct) (simp_all add: group_of_def new_group_def)

lemma gomap_ok_place: "gomap_ok m \<Longrightarrow> gomap_ok (foldl (place_endpoint sr score w c) m pool)"
  by (induction pool arbitrary: m) (simp_all add: place_endpoint_def Let_def)

lemma map_of_place:
  "map_of (foldl (place_endpoint sr score w c) [] pool) op =
     (if op \<in> operator_of (sr_psl sr) ` set pool
      then Some (group_of sr score w c op (filter (\<lambda>ep. operator_of (sr_psl sr) ep = op) pool)) else None)"
proof (induction pool rule: rev_induct)
  case (snoc ep pool)
  show ?case
  proof (cases "operator_of (sr_psl sr) ep = op \<and> op \<notin> operator_of (sr_psl sr) ` set pool")
    case True
    then have "filter (\<lambda>e. operator_of (sr_psl sr) e = op) pool = []" by (auto simp: filter_empty_conv image_iff)
    then show ?thesis using snoc True by (simp add: place_endpoint_def Let_def gomap_simps group_of_def new_group_def)
  next
    case False
    then show ?thesis using snoc by (auto simp: place_endpoint_def Let_def gomap_simps group_of_def)
  qed
qed simp

lemma groups_are:
  assumes "g \<in> set (map snd (foldl (place_endpoint sr score w c) [] pool))"
  shows "g = group_of sr score w c (og_operator g) (filter (\<lambda>ep. operator_of (sr_psl sr) ep = og_operator g) pool)"
    "og_operator g \<in> operator_of (sr_psl sr) ` set pool"
proof -
  let ?m = "foldl (place_endpoint sr score w c) [] pool"
  obtain op where "(op, g) \<in> set ?m" using assms by auto
  then have "map_of ?m op = Some g" using gomap_ok_place [of "[]" sr score w c pool] by (simp add: gomap_ok_def map_of_is_SomeI)
  then have "op \<in> operator_of (sr_psl sr) ` set pool" "g = group_of sr score w c op (filter (\<lambda>ep. operator_of (sr_psl sr) ep = op) pool)"
    by (simp_all add: map_of_place split: if_splits)
  then show "g = group_of sr score w c (og_operator g) (filter (\<lambda>ep. operator_of (sr_psl sr) ep = og_operator g) pool)"
    "og_operator g \<in> operator_of (sr_psl sr) ` set pool" by auto
qed

lemma groups_distinct: "distinct (map og_operator (map snd (foldl (place_endpoint sr score w c) [] pool)))"
proof -
  let ?m = "foldl (place_endpoint sr score w c) [] pool"
  have "og_operator (snd kv) = fst kv" if "kv \<in> set ?m" for kv
  proof -
    have "map_of ?m (fst kv) = Some (snd kv)" using that gomap_ok_place [of "[]" sr score w c pool] by (simp add: gomap_ok_def)
    then show ?thesis by (metis (no_types, lifting) group_of_frame(1) map_of_place option.distinct(1) option.inject)
  qed
  then have "map og_operator (map snd ?m) = map fst ?m" by simp
  moreover have "distinct (map fst ?m)" using gomap_ok_place [of "[]" sr score w c pool] by (simp add: gomap_ok_def)
  ultimately show ?thesis by (simp only:)
qed

text \<open>The rank of a group: vouched when one of its endpoints is, with the best score among the vouched ones.\<close>

definition scored :: "'w surroundings \<Rightarrow> 'w scores \<Rightarrow> 'w \<Rightarrow> Context \<Rightarrow> bool \<Rightarrow> endpoint_addr list \<Rightarrow> real set" where
  "scored sr score w c vouched eps =
     {x. \<exists>ep \<in> set eps. \<exists>v. sr_vouched sr = Some v \<and> score w (cx_ServiceID c) ep (cx_RPCType c) = Some x \<and> v w (cx_ServiceID c) ep (cx_RPCType c) = vouched}"

lemma scored_Nil [simp]: "scored sr score w c b [] = {}"
  by (simp add: scored_def)

lemma scored_snoc:
  "scored sr score w c b (eps @ [ep]) = scored sr score w c b eps \<union>
     (case (sr_vouched sr, score w (cx_ServiceID c) ep (cx_RPCType c)) of
        (Some v, Some x) \<Rightarrow> if v w (cx_ServiceID c) ep (cx_RPCType c) = b then {x} else {} | _ \<Rightarrow> {})"
  by (auto simp: scored_def split: option.splits)

lemma finite_scored [simp]: "finite (scored sr score w c b eps)"
  by (induction eps rule: rev_induct) (auto simp: scored_snoc split: option.splits)

lemma group_of_rank:
  "og_vouched (group_of sr score w c op eps) \<longleftrightarrow> scored sr score w c True eps \<noteq> {}"
  "og_best (group_of sr score w c op eps) =
     (if scored sr score w c True eps \<noteq> {} then Max (scored sr score w c True eps) else Max (insert (- 1) (scored sr score w c False eps)))"
proof -
  have "(og_vouched (group_of sr score w c op eps) \<longleftrightarrow> scored sr score w c True eps \<noteq> {}) \<and>
    og_best (group_of sr score w c op eps) =
     (if scored sr score w c True eps \<noteq> {} then Max (scored sr score w c True eps) else Max (insert (- 1) (scored sr score w c False eps)))"
  proof (induction eps rule: rev_induct)
    case (snoc ep eps)
    let ?g = "group_of sr score w c op eps"
    have s: "group_of sr score w c op (eps @ [ep]) = join_group sr score w c ep ?g" by (simp add: group_of_def)
    show ?case
    proof (cases "sr_vouched sr")
      case None
      then show ?thesis using snoc s by (simp add: join_group_def scored_snoc)
    next
      case v: (Some v)
      show ?thesis
      proof (cases "score w (cx_ServiceID c) ep (cx_RPCType c)")
        case None
        then show ?thesis using snoc s v by (simp add: join_group_def scored_snoc)
      next
        case (Some x)
        let ?T = "scored sr score w c True eps" and ?F = "scored sr score w c False eps"
        show ?thesis
        proof (cases "v w (cx_ServiceID c) ep (cx_RPCType c)")
          case True
          then have "scored sr score w c True (eps @ [ep]) = insert x ?T" using v Some by (simp add: scored_snoc)
          moreover have "Max (insert x ?T) = (if ?T = {} then x else max x (Max ?T))" by simp
          ultimately show ?thesis using snoc True by (simp add: s join_group_rank [where score = score and w = w and c = c and ep = ep, OF v Some])
        next
          case False
          then have "scored sr score w c True (eps @ [ep]) = ?T" "scored sr score w c False (eps @ [ep]) = insert x ?F"
            using v Some by (simp_all add: scored_snoc)
          moreover have "Max (insert (- 1) (insert x ?F)) = max x (Max (insert (- 1) ?F))"
            by (subst insert_commute) (simp add: Max_insert)
          ultimately show ?thesis using snoc False by (simp add: s join_group_rank [where score = score and w = w and c = c and ep = ep, OF v Some])
        qed
      qed
    qed
  qed (simp add: group_of_def new_group_def)
  then show "og_vouched (group_of sr score w c op eps) \<longleftrightarrow> scored sr score w c True eps \<noteq> {}"
    "og_best (group_of sr score w c op eps) =
     (if scored sr score w c True eps \<noteq> {} then Max (scored sr score w c True eps) else Max (insert (- 1) (scored sr score w c False eps)))" by blast+
qed

section \<open>Lemmas: voices and votes\<close>

text \<open>The reports that count: answers, one voice for an operator and one for an owner of several brands.\<close>

fun voices :: "psl \<Rightarrow> affiliates \<Rightarrow> arm_report list \<Rightarrow> arm_report list" where
  "voices psl a [] = []"
| "voices psl a ((tbl, r) # rs) =
     (if arm_answer r = None \<or> Affiliates_Contains psl tbl a (cx_Endpoint (ar_ctx r)) then voices psl a rs
      else (tbl, r) # voices psl (Affiliates_Add psl tbl a (cx_Endpoint (ar_ctx r))) rs)"

definition votes_for :: "(Response \<Rightarrow> 'd) \<Rightarrow> 'd \<Rightarrow> arm_report list \<Rightarrow> arm_report list" where
  "votes_for digest d vs = filter (\<lambda>v. map_option digest (arm_answer (snd v)) = Some d) vs"

definition voice_operator :: "psl \<Rightarrow> arm_report \<Rightarrow> string" where
  "voice_operator psl v = operator_of psl (cx_Endpoint (ar_ctx (snd v)))"

definition voice_owner :: "psl \<Rightarrow> arm_report \<Rightarrow> string option" where
  "voice_owner psl v = own_brand psl (fst v) (cx_Endpoint (ar_ctx (snd v)))"

text \<open>Two voices are independent when neither their operators nor the owners they are brands of agree.\<close>

definition unaffiliated :: "psl \<Rightarrow> arm_report \<Rightarrow> arm_report \<Rightarrow> bool" where
  "unaffiliated psl u v \<longleftrightarrow>
     (voice_operator psl v \<noteq> [] \<longrightarrow> voice_operator psl u \<noteq> voice_operator psl v) \<and>
     (voice_owner psl v = None \<or> voice_owner psl u \<noteq> voice_owner psl v)"

lemma votes_for_append [simp]: "votes_for digest d (us @ vs) = votes_for digest d us @ votes_for digest d vs"
  by (simp add: votes_for_def)

lemma votes_for_Nil [simp]: "votes_for digest d [] = []"
  by (simp add: votes_for_def)

lemma votes_for_one: "arm_answer r = Some resp \<Longrightarrow> votes_for digest d [(tbl, r)] = (if d = digest resp then [(tbl, r)] else [])"
  by (auto simp: votes_for_def)

lemma voices_subseq: "subseq (voices psl a rs) rs"
  by (induction psl a rs rule: voices.induct) auto

lemma voices_append: "\<exists>b. voices psl a (rs @ rs') = voices psl a rs @ voices psl b rs'"
  by (induction psl a rs rule: voices.induct) auto

lemma Affiliates_Contains_own:
  "Affiliates_Contains psl t a ep \<longleftrightarrow> operator_of psl ep \<in> operators a \<or> (\<exists>w \<in> owners a. own_brand psl t ep = Some w)"
  by (auto simp: Affiliates_Contains_def own_brand_def Let_def)

lemma Affiliates_Add_own:
  "operators (Affiliates_Add psl t a ep) = operators a \<union> ({operator_of psl ep} - {[]})"
  "owners (Affiliates_Add psl t a ep) = owners a \<union> {w. own_brand psl t ep = Some w}"
  by (auto simp: Affiliates_Add_def own_brand_def Let_def)

lemma voices_apart:
  "v \<in> set (voices psl a rs) \<Longrightarrow> voice_operator psl v \<notin> operators a \<and> (\<forall>w \<in> owners a. voice_owner psl v \<noteq> Some w)"
  by (induction psl a rs rule: voices.induct)
    (auto simp: Affiliates_Contains_own Affiliates_Add_own voice_operator_def voice_owner_def split: if_splits)

lemma voices_independent: "sorted_wrt (unaffiliated psl) (voices psl a rs)"
proof (induction psl a rs rule: voices.induct)
  case (2 psl a tbl r rs)
  show ?case
  proof (cases "arm_answer r = None \<or> Affiliates_Contains psl tbl a (cx_Endpoint (ar_ctx r))")
    case False
    let ?b = "Affiliates_Add psl tbl a (cx_Endpoint (ar_ctx r))"
    have "unaffiliated psl (tbl, r) v" if "v \<in> set (voices psl ?b rs)" for v
      using voices_apart [OF that] by (auto simp: unaffiliated_def Affiliates_Add_own voice_operator_def voice_owner_def)
    then show ?thesis using 2(2) [OF False] False by auto
  qed (use 2(1) in auto)
qed simp

text \<open>What a tally knows of the voices counted so far.\<close>

definition tally_of :: "psl \<Rightarrow> (Response \<Rightarrow> 'd) \<Rightarrow> arm_report list \<Rightarrow> 'd tally \<Rightarrow> bool" where
  "tally_of psl digest vs t \<longleftrightarrow>
     (\<forall>d. (case map_of (tl_votes t) d of Some l \<Rightarrow> l | None \<Rightarrow> []) = map snd (votes_for digest d vs))"

lemma wait_votes_consensus:
  assumes "wait_votes psl digest True need t rs = (t', win)" and "tally_of psl digest vs t"
    and "\<And>d. length (votes_for digest d vs) < need"
  shows "case win of
      None \<Rightarrow> \<forall>d. length (votes_for digest d (vs @ voices psl (tl_voters t) rs)) < need
    | Some r \<Rightarrow> \<exists>tbl resp. arm_answer r = Some resp \<and> (tbl, r) \<in> set (voices psl (tl_voters t) rs) \<and>
        need \<le> length (votes_for digest (digest resp) (vs @ voices psl (tl_voters t) rs))"
  using assms
proof (induction rs arbitrary: t vs)
  case (Cons v rs)
  obtain tbl r where v: "v = (tbl, r)" by (cases v)
  define t1 where "t1 = t\<lparr>tl_done := (tl_done t)[ar_index r := Some r]\<rparr>"
  have t1: "tally_of psl digest vs t1" "tl_voters t1 = tl_voters t" "tl_votes t1 = tl_votes t"
    using Cons.prems(2) by (simp_all add: t1_def tally_of_def)
  show ?case
  proof (cases "arm_answer r")
    case None
    then have "wait_votes psl digest True need t1 rs = (t', win)" using Cons.prems(1) v by (simp add: t1_def Let_def)
    note Cons.IH [OF this t1(1) Cons.prems(3)]
    moreover have "voices psl (tl_voters t) (v # rs) = voices psl (tl_voters t1) rs" using v None t1(2) by simp
    ultimately show ?thesis by (simp only:)
  next
    case (Some resp)
    define t2 where "t2 = t1\<lparr>tl_answered := tl_answered t1 + 1\<rparr>"
    have t2: "tally_of psl digest vs t2" "tl_voters t2 = tl_voters t" "tl_votes t2 = tl_votes t"
      using t1 by (simp_all add: t2_def tally_of_def)
    let ?ep = "cx_Endpoint (ar_ctx r)"
    show ?thesis
    proof (cases "Affiliates_Contains psl tbl (tl_voters t) ?ep")
      case True
      then have "wait_votes psl digest True need t2 rs = (t', win)"
        using Cons.prems(1) v Some t1(2) by (simp add: t1_def t2_def Let_def)
      note Cons.IH [OF this t2(1) Cons.prems(3)]
      moreover have "voices psl (tl_voters t) (v # rs) = voices psl (tl_voters t2) rs" using v True t2(2) by simp
      ultimately show ?thesis by (simp only:)
    next
      case False
      define same where "same = map snd (votes_for digest (digest resp) vs) @ [r]"
      define t3 where "t3 = t2\<lparr>tl_voted := tl_voted t2 + 1, tl_voters := Affiliates_Add psl tbl (tl_voters t2) ?ep,
        tl_votes := AList.update (digest resp) same (tl_votes t2)\<rparr>"
      have "(case map_of (tl_votes t2) (digest resp) of Some l \<Rightarrow> l | None \<Rightarrow> []) = map snd (votes_for digest (digest resp) vs)"
        using t2(1) by (simp add: tally_of_def)
      then have step: "(if length same < need then wait_votes psl digest True need t3 rs else (t3, Some r)) = (t', win)"
        using Cons.prems(1) v Some False t1(2) t2(2) by (auto simp: t1_def t2_def t3_def same_def Let_def split: if_splits)
      have ok: "tally_of psl digest (vs @ [(tbl, r)]) t3"
        using t2(1) by (auto simp: tally_of_def t3_def same_def gomap_simps votes_for_one [OF Some])
      have len: "length (votes_for digest (digest resp) (vs @ [(tbl, r)])) = length same"
        by (simp add: votes_for_one [OF Some] same_def)
      have vo: "voices psl (tl_voters t) (v # rs) = (tbl, r) # voices psl (tl_voters t3) rs"
        using v Some False t2(2) by (simp add: t3_def)
      show ?thesis
      proof (cases "length same < need")
        case True
        have few: "length (votes_for digest d (vs @ [(tbl, r)])) < need" for d
          using Cons.prems(3) [of d] True len by (cases "d = digest resp") (simp_all add: votes_for_one [OF Some])
        have w: "wait_votes psl digest True need t3 rs = (t', win)" using step True by simp
        from Cons.IH [OF w ok few] show ?thesis unfolding vo by (auto split: option.splits)
      next
        case f: False
        then have "win = Some r" using step by simp
        moreover have "need \<le> length (votes_for digest (digest resp) (vs @ (tbl, r) # voices psl (tl_voters t3) rs))"
        proof -
          have "votes_for digest (digest resp) (vs @ (tbl, r) # voices psl (tl_voters t3) rs) =
            votes_for digest (digest resp) (vs @ [(tbl, r)]) @ votes_for digest (digest resp) (voices psl (tl_voters t3) rs)"
            by (simp flip: votes_for_append)
          then show ?thesis using f len by simp
        qed
        ultimately show ?thesis unfolding vo using Some by auto
      qed
    qed
  qed
qed simp

lemma wait_votes_collect: "snd (wait_votes psl digest False need t rs) = None"
  by (induction rs arbitrary: t) (auto simp: Let_def split: option.split)

lemma quorum_end_label:
  "qe_label (quorum_end_of render raw c mode outcome groups ended t winner achieved digest) = ''majority'' \<Longrightarrow>
     outcome \<noteq> ''majority'' \<Longrightarrow> winner \<noteq> None"
  by (cases winner) (simp_all add: quorum_end_of_def Let_def split: if_splits)

section \<open>Properties\<close>

text \<open>C33. A quorum request is answered as a majority exactly when, in consensus mode, more than half of the arms gave the
  same answer through voices no two of which share an operator or an owner of several brands; and then the answer
  delivered is the answer of one of these voices, without an error.\<close>

theorem quorum_majority_genuine:
  assumes "quorum_run psl digest render raw c mode outcome groups reports ended = q" and "outcome \<noteq> ''majority''"
  shows "let vs = voices psl Affiliates_empty reports in
    subseq vs reports \<and> sorted_wrt (unaffiliated psl) vs \<and>
    (qe_label q = ''majority'' \<longleftrightarrow> mode = QuorumModeConsensus \<and> (\<exists>d. length groups < 2 * length (votes_for digest d vs))) \<and>
    (qe_label q = ''majority'' \<longrightarrow>
       (\<exists>tbl r resp. (tbl, r) \<in> set vs \<and> arm_answer r = Some resp \<and> length groups < 2 * length (votes_for digest (digest resp) vs) \<and>
          qe_ctx q = mergeContext c (ar_ctx r) \<and> qe_err q = None))"
proof -
  let ?vs = "voices psl Affiliates_empty reports"
  let ?need = "length groups div 2 + 1"
  have half: "length groups < 2 * k \<longleftrightarrow> ?need \<le> k" for k by presburger
  obtain t win where w: "wait_votes psl digest (mode = QuorumModeConsensus) ?need (empty_tally (length groups)) reports = (t, win)" by fastforce
  then have q: "q = quorum_end_of render raw c mode outcome groups ended t win (\<lambda>d. case map_of (tl_votes t) d of Some l \<Rightarrow> length l | None \<Rightarrow> 0) digest"
    using assms(1) by (simp add: quorum_run_def)
  have lab: "qe_label q = ''majority'' \<longleftrightarrow> win \<noteq> None"
  proof
    show "win \<noteq> None" if "qe_label q = ''majority''" using quorum_end_label [OF _ assms(2)] that unfolding q by blast
    show "qe_label q = ''majority''" if "win \<noteq> None" using that unfolding q by (cases win) (simp_all add: quorum_end_of_def Let_def)
  qed
  have won: "qe_ctx q = mergeContext c (ar_ctx r) \<and> qe_err q = None" if "win = Some r" for r
    using q that by (simp add: quorum_end_of_def Let_def)
  have "(win \<noteq> None \<longleftrightarrow> mode = QuorumModeConsensus \<and> (\<exists>d. length groups < 2 * length (votes_for digest d ?vs))) \<and>
    (\<forall>r. win = Some r \<longrightarrow> (\<exists>tbl resp. (tbl, r) \<in> set ?vs \<and> arm_answer r = Some resp \<and> length groups < 2 * length (votes_for digest (digest resp) ?vs)))"
  proof (cases "mode = QuorumModeConsensus")
    case True
    have "case win of None \<Rightarrow> \<forall>d. length (votes_for digest d ([] @ ?vs)) < ?need
      | Some r \<Rightarrow> \<exists>tbl resp. arm_answer r = Some resp \<and> (tbl, r) \<in> set ?vs \<and> ?need \<le> length (votes_for digest (digest resp) ([] @ ?vs))"
    proof -
      have e: "tl_voters (empty_tally (length groups)) = Affiliates_empty" "tally_of psl digest [] (empty_tally (length groups))"
        by (simp_all add: tally_of_def empty_tally_def)
      show ?thesis using wait_votes_consensus [OF w [unfolded True simp_thms] e(2)] unfolding e(1) by simp
    qed
    then show ?thesis using True unfolding half by (cases win) (auto simp: not_le)
  next
    case False
    then have "win = None" using wait_votes_collect [of psl digest ?need "empty_tally (length groups)" reports] w by simp
    then show ?thesis using False by simp
  qed
  note votes = this
  have answer: "\<exists>tbl r resp. (tbl, r) \<in> set ?vs \<and> arm_answer r = Some resp \<and> length groups < 2 * length (votes_for digest (digest resp) ?vs) \<and>
      qe_ctx q = mergeContext c (ar_ctx r) \<and> qe_err q = None" if "win \<noteq> None"
  proof -
    note won_vote = that
    obtain r where r: "win = Some r" using won_vote by auto
    obtain tbl resp where v: "(tbl, r) \<in> set ?vs" "arm_answer r = Some resp" "length groups < 2 * length (votes_for digest (digest resp) ?vs)"
      using votes r by auto
    show ?thesis using v won [OF r] by (intro exI [of _ tbl] exI [of _ r] exI [of _ resp]) simp
  qed
  show ?thesis unfolding Let_def lab
    by (intro conjI impI) (rule voices_subseq voices_independent votes [THEN conjunct1] answer; assumption?)+
qed


subsection \<open>Witnesses\<close>

text \<open>Three operators are asked; two of them give the same answer, between them a third gives another.\<close>

definition arm_of :: "nat \<Rightarrow> endpoint_addr \<Rightarrow> string \<Rightarrow> arm_report" where
  "arm_of i ep body = (empty_owner_table,
     \<lparr>ar_index = i, ar_ctx = (NewContext None)\<lparr>cx_Endpoint := ep, cx_Response := Some \<lparr>Body = body, HTTPStatusCode = 200, rs_EndpointAddr = ep\<rparr>\<rparr>, ar_err = None\<rparr>)"

definition quorum_reports :: "arm_report list" where
  "quorum_reports = [arm_of 0 ''s1-https://a.io'' ''0x1'', arm_of 2 ''s3-https://c.io'' ''0x2'', arm_of 1 ''s2-https://b.io'' ''0x1'']"

definition quorum_groups :: "operatorGroup list" where
  "quorum_groups = map new_group [''a.io'', ''b.io'', ''c.io'']"

definition quorum_result :: quorum_end where
  "quorum_result = quorum_run (\<lambda>h. None) Body (\<lambda>n as. []) Some (NewContext None) QuorumModeConsensus [] quorum_groups quorum_reports None"

theorem quorum_majority_genuine_witness:
  "qe_label quorum_result = ''majority'' \<and> (\<exists>tbl r resp. (tbl, r) \<in> set quorum_reports \<and> arm_answer r = Some resp \<and>
     2 \<le> length (votes_for Body (Body resp) (voices (\<lambda>h. None) Affiliates_empty quorum_reports)) \<and> cx_Response (qe_ctx quorum_result) = Some resp)"
proof -
  let ?vs = "voices (\<lambda>h. None) Affiliates_empty quorum_reports"
  note t = quorum_majority_genuine [OF quorum_result_def [symmetric], unfolded Let_def]
  have n: "length quorum_groups = 3" by (simp add: quorum_groups_def)
  have two: "length (votes_for Body ''0x1'' ?vs) = 2" unfolding quorum_reports_def arm_of_def by code_simp
  have l: "qe_label quorum_result = ''majority''"
  proof -
    have "\<exists>d. length quorum_groups < 2 * length (votes_for Body d ?vs)" using n two by (intro exI [of _ "''0x1''"]) simp
    then show ?thesis using t by simp
  qed
  then obtain tbl r resp where r: "(tbl, r) \<in> set ?vs" "arm_answer r = Some resp" "length quorum_groups < 2 * length (votes_for Body (Body resp) ?vs)"
    "qe_ctx quorum_result = mergeContext (NewContext None) (ar_ctx r)" using t by auto
  have "(tbl, r) \<in> set quorum_reports" using r(1) subseq_order.order_trans voices_subseq by (metis subseq_conv_nths notin_set_nthsI)
  moreover have "cx_Response (qe_ctx quorum_result) = Some resp" using r(2,4) by (simp add: mergeContext_def arm_answer_def split: if_splits)
  ultimately show ?thesis using l r(2,3) n by auto
qed

definition quorum_pool :: "endpoint_addr list" where
  "quorum_pool = [''s1-https://a.io'', ''s2-https://b.io'', ''s3-https://c.io'', ''s4-https://d.io'', ''s5-https://x.a.io'']"


end
