(* ===== verification/Response_Cache.thy ===== *)
theory Response_Cache
  imports Relay_Retry "HOL-Library.Multiset" "HOL-Library.While_Combinator"
begin

text \<open>
  The response cache (\<^verbatim>\<open>responsecache/cache.go\<close>), the key of a request and the middleware that answers from the cache
  (\<^verbatim>\<open>relay/middleware/cache.go\<close>), and the middleware that lets concurrent identical requests share one relay
  (\<^verbatim>\<open>relay/middleware/singleflight.go\<close>).

  The cache is a table and a list in order of use, as in the code. The loops that evict are loops of
  \<open>while_option\<close>, whose result is \<open>None\<close> when a loop does not end. A key is the text that the code hashes: the hash
  itself is an argument of the middleware. The group of flights of the singleflight package is seen through what each
  call of it gave.
\<close>

section \<open>Model: the cache\<close>

record cache_entry =
  ce_response :: Response
  ce_expiry :: time
  ce_key :: string
  ce_size :: int

definition cacheMaxBytes :: int where "cacheMaxBytes = 64 * 2 ^ 20"

record rcache =
  rc_entries :: "(string, cache_entry) gomap"
  rc_order :: "cache_entry list"
  rc_maxSize :: int
  rc_bytes :: int
  rc_maxBytes :: int

definition NewCache :: "int \<Rightarrow> rcache" where
  "NewCache n = \<lparr>rc_entries = [], rc_order = [], rc_maxSize = (if n \<le> 0 then 1024 else n), rc_bytes = 0, rc_maxBytes = cacheMaxBytes\<rparr>"

definition removeElement :: "cache_entry \<Rightarrow> rcache \<Rightarrow> rcache" where
  "removeElement e c =
     c\<lparr>rc_order := remove1 e (rc_order c), rc_entries := AList.delete (ce_key e) (rc_entries c), rc_bytes := rc_bytes c - ce_size e\<rparr>"

definition Get_rc :: "rcache \<Rightarrow> string \<Rightarrow> time \<Rightarrow> Response option \<times> rcache" where
  "Get_rc c key now =
     (case map_of (rc_entries c) key of
        None \<Rightarrow> (None, c)
      | Some e \<Rightarrow>
          if now > ce_expiry e then (None, removeElement e c)
          else (Some (ce_response e), c\<lparr>rc_order := remove1 e (rc_order c) @ [e]\<rparr>))"

text \<open>The two loops of \<^verbatim>\<open>Set\<close>: the expired run at the old end, then whatever is oldest until the new entry fits.\<close>

definition expired_front :: "time \<Rightarrow> rcache \<Rightarrow> bool" where
  "expired_front now c = (case rc_order c of [] \<Rightarrow> False | e # _ \<Rightarrow> now > ce_expiry e)"

definition too_full :: "int \<Rightarrow> rcache \<Rightarrow> bool" where
  "too_full sz c \<longleftrightarrow> rc_order c \<noteq> [] \<and> (int (length (rc_entries c)) \<ge> rc_maxSize c \<or> rc_bytes c + sz > rc_maxBytes c)"

definition drop_front :: "rcache \<Rightarrow> rcache" where
  "drop_front c = (case rc_order c of [] \<Rightarrow> c | e # _ \<Rightarrow> removeElement e c)"

definition sweep_expired :: "time \<Rightarrow> rcache \<Rightarrow> rcache option" where
  "sweep_expired now c = while_option (expired_front now) drop_front c"

definition evict :: "int \<Rightarrow> rcache \<Rightarrow> rcache option" where
  "evict sz c = while_option (too_full sz) drop_front c"

definition push_back :: "cache_entry \<Rightarrow> rcache \<Rightarrow> rcache" where
  "push_back e c = c\<lparr>rc_order := rc_order c @ [e], rc_entries := AList.update (ce_key e) e (rc_entries c), rc_bytes := rc_bytes c + ce_size e\<rparr>"

definition drop_key :: "string \<Rightarrow> rcache \<Rightarrow> rcache" where
  "drop_key key c = (case map_of (rc_entries c) key of Some e \<Rightarrow> removeElement e c | None \<Rightarrow> c)"

definition Set_rc :: "rcache \<Rightarrow> string \<Rightarrow> Response \<Rightarrow> duration \<Rightarrow> time \<Rightarrow> rcache option" where
  "Set_rc c key resp ttl now =
     (let sz = int (length (Body resp)) in
      if ttl \<le> 0 \<or> sz > rc_maxBytes c then Some c
      else case sweep_expired now (drop_key key c) of
        None \<Rightarrow> None
      | Some c1 \<Rightarrow>
          (case evict sz c1 of
             None \<Rightarrow> None
           | Some c2 \<Rightarrow> Some (push_back \<lparr>ce_response = resp, ce_expiry = now + ttl, ce_key = key, ce_size = sz\<rparr> c2)))"

section \<open>Model: keys and the cache middleware\<close>

definition FlagCache :: string where "FlagCache = ''cache''"
definition FlagSingleflight :: string where "FlagSingleflight = ''singleflight''"

definition nul :: char where "nul = char_of (0 :: nat)"

definition writeRequestKey :: "Payload \<Rightarrow> string" where
  "writeRequestKey p =
     concat (map (\<lambda>field. field @ [nul]) [pl_rpcType p, pl_httpMethod p, pl_path p, pl_method p]) @ pl_data p"

definition cacheKey :: "service_id \<Rightarrow> Payload list \<Rightarrow> string" where
  "cacheKey serviceID payloads = serviceID @ concat (map writeRequestKey payloads)"

type_synonym cache_policy = "string \<Rightarrow> string \<Rightarrow> string \<Rightarrow> duration"

definition store_answer :: "cache_policy \<Rightarrow> rcache \<Rightarrow> time \<Rightarrow> string \<Rightarrow> Context \<Rightarrow> rcache option" where
  "store_answer cp cache now key c =
     (case cx_Response c of
        None \<Rightarrow> Some cache
      | Some resp \<Rightarrow>
          let (method, params) = (case cx_Payloads c of [p] \<Rightarrow> (pl_method p, pl_data p) | _ \<Rightarrow> ([], []));
              ttl = cp method params (Body resp)
          in if ttl > 0 then Set_rc cache key resp ttl now else Some cache)"

definition Cache :: "'w surroundings \<Rightarrow> (string \<Rightarrow> string) \<Rightarrow> cache_policy option \<Rightarrow> (rcache \<times> 'w) handler \<Rightarrow> rcache \<times> 'w \<Rightarrow> Context \<Rightarrow>
    ((rcache \<times> 'w) \<times> Context \<times> go_error option) option" where
  "Cache sr hash policy next s c =
     (if cx_QuorumArm c \<or> \<not> sr_flag sr (snd s) FlagCache (cx_ServiceID c) then Some (next s c)
      else case policy of
        None \<Rightarrow> Some (next s c)
      | Some cp \<Rightarrow>
          let key = hash (cacheKey (cx_ServiceID c) (cx_Payloads c)) in
          (case Get_rc (fst s) key (sr_clock sr (snd s)) of
             (Some resp, cache) \<Rightarrow> Some ((cache, snd s), c\<lparr>cx_Response := Some resp, cx_Cached := True\<rparr>, None)
           | (None, cache) \<Rightarrow>
               (case next (cache, snd s) c of
                  (s', c', Some e) \<Rightarrow> Some (s', c', Some e)
                | (s', c', None) \<Rightarrow>
                    map_option (\<lambda>cache'. ((cache', snd s'), c', None)) (store_answer cp (fst s') (sr_clock sr (snd s')) key c'))))"

section \<open>Model: shared flights\<close>

record flight =
  fl_response :: "Response option"
  fl_verdict :: "AnalysisResult option"
  fl_err :: "go_error option"
  fl_leaderGone :: bool

text \<open>What a call of the group gave: the request led the flight, or it was handed another's, with whether its own context
  had ended by then. A request goes round again as long as it is handed a flight whose leader went away.\<close>

datatype 'w group_do = Leads | Follows 'w flight bool

fun coalesce :: "'w handler \<Rightarrow> 'w group_do list \<Rightarrow> 'w \<Rightarrow> Context \<Rightarrow> ('w \<times> Context \<times> go_error option) option" where
  "coalesce next [] w c = None"
| "coalesce next (Leads # ds) w c = Some (next w c)"
| "coalesce next (Follows w' f gone # ds) w c =
     (if fl_leaderGone f \<and> \<not> gone then coalesce next ds w' c
      else Some (w', c\<lparr>cx_Response := fl_response f, cx_HeuristicResult := fl_verdict f, cx_Coalesced := True\<rparr>, fl_err f))"

definition Singleflight :: "'w surroundings \<Rightarrow> (string \<Rightarrow> bool) option \<Rightarrow> 'w handler \<Rightarrow> 'w group_do list \<Rightarrow> 'w \<Rightarrow> Context \<Rightarrow>
    ('w \<times> Context \<times> go_error option) option" where
  "Singleflight sr classifier next ds w c =
     (if cx_QuorumArm c \<or> \<not> sr_flag sr w FlagSingleflight (cx_ServiceID c) \<or> length (cx_Payloads c) \<noteq> 1 \<or>
         (case classifier of None \<Rightarrow> True | Some f \<Rightarrow> \<not> f (pl_method (hd (cx_Payloads c))))
      then Some (next w c) else coalesce next ds w c)"

definition flight_of :: "bool \<Rightarrow> Context \<times> go_error option \<Rightarrow> flight" where
  "flight_of gone r = \<lparr>fl_response = cx_Response (fst r), fl_verdict = cx_HeuristicResult (fst r), fl_err = snd r, fl_leaderGone = gone\<rparr>"

section \<open>Lemmas: the table and the list agree\<close>

definition rc_wf :: "rcache \<Rightarrow> bool" where
  "rc_wf c \<longleftrightarrow> gomap_ok (rc_entries c) \<and> distinct (map ce_key (rc_order c)) \<and>
     (\<forall>k e. map_of (rc_entries c) k = Some e \<longleftrightarrow> e \<in> set (rc_order c) \<and> ce_key e = k) \<and>
     rc_bytes c = sum_list (map ce_size (rc_order c)) \<and> (\<forall>e \<in> set (rc_order c). 0 \<le> ce_size e)"

definition same_caps :: "rcache \<Rightarrow> rcache \<Rightarrow> bool" where
  "same_caps c c' \<longleftrightarrow> rc_maxSize c' = rc_maxSize c \<and> rc_maxBytes c' = rc_maxBytes c"

lemma rc_wf_length:
  assumes "rc_wf c"
  shows "length (rc_entries c) = length (rc_order c)"
proof -
  have "fst ` set (rc_entries c) = ce_key ` set (rc_order c)"
  proof -
    have "k \<in> fst ` set (rc_entries c) \<longleftrightarrow> (\<exists>e. map_of (rc_entries c) k = Some e)" for k
      by (metis domD domI dom_map_of_conv_image_fst)
    moreover have "(\<exists>e. map_of (rc_entries c) k = Some e) \<longleftrightarrow> k \<in> ce_key ` set (rc_order c)" for k
      using assms by (auto simp: rc_wf_def)
    ultimately show ?thesis by (simp add: set_eq_iff)
  qed
  moreover have "card (fst ` set (rc_entries c)) = length (rc_entries c)"
    using assms distinct_card [of "map fst (rc_entries c)"] by (simp add: rc_wf_def gomap_ok_def)
  moreover have "card (ce_key ` set (rc_order c)) = length (rc_order c)"
    using assms distinct_card [of "map ce_key (rc_order c)"] by (simp add: rc_wf_def)
  ultimately show ?thesis by simp
qed

lemma sum_list_remove1: "x \<in> set xs \<Longrightarrow> sum_list (map f (remove1 x xs)) = sum_list (map f xs) - (f x :: int)"
  by (induction xs) auto

lemma distinct_key_eq: "distinct (map ce_key es) \<Longrightarrow> e \<in> set es \<Longrightarrow> e' \<in> set es \<Longrightarrow> ce_key e = ce_key e' \<Longrightarrow> e = e'"
  by (induction es) (auto simp: image_iff)

lemma distinct_keys_remove1: "distinct (map ce_key es) \<Longrightarrow> distinct (map ce_key (remove1 e es))"
  by (induction es) (auto dest: set_remove1_subset [THEN subsetD])

lemma removeElement_wf:
  assumes wf: "rc_wf c" and e: "e \<in> set (rc_order c)"
  shows "rc_wf (removeElement e c)" "same_caps c (removeElement e c)" "rc_order (removeElement e c) = remove1 e (rc_order c)"
proof -
  have d: "distinct (map ce_key (rc_order c))" using wf by (simp add: rc_wf_def)
  have dd: "distinct (rc_order c)" using d by (simp add: distinct_map)
  have m: "map_of (rc_entries c) k = Some x \<longleftrightarrow> x \<in> set (rc_order c) \<and> ce_key x = k" for k x
    using wf by (simp add: rc_wf_def)
  have "map_of (AList.delete (ce_key e) (rc_entries c)) k = Some x \<longleftrightarrow> x \<in> set (remove1 e (rc_order c)) \<and> ce_key x = k" for k x
  proof -
    have "x \<noteq> e \<longleftrightarrow> ce_key x \<noteq> ce_key e" if "x \<in> set (rc_order c)" using distinct_key_eq [OF d that e] by auto
    then show ?thesis using m [of k x] dd by (auto simp: gomap_simps)
  qed
  then show "rc_wf (removeElement e c)"
    using wf e d by (auto simp: rc_wf_def removeElement_def sum_list_remove1 distinct_keys_remove1 gomap_ok_def distinct_delete dest: set_remove1_subset [THEN subsetD])
  show "same_caps c (removeElement e c)" "rc_order (removeElement e c) = remove1 e (rc_order c)"
    by (simp_all add: same_caps_def removeElement_def)
qed

lemma drop_front_wf:
  assumes "rc_wf c" and "rc_order c \<noteq> []"
  shows "rc_wf (drop_front c)" "same_caps c (drop_front c)" "rc_order (drop_front c) = tl (rc_order c)"
proof -
  obtain e es where o: "rc_order c = e # es" using assms(2) by (cases "rc_order c") auto
  then show "rc_wf (drop_front c)" "same_caps c (drop_front c)" "rc_order (drop_front c) = tl (rc_order c)"
    using removeElement_wf [OF assms(1), of e] by (simp_all add: drop_front_def)
qed

text \<open>A loop that drops the front while a test holds, a test that never holds of an empty cache: it ends, and what is left
  is the cache without the entries up to the first where the test fails.\<close>

definition dropped :: "(rcache \<Rightarrow> bool) \<Rightarrow> rcache \<Rightarrow> nat \<Rightarrow> rcache \<Rightarrow> bool" where
  "dropped b c n c' \<longleftrightarrow> rc_wf c' \<and> same_caps c c' \<and> n \<le> length (rc_order c) \<and> rc_order c' = drop n (rc_order c) \<and>
     (n = 0 \<or> (\<exists>x. rc_wf x \<and> same_caps c x \<and> rc_order x = drop (n - 1) (rc_order c) \<and> b x))"

lemma dropped_facts:
  assumes "dropped b c n c'"
  shows "rc_wf c'" "same_caps c c'" "n \<le> length (rc_order c)" "rc_order c' = drop n (rc_order c)"
  using assms by (simp_all add: dropped_def)

lemma dropped_last:
  assumes "dropped b c n c'" and "n \<noteq> 0"
  obtains x where "rc_wf x" "same_caps c x" "rc_order x = drop (n - 1) (rc_order c)" "b x"
  using assms by (auto simp: dropped_def)

lemma same_caps_trans: "same_caps a b \<Longrightarrow> same_caps b c \<Longrightarrow> same_caps a c"
  by (simp add: same_caps_def)

lemma dropped_step:
  assumes "dropped b c n x" and "b x" and "rc_order x \<noteq> []"
  shows "dropped b c (Suc n) (drop_front x)"
proof -
  have x: "rc_wf x" "same_caps c x" "rc_order x = drop n (rc_order c)" using assms(1) by (simp_all add: dropped_def)
  note d = drop_front_wf [OF x(1) assms(3)]
  have "n < length (rc_order c)" using assms(3) x(3) by simp
  moreover have "same_caps c (drop_front x)" using d(2) x(2) by (simp add: same_caps_def)
  moreover have "rc_order (drop_front x) = drop (Suc n) (rc_order c)" using d(3) x(3) by (simp add: drop_Suc tl_drop)
  ultimately show ?thesis unfolding dropped_def using d(1) x assms(2) by auto
qed

lemma while_drop_ends:
  assumes wf: "rc_wf c" and ne: "\<forall>x. b x \<longrightarrow> rc_order x \<noteq> []"
  shows "\<exists>c' n. while_option b drop_front c = Some c' \<and> \<not> b c' \<and> dropped b c n c'"
proof -
  have "\<exists>c'. while_option b drop_front c = Some c'"
  proof (rule measure_while_option_Some [where P = rc_wf and f = "\<lambda>x. length (rc_order x)"])
    show "rc_wf (drop_front x) \<and> length (rc_order (drop_front x)) < length (rc_order x)" if "rc_wf x" "b x" for x
      using drop_front_wf [OF that(1)] ne that(2) by simp
  qed (rule wf)
  then obtain c' where c': "while_option b drop_front c = Some c'" by blast
  have "\<exists>n. dropped b c n c'"
  proof (rule while_option_rule [OF _ c', where P = "\<lambda>x. \<exists>n. dropped b c n x"])
    show "\<exists>n. dropped b c n (drop_front x)" if "\<exists>n. dropped b c n x" "b x" for x
      using that dropped_step ne by blast
    show "\<exists>n. dropped b c n c" using wf by (intro exI [of _ 0]) (simp add: dropped_def same_caps_def)
  qed
  then show ?thesis using c' while_option_stop [OF c'] by blast
qed

lemma drop_key_wf:
  assumes "rc_wf c"
  shows "rc_wf (drop_key k c)" "same_caps c (drop_key k c)" "rc_order (drop_key k c) = filter (\<lambda>e. ce_key e \<noteq> k) (rc_order c)"
proof -
  have d: "distinct (map ce_key (rc_order c))" and m: "\<And>x. map_of (rc_entries c) k = Some x \<longleftrightarrow> x \<in> set (rc_order c) \<and> ce_key x = k"
    using assms by (simp_all add: rc_wf_def)
  have "rc_wf (drop_key k c) \<and> same_caps c (drop_key k c) \<and> rc_order (drop_key k c) = filter (\<lambda>e. ce_key e \<noteq> k) (rc_order c)"
  proof (cases "map_of (rc_entries c) k")
    case None
    then have "filter (\<lambda>e. ce_key e \<noteq> k) (rc_order c) = rc_order c" using m by (auto simp: filter_id_conv)
    then show ?thesis using None assms by (simp add: drop_key_def same_caps_def)
  next
    case (Some e)
    then have e: "e \<in> set (rc_order c)" "ce_key e = k" using m by simp_all
    have "remove1 e (rc_order c) = filter (\<lambda>x. x \<noteq> e) (rc_order c)" using d by (simp add: distinct_map distinct_remove1_removeAll removeAll_filter_not_eq eq_commute)
    also have "\<dots> = filter (\<lambda>x. ce_key x \<noteq> k) (rc_order c)"
      using distinct_key_eq [OF d _ e(1)] e(2) by (intro filter_cong) auto
    finally show ?thesis using removeElement_wf [OF assms e(1)] Some by (simp add: drop_key_def)
  qed
  then show "rc_wf (drop_key k c)" "same_caps c (drop_key k c)" "rc_order (drop_key k c) = filter (\<lambda>e. ce_key e \<noteq> k) (rc_order c)" by blast+
qed

lemma push_back_wf:
  assumes "rc_wf c" and "\<forall>x \<in> set (rc_order c). ce_key x \<noteq> ce_key e" and "0 \<le> ce_size e"
  shows "rc_wf (push_back e c)" "same_caps c (push_back e c)" "rc_order (push_back e c) = rc_order c @ [e]"
proof -
  have m: "map_of (rc_entries c) k = Some x \<longleftrightarrow> x \<in> set (rc_order c) \<and> ce_key x = k" for k x
    using assms(1) by (simp add: rc_wf_def)
  have "map_of (AList.update (ce_key e) e (rc_entries c)) k = Some x \<longleftrightarrow> x \<in> set (rc_order c @ [e]) \<and> ce_key x = k" for k x
    using m [of k x] assms(2) by (auto simp: gomap_simps)
  then show "rc_wf (push_back e c)"
    using assms by (auto simp: rc_wf_def push_back_def gomap_ok_def distinct_update)
  show "same_caps c (push_back e c)" "rc_order (push_back e c) = rc_order c @ [e]" by (simp_all add: push_back_def same_caps_def)
qed

lemma Get_rc_wf:
  assumes "rc_wf c"
  shows "rc_wf (snd (Get_rc c k now))" "same_caps c (snd (Get_rc c k now))" "set (rc_order (snd (Get_rc c k now))) \<subseteq> set (rc_order c)"
    "length (rc_order (snd (Get_rc c k now))) \<le> length (rc_order c)" "rc_bytes (snd (Get_rc c k now)) \<le> rc_bytes c"
proof -
  have "rc_wf (snd (Get_rc c k now)) \<and> same_caps c (snd (Get_rc c k now)) \<and> set (rc_order (snd (Get_rc c k now))) \<subseteq> set (rc_order c) \<and>
    length (rc_order (snd (Get_rc c k now))) \<le> length (rc_order c) \<and> rc_bytes (snd (Get_rc c k now)) \<le> rc_bytes c"
  proof (cases "map_of (rc_entries c) k")
    case None
    then show ?thesis using assms by (simp add: Get_rc_def same_caps_def)
  next
    case (Some e)
    then have e: "e \<in> set (rc_order c)" "ce_key e = k" "0 \<le> ce_size e" using assms by (simp_all add: rc_wf_def)
    show ?thesis
    proof (cases "now > ce_expiry e")
      case True
      then have g: "snd (Get_rc c k now) = removeElement e c" using Some by (simp add: Get_rc_def)
      have "rc_bytes (removeElement e c) \<le> rc_bytes c" using e(3) by (simp add: removeElement_def)
      then show ?thesis unfolding g using removeElement_wf [OF assms e(1)]
        by (simp add: set_remove1_subset length_remove1)
    next
      case False
      let ?o = "remove1 e (rc_order c) @ [e]"
      have g: "snd (Get_rc c k now) = c\<lparr>rc_order := ?o\<rparr>" using Some False by (simp add: Get_rc_def)
      have p: "mset ?o = mset (rc_order c)" using e(1) by simp
      have "mset (map ce_key ?o) = mset (map ce_key (rc_order c))" "mset (map ce_size ?o) = mset (map ce_size (rc_order c))"
        by (simp_all only: mset_map p)
      then have k: "distinct (map ce_key ?o) = distinct (map ce_key (rc_order c))" "sum_list (map ce_size ?o) = sum_list (map ce_size (rc_order c))"
        "set ?o = set (rc_order c)" "length ?o = length (rc_order c)"
        using mset_eq_imp_distinct_iff mset_eq_setD [OF p] mset_eq_length [OF p] by (blast, metis sum_mset_sum_list, blast, blast)
      have sel: "rc_order (c\<lparr>rc_order := ?o\<rparr>) = ?o" "rc_entries (c\<lparr>rc_order := ?o\<rparr>) = rc_entries c" "rc_bytes (c\<lparr>rc_order := ?o\<rparr>) = rc_bytes c"
        "same_caps c (c\<lparr>rc_order := ?o\<rparr>)"
        by (simp_all add: same_caps_def)
      have "rc_wf (c\<lparr>rc_order := ?o\<rparr>)" using assms unfolding rc_wf_def sel k .
      then show ?thesis unfolding g sel(1,3) k(3,4) using sel(4) by simp
    qed
  qed
  then show "rc_wf (snd (Get_rc c k now))" "same_caps c (snd (Get_rc c k now))" "set (rc_order (snd (Get_rc c k now))) \<subseteq> set (rc_order c)"
    "length (rc_order (snd (Get_rc c k now))) \<le> length (rc_order c)" "rc_bytes (snd (Get_rc c k now)) \<le> rc_bytes c" by blast+
qed

definition storable :: "rcache \<Rightarrow> Response \<Rightarrow> duration \<Rightarrow> bool" where
  "storable c resp ttl \<longleftrightarrow> 0 < ttl \<and> int (length (Body resp)) \<le> rc_maxBytes c"

definition new_entry :: "string \<Rightarrow> Response \<Rightarrow> duration \<Rightarrow> time \<Rightarrow> cache_entry" where
  "new_entry k resp ttl now = \<lparr>ce_response = resp, ce_expiry = now + ttl, ce_key = k, ce_size = int (length (Body resp))\<rparr>"

lemma expired_front_order: "\<forall>c. expired_front now c \<longrightarrow> rc_order c \<noteq> []" by (auto simp: expired_front_def)

lemma too_full_order: "\<forall>c. too_full sz c \<longrightarrow> rc_order c \<noteq> []" by (simp add: too_full_def)

text \<open>\<^verbatim>\<open>Set\<close> returns; what stays is the newest part of the cache, cut no further than needed.\<close>

lemma Set_rc_ends:
  fixes k :: string
  assumes wf: "rc_wf c" and st: "storable c resp ttl" and pos: "0 < rc_maxSize c"
  defines "sz \<equiv> int (length (Body resp))" and "rest \<equiv> filter (\<lambda>e. ce_key e \<noteq> k) (rc_order c)"
  obtains c' n where "Set_rc c k resp ttl now = Some c'" "rc_wf c'" "same_caps c c'"
    "rc_order c' = drop n rest @ [new_entry k resp ttl now]" "int (length (rc_order c')) \<le> rc_maxSize c" "rc_bytes c' \<le> rc_maxBytes c"
    "n \<le> length rest" "n = 0 \<or> now > ce_expiry (rest ! (n - 1)) \<or>
       rc_maxSize c \<le> int (length (drop (n - 1) rest)) \<or> rc_maxBytes c < sum_list (map ce_size (drop (n - 1) rest)) + sz"
proof -
  note f = drop_key_wf [OF wf, of k]
  obtain c1 n1 where c1: "sweep_expired now (drop_key k c) = Some c1" "dropped (expired_front now) (drop_key k c) n1 c1"
    using while_drop_ends [OF f(1) expired_front_order [of now]] unfolding sweep_expired_def by blast
  note d1 = dropped_facts [OF c1(2), unfolded f(3), folded rest_def]
  obtain c2 n2 where c2: "evict sz c1 = Some c2" "\<not> too_full sz c2" "dropped (too_full sz) c1 n2 c2"
    using while_drop_ends [OF d1(1) too_full_order [of sz]] unfolding evict_def by blast
  define e where "e = new_entry k resp ttl now"
  note d2 = dropped_facts [OF c2(3), unfolded d1(4)]
  have caps: "same_caps c c1" "same_caps c c2" using same_caps_trans f(2) d1(2) d2(2) by blast+
  have o2: "rc_order c2 = drop (n2 + n1) rest" "n2 + n1 \<le> length rest" using d1(3) d2(3,4) by simp_all
  have set: "Set_rc c k resp ttl now = Some (push_back e c2)"
    using st c1(1) c2(1) by (simp add: Set_rc_def storable_def Let_def sz_def e_def new_entry_def)
  have fresh: "\<forall>x \<in> set (rc_order c2). ce_key x \<noteq> ce_key e"
    using o2(1) by (auto simp: rest_def e_def new_entry_def dest: in_set_dropD)
  note p = push_back_wf [OF d2(1) fresh]
  have sz: "ce_size e = sz" "0 \<le> ce_size e" by (simp_all add: e_def new_entry_def sz_def)
  have room: "int (length (rc_order c2)) < rc_maxSize c" "rc_bytes c2 + sz \<le> rc_maxBytes c"
    using c2(2) rc_wf_length [OF d2(1)] d2(1) caps(2) pos st by (auto simp: too_full_def same_caps_def rc_wf_def storable_def sz_def)
  have why: "n2 + n1 = 0 \<or> now > ce_expiry (rest ! (n2 + n1 - 1)) \<or>
      rc_maxSize c \<le> int (length (drop (n2 + n1 - 1) rest)) \<or> rc_maxBytes c < sum_list (map ce_size (drop (n2 + n1 - 1) rest)) + sz"
  proof (cases "n2 = 0")
    case True
    show ?thesis
    proof (cases "n1 = 0")
      case False
      obtain x where x: "rc_order x = drop (n1 - 1) rest" "expired_front now x"
        using dropped_last [OF c1(2) False] unfolding f(3) rest_def by blast
      have "n1 - 1 < length rest" using False d1(3) by simp
      then have "now > ce_expiry (rest ! (n1 - 1))" using x by (simp add: expired_front_def Cons_nth_drop_Suc [symmetric])
      then show ?thesis using True by simp
    qed (use True in simp)
  next
    case False
    obtain x where x: "rc_wf x" "same_caps c1 x" "rc_order x = drop (n2 - 1) (rc_order c1)" "too_full sz x"
      using dropped_last [OF c2(3) False] by blast
    have r: "rc_order x = drop (n2 + n1 - 1) rest" using x(3) d1(4) False by simp
    have "rc_bytes x = sum_list (map ce_size (rc_order x))" using x(1) by (simp add: rc_wf_def)
    then show ?thesis using x(4) same_caps_trans [OF caps(1) x(2)] unfolding too_full_def rc_wf_length [OF x(1)] r same_caps_def by auto
  qed
  show ?thesis
  proof (rule that [OF set p(1) [OF sz(2)]])
    show "same_caps c (push_back e c2)" using same_caps_trans [OF caps(2) p(2) [OF sz(2)]] .
    show "rc_order (push_back e c2) = drop (n2 + n1) rest @ [new_entry k resp ttl now]" using p(3) [OF sz(2)] o2(1) by (simp add: e_def)
    show "int (length (rc_order (push_back e c2))) \<le> rc_maxSize c" using p(3) [OF sz(2)] room(1) by simp
    show "rc_bytes (push_back e c2) \<le> rc_maxBytes c" using room(2) sz(1) by (simp add: push_back_def)
    show "n2 + n1 \<le> length rest" using o2(2) .
  qed (rule why)
qed

section \<open>Lemmas: the caches that occur\<close>

text \<open>The caches that \<^verbatim>\<open>NewCache\<close>, \<^verbatim>\<open>Get\<close> and \<^verbatim>\<open>Set\<close> lead to, with the calls of \<^verbatim>\<open>Set\<close> so far, the last one first.\<close>

type_synonym rc_call = "time \<times> string \<times> Response \<times> duration"

inductive rc_run :: "int \<Rightarrow> rc_call list \<Rightarrow> rcache \<Rightarrow> bool" for n where
  rc_start: "rc_run n [] (NewCache n)"
| rc_get: "rc_run n h c \<Longrightarrow> rc_run n h (snd (Get_rc c k now))"
| rc_set: "rc_run n h c \<Longrightarrow> Set_rc c k resp ttl now = Some c' \<Longrightarrow> rc_run n ((now, k, resp, ttl) # h) c'"

text \<open>The last call for a key that \<^verbatim>\<open>Set\<close> does not turn away.\<close>

fun last_set :: "rc_call list \<Rightarrow> string \<Rightarrow> rc_call option" where
  "last_set [] k = None"
| "last_set ((t, k', resp, ttl) # h) k =
     (if k' = k \<and> 0 < ttl \<and> int (length (Body resp)) \<le> cacheMaxBytes then Some (t, k', resp, ttl) else last_set h k)"

definition rc_inv :: "int \<Rightarrow> rc_call list \<Rightarrow> rcache \<Rightarrow> bool" where
  "rc_inv n h c \<longleftrightarrow> rc_wf c \<and> rc_maxSize c = (if n \<le> 0 then 1024 else n) \<and> rc_maxBytes c = cacheMaxBytes \<and>
     int (length (rc_order c)) \<le> rc_maxSize c \<and> rc_bytes c \<le> cacheMaxBytes \<and>
     (\<forall>e \<in> set (rc_order c). \<exists>t resp ttl. last_set h (ce_key e) = Some (t, ce_key e, resp, ttl) \<and> e = new_entry (ce_key e) resp ttl t)"

lemma rc_inv_pos: "rc_inv n h c \<Longrightarrow> 0 < rc_maxSize c"
  by (auto simp: rc_inv_def)

lemma rc_inv_set:
  assumes i: "rc_inv n h c" and s: "Set_rc c k resp ttl now = Some c'"
  shows "rc_inv n ((now, k, resp, ttl) # h) c'"
proof (cases "storable c resp ttl")
  case False
  then have eq: "c' = c" using s by (auto simp: Set_rc_def storable_def Let_def split: if_splits)
  have ls: "last_set ((now, k, resp, ttl) # h) k' = last_set h k'" for k' using False i by (auto simp: storable_def rc_inv_def)
  show ?thesis using i unfolding rc_inv_def eq ls .
next
  case True
  have w: "rc_wf c" using i by (simp add: rc_inv_def)
  let ?rest = "filter (\<lambda>e. ce_key e \<noteq> k) (rc_order c)"
  obtain x m where x: "Set_rc c k resp ttl now = Some x" "rc_wf x" "same_caps c x" "rc_order x = drop m ?rest @ [new_entry k resp ttl now]"
      "int (length (rc_order x)) \<le> rc_maxSize c" "rc_bytes x \<le> rc_maxBytes c"
    using Set_rc_ends [OF w True rc_inv_pos [OF i], of k now] by blast
  have c': "c' = x" using s x(1) by simp
  have "\<exists>t r d. last_set ((now, k, resp, ttl) # h) (ce_key e) = Some (t, ce_key e, r, d) \<and> e = new_entry (ce_key e) r d t"
    if e: "e \<in> set (rc_order c')" for e
  proof (cases "e = new_entry k resp ttl now")
    case True': True
    then show ?thesis using True i by (auto simp: storable_def rc_inv_def new_entry_def)
  next
    case False
    then have "e \<in> set (rc_order c)" "ce_key e \<noteq> k" using e x(4) c' by (auto dest: in_set_dropD)
    then show ?thesis using i by (auto simp: rc_inv_def)
  qed
  then show ?thesis using i x(2,3,5,6) unfolding rc_inv_def c' same_caps_def by simp
qed

lemma rc_inv_get:
  assumes "rc_inv n h c"
  shows "rc_inv n h (snd (Get_rc c k now))"
proof -
  have w: "rc_wf c" using assms by (simp add: rc_inv_def)
  note g = Get_rc_wf [OF w, of k now]
  have "\<forall>e \<in> set (rc_order (snd (Get_rc c k now))). \<exists>t resp ttl. last_set h (ce_key e) = Some (t, ce_key e, resp, ttl) \<and> e = new_entry (ce_key e) resp ttl t"
    using assms g(3) unfolding rc_inv_def by blast
  then show ?thesis using assms g(1,2,4,5) unfolding rc_inv_def same_caps_def by linarith
qed

lemma rc_run_inv: "rc_run n h c \<Longrightarrow> rc_inv n h c"
proof (induction rule: rc_run.induct)
  case rc_start
  show ?case by (simp add: rc_inv_def NewCache_def rc_wf_def gomap_ok_def cacheMaxBytes_def)
qed (simp_all add: rc_inv_get rc_inv_set)

section \<open>Properties: the cache\<close>

text \<open>C35. In every cache that occurs a \<^verbatim>\<open>Set\<close> returns, its two loops end, and leaves at most \<^verbatim>\<open>maxSize\<close> entries and at
  most \<^verbatim>\<open>maxBytes\<close> bytes of bodies. A response that is stored is the newest entry; before it stand, in the same
  order, the most recently used of the other entries, and the last one that went had expired or the new entry
  would not have fitted beside it.\<close>

theorem Set_returns_within_bounds:
  assumes "rc_run n h c"
  shows "\<exists>c'. Set_rc c k resp ttl now = Some c' \<and> rc_maxSize c' = rc_maxSize c \<and> int (length (rc_entries c')) \<le> rc_maxSize c' \<and>
      rc_bytes c' = sum_list (map (\<lambda>e. int (length (Body (ce_response e)))) (rc_order c')) \<and> rc_bytes c' \<le> cacheMaxBytes \<and>
      (0 < ttl \<and> int (length (Body resp)) \<le> cacheMaxBytes \<longrightarrow>
        (let rest = filter (\<lambda>e. ce_key e \<noteq> k) (rc_order c) in
         \<exists>m \<le> length rest. rc_order c' = drop m rest @ [new_entry k resp ttl now] \<and>
           (m = 0 \<or> now > ce_expiry (rest ! (m - 1)) \<or> rc_maxSize c \<le> int (length (drop (m - 1) rest)) \<or>
             cacheMaxBytes < sum_list (map ce_size (drop (m - 1) rest)) + int (length (Body resp)))))"
proof -
  note i = rc_run_inv [OF assms]
  have w: "rc_wf c" and mb: "rc_maxBytes c = cacheMaxBytes" using i by (simp_all add: rc_inv_def)
  have inv: "int (length (rc_entries c')) \<le> rc_maxSize c'" "rc_bytes c' \<le> cacheMaxBytes" "rc_maxSize c' = rc_maxSize c"
      "rc_bytes c' = sum_list (map (\<lambda>e. int (length (Body (ce_response e)))) (rc_order c'))"
    if s: "Set_rc c k resp ttl now = Some c'" for c'
  proof -
    have i': "rc_inv n ((now, k, resp, ttl) # h) c'" using rc_inv_set [OF i s] .
    then have w': "rc_wf c'" and sz: "\<forall>e \<in> set (rc_order c'). ce_size e = int (length (Body (ce_response e)))"
      by (auto simp: rc_inv_def new_entry_def) (metis cache_entry.select_convs(1,4))
    show "int (length (rc_entries c')) \<le> rc_maxSize c'" "rc_bytes c' \<le> cacheMaxBytes" "rc_maxSize c' = rc_maxSize c"
      using i i' rc_wf_length [OF w'] by (simp_all add: rc_inv_def)
    have "map ce_size (rc_order c') = map (\<lambda>e. int (length (Body (ce_response e)))) (rc_order c')" using sz by simp
    then show "rc_bytes c' = sum_list (map (\<lambda>e. int (length (Body (ce_response e)))) (rc_order c'))" using w' unfolding rc_wf_def by presburger
  qed
  show ?thesis
  proof (cases "storable c resp ttl")
    case True
    show ?thesis using Set_rc_ends [OF w True rc_inv_pos [OF i], of k now] inv mb unfolding Let_def by metis
  next
    case False
    then have "Set_rc c k resp ttl now = Some c" by (auto simp: Set_rc_def storable_def Let_def)
    moreover have "\<not> (0 < ttl \<and> int (length (Body resp)) \<le> cacheMaxBytes)" using False mb by (simp add: storable_def)
    ultimately show ?thesis using inv by blast
  qed
qed

lemma Get_after_Set:
  assumes "rc_run n h c"
  shows "fst (Get_rc c k now) = Some resp \<Longrightarrow> \<exists>t ttl. last_set h k = Some (t, k, resp, ttl) \<and> now \<le> t + ttl"
    and "Set_rc c k resp ttl now = Some c' \<Longrightarrow> 0 < ttl \<Longrightarrow> int (length (Body resp)) \<le> cacheMaxBytes \<Longrightarrow> later \<le> now + ttl \<Longrightarrow>
      fst (Get_rc c' k later) = Some resp"
proof -
  note i = rc_run_inv [OF assms]
  have w: "rc_wf c" using i by (simp add: rc_inv_def)
  show "\<exists>t ttl. last_set h k = Some (t, k, resp, ttl) \<and> now \<le> t + ttl" if g: "fst (Get_rc c k now) = Some resp"
  proof -
    obtain e where e: "map_of (rc_entries c) k = Some e" "now \<le> ce_expiry e" "ce_response e = resp"
      using g by (auto simp: Get_rc_def split: option.splits if_splits)
    then have m: "e \<in> set (rc_order c)" "ce_key e = k" using w by (simp_all add: rc_wf_def)
    then obtain t r d where "last_set h k = Some (t, k, r, d)" "e = new_entry k r d t" using i unfolding rc_inv_def by blast
    then show ?thesis using e by (auto simp: new_entry_def)
  qed
  show "fst (Get_rc c' k later) = Some resp"
    if s: "Set_rc c k resp ttl now = Some c'" "0 < ttl" "int (length (Body resp)) \<le> cacheMaxBytes" "later \<le> now + ttl"
  proof -
    have "storable c resp ttl" using s i by (simp add: storable_def rc_inv_def)
    then obtain x m where x: "Set_rc c k resp ttl now = Some x" "rc_wf x"
        "rc_order x = drop m (filter (\<lambda>e. ce_key e \<noteq> k) (rc_order c)) @ [new_entry k resp ttl now]"
      using Set_rc_ends [OF w _ rc_inv_pos [OF i], of resp ttl k now] by blast
    have "new_entry k resp ttl now \<in> set (rc_order x)" "ce_key (new_entry k resp ttl now) = k" using x(3) by (simp_all add: new_entry_def)
    then have "map_of (rc_entries x) k = Some (new_entry k resp ttl now)" using x(2) by (simp add: rc_wf_def)
    then show ?thesis using s(1,4) x(1) by (simp add: Get_rc_def new_entry_def)
  qed
qed


section \<open>Properties: keys\<close>

text \<open>A field that ends at the first NUL can be read back.\<close>

lemma nul_terminated_eq:
  assumes "nul \<notin> set a" and "nul \<notin> set b" and "a @ nul # x = b @ nul # y"
  shows "a = b \<and> x = y"
  using assms
proof (induction a arbitrary: b)
  case Nil
  then show ?case by (cases b) auto
next
  case (Cons c a)
  then show ?case by (cases b) auto
qed

definition plain_fields :: "Payload \<Rightarrow> bool" where
  "plain_fields p \<longleftrightarrow> nul \<notin> set (pl_rpcType p) \<and> nul \<notin> set (pl_httpMethod p) \<and> nul \<notin> set (pl_path p) \<and> nul \<notin> set (pl_method p)"

lemma writeRequestKey_unfold:
  "writeRequestKey p = pl_rpcType p @ nul # pl_httpMethod p @ nul # pl_path p @ nul # pl_method p @ nul # pl_data p"
  by (simp add: writeRequestKey_def)

lemma writeRequestKey_reads:
  assumes "plain_fields p" and "plain_fields q" and eq: "writeRequestKey p = writeRequestKey q"
  shows "pl_rpcType p = pl_rpcType q \<and> pl_httpMethod p = pl_httpMethod q \<and> pl_path p = pl_path q \<and> pl_method p = pl_method q \<and> pl_data p = pl_data q"
proof -
  note pf = assms(1,2) [unfolded plain_fields_def]
  have 1: "pl_rpcType p = pl_rpcType q \<and>
      pl_httpMethod p @ nul # pl_path p @ nul # pl_method p @ nul # pl_data p = pl_httpMethod q @ nul # pl_path q @ nul # pl_method q @ nul # pl_data q"
    using nul_terminated_eq [OF _ _ eq [unfolded writeRequestKey_unfold]] pf by blast
  have 2: "pl_httpMethod p = pl_httpMethod q \<and> pl_path p @ nul # pl_method p @ nul # pl_data p = pl_path q @ nul # pl_method q @ nul # pl_data q"
    using nul_terminated_eq [OF _ _ 1 [THEN conjunct2]] pf by blast
  have 3: "pl_path p = pl_path q \<and> pl_method p @ nul # pl_data p = pl_method q @ nul # pl_data q"
    using nul_terminated_eq [OF _ _ 2 [THEN conjunct2]] pf by blast
  have "pl_method p = pl_method q \<and> pl_data p = pl_data q" using nul_terminated_eq [OF _ _ 3 [THEN conjunct2]] pf by blast
  then show ?thesis using 1 2 3 by blast
qed

text \<open>A batch is not told from one payload whose bytes go on with what the key of a second payload would be, and the
  service ID runs into the RPC type that follows it.\<close>

lemma cacheKey_batch_collides:
  "cacheKey s [p, q] = cacheKey s [p\<lparr>pl_data := pl_data p @ writeRequestKey q\<rparr>]"
  "pl_rpcType p = t @ u \<Longrightarrow> cacheKey s [p] = cacheKey (s @ t) [p\<lparr>pl_rpcType := u\<rparr>]"
  by (simp_all add: cacheKey_def writeRequestKey_def)

section \<open>Lemmas: shared flights\<close>

text \<open>A request that follows a flight takes its answer, verdict and error, unless that flight's leader went away while the
  request itself goes on: then it goes round, until it leads or follows a flight that ended.\<close>

fun settles :: "'w group_do \<Rightarrow> bool" where
  "settles Leads = True"
| "settles (Follows w f gone) = (fl_leaderGone f \<longrightarrow> gone)"

lemma coalesce_returns: "coalesce next ds w c \<noteq> None \<longleftrightarrow> (\<exists>d \<in> set ds. settles d)"
  by (induction "next" ds w c rule: coalesce.induct) auto

lemma coalesce_follows:
  assumes "coalesce next ds w c = Some (w', c', e)"
  shows "(\<exists>v. next v c = (w', c', e)) \<or>
    (\<exists>f gone. Follows w' f gone \<in> set ds \<and> (fl_leaderGone f \<longrightarrow> gone) \<and> cx_Response c' = fl_response f \<and>
       cx_HeuristicResult c' = fl_verdict f \<and> e = fl_err f \<and> cx_Coalesced c')"
  using assms
proof (induction "next" ds w c rule: coalesce.induct)
  case (3 "next" v f gone ds w c)
  show ?case
  proof (cases "fl_leaderGone f \<and> \<not> gone")
    case True
    then show ?thesis using 3 by auto
  next
    case False
    then show ?thesis using 3(2) by (intro disjI2 exI [of _ f] exI [of _ gone]) auto
  qed
qed auto

section \<open>Witnesses\<close>

definition demo_resp :: "string \<Rightarrow> Response" where
  "demo_resp b = \<lparr>Body = b, HTTPStatusCode = 200, rs_EndpointAddr = ''n''\<rparr>"

text \<open>A cache of one entry that holds the answer to one key.\<close>

definition demo_cache :: rcache where
  "demo_cache = \<lparr>rc_entries = [(''a'', new_entry ''a'' (demo_resp ''1'') 10 0)], rc_order = [new_entry ''a'' (demo_resp ''1'') 10 0],
     rc_maxSize = 1, rc_bytes = 1, rc_maxBytes = cacheMaxBytes\<rparr>"

lemma demo_cache_run: "rc_run 1 [(0, ''a'', demo_resp ''1'', 10)] demo_cache"
proof (rule rc_set [OF rc_start])
  show "Set_rc (NewCache 1) ''a'' (demo_resp ''1'') 10 0 = Some demo_cache"
    unfolding demo_cache_def demo_resp_def new_entry_def by code_simp
qed

theorem Set_returns_within_bounds_witness:
  "\<exists>c'. Set_rc demo_cache ''b'' (demo_resp ''22'') 10 3 = Some c' \<and> rc_order c' = [new_entry ''b'' (demo_resp ''22'') 10 3] \<and> rc_bytes c' = 2"
proof -
  obtain c' where c': "Set_rc demo_cache ''b'' (demo_resp ''22'') 10 3 = Some c'" "int (length (rc_entries c')) \<le> rc_maxSize c'"
    using Set_returns_within_bounds [OF demo_cache_run, of "''b''" "demo_resp ''22''" 10 3] by blast
  have "map_option (\<lambda>c. (rc_order c, rc_bytes c)) (Set_rc demo_cache ''b'' (demo_resp ''22'') 10 3) =
      Some ([new_entry ''b'' (demo_resp ''22'') 10 3], 2)"
    unfolding demo_cache_def demo_resp_def new_entry_def by code_simp
  then show ?thesis using c'(1) by simp
qed


end
