(* ===== verification/Go_Json.thy ===== *)
theory Go_Json
  imports Prelude
begin

text \<open>
  What the code uses of the standard library's JSON: the byte-wise scanner with its parse stack (\<^verbatim>\<open>encoding/json\<close>), which
  decides validity and which bytes \<^verbatim>\<open>json.Compact\<close> leaves out, the escaping of \<^verbatim>\<open>json.HTMLEscape\<close>, and how
  \<^verbatim>\<open>json.Marshal\<close> writes a raw message and a string of one-byte characters.
\<close>

section \<open>The scanner\<close>

datatype json_step =
    BeginValueOrEmpty | BeginValue | BeginStringOrEmpty | BeginString | EndValue | EndTop
  | InString | InStringEsc | InHex nat
  | Neg | Digits | Zero | Dot | DotDigits | Exp | ExpSign | ExpDigits
  | InLiteral string

datatype parse_state = ObjectKey | ObjectValue | ArrayValue

record scanner =
  sc_step :: json_step
  sc_stack :: "parse_state list"
  sc_end :: bool

text \<open>What the scanner says of a byte: it belongs to the value, or it is space around it.\<close>

datatype scan_code = Keep | Skip

definition maxNestingDepth :: nat where "maxNestingDepth = 10000"

definition json_space :: "char \<Rightarrow> bool" where
  "json_space c \<longleftrightarrow> c = CHR 0x20 \<or> c = CHR 0x09 \<or> c = CHR 0x0D \<or> c = CHR 0x0A"

definition char_code :: "char \<Rightarrow> nat" where "char_code c = of_char c"

definition json_digit :: "char \<Rightarrow> bool" where "json_digit c \<longleftrightarrow> 48 \<le> char_code c \<and> char_code c \<le> 57"

definition is_hex :: "char \<Rightarrow> bool" where
  "is_hex c \<longleftrightarrow> json_digit c \<or> 97 \<le> char_code c \<and> char_code c \<le> 102 \<or> 65 \<le> char_code c \<and> char_code c \<le> 70"

type_synonym scan_result = "(scan_code \<times> scanner) option"

definition to_step :: "json_step \<Rightarrow> scanner \<Rightarrow> scan_result" where
  "to_step st s = Some (Keep, s\<lparr>sc_step := st\<rparr>)"

definition push_state :: "parse_state \<Rightarrow> json_step \<Rightarrow> scanner \<Rightarrow> scan_result" where
  "push_state p st s =
     (if length (sc_stack s) < maxNestingDepth then Some (Keep, s\<lparr>sc_step := st, sc_stack := p # sc_stack s\<rparr>) else None)"

definition pop_state :: "scanner \<Rightarrow> scan_result" where
  "pop_state s =
     (case tl (sc_stack s) of
        [] \<Rightarrow> Some (Keep, s\<lparr>sc_stack := [], sc_step := EndTop, sc_end := True\<rparr>)
      | ps \<Rightarrow> Some (Keep, s\<lparr>sc_stack := ps, sc_step := EndValue\<rparr>))"

definition end_top :: "char \<Rightarrow> scanner \<Rightarrow> scan_result" where
  "end_top c s = (if json_space c then Some (Skip, s) else None)"

definition end_value :: "char \<Rightarrow> scanner \<Rightarrow> scan_result" where
  "end_value c s =
     (case sc_stack s of
        [] \<Rightarrow> end_top c (s\<lparr>sc_step := EndTop, sc_end := True\<rparr>)
      | p # ps \<Rightarrow>
          if json_space c then Some (Skip, s\<lparr>sc_step := EndValue\<rparr>)
          else (case p of
             ObjectKey \<Rightarrow> if c = CHR '':'' then Some (Keep, s\<lparr>sc_stack := ObjectValue # ps, sc_step := BeginValue\<rparr>) else None
           | ObjectValue \<Rightarrow>
               if c = CHR '','' then Some (Keep, s\<lparr>sc_stack := ObjectKey # ps, sc_step := BeginString\<rparr>)
               else if c = CHR 0x7D then pop_state s else None
           | ArrayValue \<Rightarrow>
               if c = CHR '','' then to_step BeginValue s else if c = CHR '']'' then pop_state s else None))"

definition begin_value :: "char \<Rightarrow> scanner \<Rightarrow> scan_result" where
  "begin_value c s =
     (if json_space c then Some (Skip, s)
      else if c = CHR 0x7B then push_state ObjectKey BeginStringOrEmpty s
      else if c = CHR ''['' then push_state ArrayValue BeginValueOrEmpty s
      else if c = CHR 0x22 then to_step InString s
      else if c = CHR ''-'' then to_step Neg s
      else if c = CHR ''0'' then to_step Zero s
      else if c = CHR ''t'' then to_step (InLiteral ''rue'') s
      else if c = CHR ''f'' then to_step (InLiteral ''alse'') s
      else if c = CHR ''n'' then to_step (InLiteral ''ull'') s
      else if json_digit c then to_step Digits s
      else None)"

definition begin_string :: "char \<Rightarrow> scanner \<Rightarrow> scan_result" where
  "begin_string c s = (if json_space c then Some (Skip, s) else if c = CHR 0x22 then to_step InString s else None)"

definition after_zero :: "char \<Rightarrow> scanner \<Rightarrow> scan_result" where
  "after_zero c s =
     (if c = CHR ''.'' then to_step Dot s else if c = CHR ''e'' \<or> c = CHR ''E'' then to_step Exp s else end_value c s)"

definition exp_sign :: "char \<Rightarrow> scanner \<Rightarrow> scan_result" where
  "exp_sign c s = (if json_digit c then to_step ExpDigits s else None)"

definition scan_char :: "char \<Rightarrow> scanner \<Rightarrow> scan_result" where
  "scan_char c s =
     (case sc_step s of
        BeginValueOrEmpty \<Rightarrow> if json_space c then Some (Skip, s) else if c = CHR '']'' then end_value c s else begin_value c s
      | BeginValue \<Rightarrow> begin_value c s
      | BeginStringOrEmpty \<Rightarrow>
          if json_space c then Some (Skip, s)
          else if c = CHR 0x7D then end_value c (s\<lparr>sc_stack := ObjectValue # tl (sc_stack s)\<rparr>)
          else begin_string c s
      | BeginString \<Rightarrow> begin_string c s
      | EndValue \<Rightarrow> end_value c s
      | EndTop \<Rightarrow> end_top c s
      | InString \<Rightarrow>
          if c = CHR 0x22 then to_step EndValue s
          else if c = CHR 0x5C then to_step InStringEsc s
          else if char_code c < 32 then None else Some (Keep, s)
      | InStringEsc \<Rightarrow>
          if c \<in> {CHR ''b'', CHR ''f'', CHR ''n'', CHR ''r'', CHR ''t'', CHR 0x5C, CHR ''/'', CHR 0x22} then to_step InString s
          else if c = CHR ''u'' then to_step (InHex 3) s else None
      | InHex n \<Rightarrow> if is_hex c then to_step (case n of 0 \<Rightarrow> InString | Suc m \<Rightarrow> InHex m) s else None
      | Neg \<Rightarrow> if c = CHR ''0'' then to_step Zero s else if json_digit c then to_step Digits s else None
      | Digits \<Rightarrow> if json_digit c then to_step Digits s else after_zero c s
      | Zero \<Rightarrow> after_zero c s
      | Dot \<Rightarrow> if json_digit c then to_step DotDigits s else None
      | DotDigits \<Rightarrow> if json_digit c then Some (Keep, s) else if c = CHR ''e'' \<or> c = CHR ''E'' then to_step Exp s else end_value c s
      | Exp \<Rightarrow> if c = CHR ''+'' \<or> c = CHR ''-'' then to_step ExpSign s else exp_sign c s
      | ExpSign \<Rightarrow> exp_sign c s
      | ExpDigits \<Rightarrow> if json_digit c then Some (Keep, s) else end_value c s
      | InLiteral w \<Rightarrow>
          (case w of [] \<Rightarrow> None | x # r \<Rightarrow> if c = x then to_step (if r = [] then EndValue else InLiteral r) s else None))"

definition scan_eof :: "scanner \<Rightarrow> bool" where
  "scan_eof s \<longleftrightarrow> sc_end s \<or> (case scan_char CHR 0x20 s of None \<Rightarrow> False | Some (_, s') \<Rightarrow> sc_end s')"

fun compact_from :: "scanner \<Rightarrow> string \<Rightarrow> string option" where
  "compact_from s [] = (if scan_eof s then Some [] else None)"
| "compact_from s (c # cs) =
     (case scan_char c s of
        None \<Rightarrow> None
      | Some (code, s') \<Rightarrow> map_option (\<lambda>out. if code = Keep then c # out else out) (compact_from s' cs))"

definition new_scanner :: scanner where "new_scanner = \<lparr>sc_step = BeginValue, sc_stack = [], sc_end = False\<rparr>"

definition json_Compact :: "string \<Rightarrow> string option" where "json_Compact data = compact_from new_scanner data"

definition json_Valid :: "string \<Rightarrow> bool" where "json_Valid data \<longleftrightarrow> json_Compact data \<noteq> None"

section \<open>Escaping\<close>

definition u_escape :: "string \<Rightarrow> string" where "u_escape hex = CHR 0x5C # CHR ''u'' # hex"

text \<open>The three HTML characters and the two line separators, as UTF-8 bytes.\<close>

fun json_HTMLEscape :: "string \<Rightarrow> string" where
  "json_HTMLEscape [] = []"
| "json_HTMLEscape (c # cs) =
     (if c = CHR ''<'' then u_escape ''003c'' @ json_HTMLEscape cs
      else if c = CHR ''>'' then u_escape ''003e'' @ json_HTMLEscape cs
      else if c = CHR ''&'' then u_escape ''0026'' @ json_HTMLEscape cs
      else if c = CHR 0xE2 \<and> take 2 cs = [CHR 0x80, CHR 0xA8] then u_escape ''2028'' @ json_HTMLEscape (drop 2 cs)
      else if c = CHR 0xE2 \<and> take 2 cs = [CHR 0x80, CHR 0xA9] then u_escape ''2029'' @ json_HTMLEscape (drop 2 cs)
      else c # json_HTMLEscape cs)"

definition hex_digit :: "nat \<Rightarrow> char" where "hex_digit n = (if n < 10 then char_of (48 + n) else char_of (87 + n))"

definition quote_char :: "char \<Rightarrow> string" where
  "quote_char c =
     (if c = CHR 0x22 \<or> c = CHR 0x5C then [CHR 0x5C, c]
      else if c = CHR 0x08 then [CHR 0x5C, CHR ''b''] else if c = CHR 0x0C then [CHR 0x5C, CHR ''f'']
      else if c = CHR 0x0A then [CHR 0x5C, CHR ''n''] else if c = CHR 0x0D then [CHR 0x5C, CHR ''r'']
      else if c = CHR 0x09 then [CHR 0x5C, CHR ''t'']
      else if char_code c < 32 \<or> c = CHR ''<'' \<or> c = CHR ''>'' \<or> c = CHR ''&''
      then u_escape [CHR ''0'', CHR ''0'', hex_digit (char_code c div 16), hex_digit (char_code c mod 16)]
      else [c])"

definition json_string :: "string \<Rightarrow> string" where
  "json_string m = [CHR 0x22] @ concat (map quote_char m) @ [CHR 0x22]"

definition marshal_raw :: "string option \<Rightarrow> string option" where
  "marshal_raw r = (case r of None \<Rightarrow> Some ''null'' | Some j \<Rightarrow> map_option json_HTMLEscape (json_Compact j))"

text \<open>Members and items follow each other with a comma.\<close>

fun commas :: "string list \<Rightarrow> string" where
  "commas [] = []"
| "commas (x # xs) = x @ concat (map (\<lambda>y. '','' @ y) xs)"

definition json_object :: "(string \<times> string) list \<Rightarrow> string" where
  "json_object ms = ''{'' @ commas (map (\<lambda>(k, v). json_string k @ '':'' @ v) ms) @ ''}''"

end
