(* ===== verification/Score_Sink.thy ===== *)
theory Score_Sink
  imports Rep_Signals
begin

text \<open>
  The sink that collapses the signals of one batch (\<^verbatim>\<open>relay/scoresink.go\<close>): one signal for each endpoint and RPC type, the
  worst severity with its reason and the longest latency. The function a flush is given is a value of its own, and a call
  of it is one entry of the list that an operation returns.
\<close>

section \<open>Model\<close>

type_synonym sink_key = "endpoint_addr \<times> rpc_type"

record 'f score_sink =
  ss_worst :: "(sink_key, Signal) gomap"
  ss_closed :: bool
  ss_late :: "'f option"

definition NewScoreSink :: "'f score_sink" where
  "NewScoreSink = \<lparr>ss_worst = [], ss_closed = False, ss_late = None\<rparr>"

definition severityRank :: "signal_type \<Rightarrow> nat" where
  "severityRank t =
     (if t = SignalFatalError then 4 else if t = SignalCriticalError then 3 else if t = SignalMajorError then 2
      else if t = SignalMinorError then 1 else 0)"

type_synonym 'f sink_call = "'f \<times> sink_key \<times> Signal"

definition Add_sink :: "'f score_sink \<Rightarrow> endpoint_addr \<Rightarrow> rpc_type \<Rightarrow> Signal \<Rightarrow> 'f score_sink \<times> 'f sink_call list" where
  "Add_sink s ep rpc sig =
     (let k = (ep, rpc) in
      if ss_closed s then (s, case ss_late s of None \<Rightarrow> [] | Some f \<Rightarrow> [(f, k, sig)])
      else case map_of (ss_worst s) k of
        None \<Rightarrow> (s\<lparr>ss_worst := AList.update k sig (ss_worst s)\<rparr>, [])
      | Some cur \<Rightarrow>
          if severityRank (Type sig) > severityRank (Type cur)
          then (s\<lparr>ss_worst := AList.update k (sig\<lparr>Latency := max (Latency sig) (Latency cur)\<rparr>) (ss_worst s)\<rparr>, [])
          else if Latency sig > Latency cur
          then (s\<lparr>ss_worst := AList.update k (cur\<lparr>Latency := Latency sig\<rparr>) (ss_worst s)\<rparr>, [])
          else (s, []))"

definition Flush_sink :: "'f \<Rightarrow> 'f score_sink \<Rightarrow> 'f score_sink \<times> 'f sink_call list" where
  "Flush_sink f s = (s\<lparr>ss_worst := [], ss_closed := True, ss_late := Some f\<rparr>, map (\<lambda>(k, sig). (f, k, sig)) (ss_worst s))"

text \<open>A run of additions.\<close>

fun add_all :: "'f score_sink \<Rightarrow> (sink_key \<times> Signal) list \<Rightarrow> 'f score_sink \<times> 'f sink_call list" where
  "add_all s [] = (s, [])"
| "add_all s (((ep, rpc), sig) # xs) =
     (let (s1, calls) = Add_sink s ep rpc sig; (s2, rest) = add_all s1 xs in (s2, calls @ rest))"

section \<open>Specification: one signal for a list\<close>

definition worst_rank :: "Signal list \<Rightarrow> nat" where
  "worst_rank sigs = Max ((\<lambda>s. severityRank (Type s)) ` set sigs)"

definition collapse :: "Signal list \<Rightarrow> Signal" where
  "collapse sigs = (hd (filter (\<lambda>s. severityRank (Type s) = worst_rank sigs) sigs))\<lparr>Latency := Max (Latency ` set sigs)\<rparr>"

definition added_to :: "sink_key \<Rightarrow> (sink_key \<times> Signal) list \<Rightarrow> Signal list" where
  "added_to k xs = map snd (filter (\<lambda>x. fst x = k) xs)"

lemma worst_rank_snoc: "sigs \<noteq> [] \<Longrightarrow> worst_rank (sigs @ [s]) = max (severityRank (Type s)) (worst_rank sigs)"
  by (simp add: worst_rank_def)

lemma worst_rank_attained:
  assumes "sigs \<noteq> []"
  shows "filter (\<lambda>s. severityRank (Type s) = worst_rank sigs) sigs \<noteq> []"
proof -
  have "worst_rank sigs \<in> (\<lambda>s. severityRank (Type s)) ` set sigs" using assms unfolding worst_rank_def by (intro Max_in) auto
  then show ?thesis by (auto simp: filter_empty_conv)
qed

lemma collapse_rank: "sigs \<noteq> [] \<Longrightarrow> severityRank (Type (collapse sigs)) = worst_rank sigs"
  using hd_in_set [OF worst_rank_attained [of sigs]] by (simp add: collapse_def)

lemma collapse_latency: "Latency (collapse sigs) = Max (Latency ` set sigs)"
  by (simp add: collapse_def)

lemma rank_le_worst: "s \<in> set sigs \<Longrightarrow> severityRank (Type s) \<le> worst_rank sigs"
  by (simp add: worst_rank_def)

text \<open>One more signal changes the collapse as an addition changes the entry.\<close>

lemma collapse_snoc:
  assumes "sigs \<noteq> []"
  shows "collapse (sigs @ [s]) =
    (if severityRank (Type s) > severityRank (Type (collapse sigs)) then s\<lparr>Latency := max (Latency s) (Latency (collapse sigs))\<rparr>
     else (collapse sigs)\<lparr>Latency := max (Latency s) (Latency (collapse sigs))\<rparr>)"
proof (cases "severityRank (Type s) > worst_rank sigs")
  case True
  then have "filter (\<lambda>x. severityRank (Type x) = severityRank (Type s)) sigs = []"
    using rank_le_worst by (fastforce simp: filter_empty_conv)
  then show ?thesis using True assms by (simp add: collapse_rank collapse_latency) (simp add: collapse_def worst_rank_snoc max_def)
next
  case False
  then have "worst_rank (sigs @ [s]) = worst_rank sigs" using worst_rank_snoc [OF assms] by simp
  then show ?thesis using False assms worst_rank_attained [OF assms] by (simp add: collapse_rank collapse_latency) (simp add: collapse_def hd_append)
qed

section \<open>Lemmas\<close>

lemma add_all_open:
  assumes "\<not> ss_closed s" and "gomap_ok (ss_worst s)" and "\<forall>k. map_of (ss_worst s) k = (if added_to k done = [] then None else Some (collapse (added_to k done)))"
  shows "\<exists>s'. add_all s xs = (s', []) \<and> \<not> ss_closed s' \<and> gomap_ok (ss_worst s') \<and>
    (\<forall>k. map_of (ss_worst s') k = (if added_to k (done @ xs) = [] then None else Some (collapse (added_to k (done @ xs)))))"
  using assms
proof (induction xs arbitrary: s "done")
  case Nil
  then show ?case by simp
next
  case (Cons x xs)
  obtain ep rpc sig where x: "x = ((ep, rpc), sig)" by (metis surj_pair)
  let ?k = "(ep, rpc)"
  have more: "added_to k (done @ [x]) = added_to k done @ (if k = ?k then [sig] else [])" for k by (simp add: added_to_def x)
  have "\<exists>s1. Add_sink s ep rpc sig = (s1, []) \<and> \<not> ss_closed s1 \<and> gomap_ok (ss_worst s1) \<and>
      (\<forall>k. map_of (ss_worst s1) k = (if added_to k (done @ [x]) = [] then None else Some (collapse (added_to k (done @ [x])))))"
  proof (cases "added_to ?k done = []")
    case True
    have "collapse [sig] = sig" by (simp add: collapse_def worst_rank_def)
    then show ?thesis using Cons.prems True by (simp add: Add_sink_def Let_def more gomap_simps)
  next
    case False
    let ?cur = "collapse (added_to ?k done)"
    have upd: "(collapse (added_to ?k done))\<lparr>Latency := Latency ?cur\<rparr> = ?cur" by simp
    show ?thesis using Cons.prems False collapse_snoc [OF False, of sig] upd
      by (auto simp: Add_sink_def Let_def more gomap_simps max_def)
  qed
  then obtain s1 where s1: "Add_sink s ep rpc sig = (s1, [])" "\<not> ss_closed s1" "gomap_ok (ss_worst s1)"
      "\<forall>k. map_of (ss_worst s1) k = (if added_to k (done @ [x]) = [] then None else Some (collapse (added_to k (done @ [x]))))"
    by blast
  obtain s' where "add_all s1 xs = (s', [])" "\<not> ss_closed s'" "gomap_ok (ss_worst s')"
      "\<forall>k. map_of (ss_worst s') k = (if added_to k ((done @ [x]) @ xs) = [] then None else Some (collapse (added_to k ((done @ [x]) @ xs))))"
    using Cons.IH [OF s1(2-4)] by blast
  then show ?case using s1(1) x by simp
qed

lemma add_all_closed: "ss_closed s \<Longrightarrow> ss_late s = Some f \<Longrightarrow> add_all s xs = (s, map (\<lambda>(k, sig). (f, k, sig)) xs)"
  by (induction xs) (auto simp: Add_sink_def Let_def)

section \<open>Properties\<close>

text \<open>C37. A batch costs an endpoint one signal for each RPC type: a flush calls its function once for each key that was
  added to, with the worst severity among the signals of that key, everything else as in the first signal of that
  severity, and the longest latency of all of them. What is added after the flush goes to the same function as it is.\<close>

theorem sink_collapses:
  fixes f :: 'f
  shows "\<exists>s1 s2 calls. add_all (NewScoreSink :: 'f score_sink) xs = (s1, []) \<and> Flush_sink f s1 = (s2, calls) \<and>
    distinct (map (\<lambda>(_, k, _). k) calls) \<and>
    set calls = (\<lambda>k. (f, k, collapse (added_to k xs))) ` fst ` set xs \<and>
    add_all s2 ys = (s2, map (\<lambda>(k, sig). (f, k, sig)) ys)"
proof -
  have "\<not> ss_closed (NewScoreSink :: 'f score_sink)" "gomap_ok (ss_worst (NewScoreSink :: 'f score_sink))"
      "\<forall>k. map_of (ss_worst (NewScoreSink :: 'f score_sink)) k = (if added_to k [] = [] then None else Some (collapse (added_to k [])))"
    by (simp_all add: NewScoreSink_def gomap_ok_def added_to_def)
  from add_all_open [OF this, of xs] obtain s1 where s1: "add_all (NewScoreSink :: 'f score_sink) xs = (s1, [])" "gomap_ok (ss_worst s1)"
      "\<And>k. map_of (ss_worst s1) k = (if added_to k xs = [] then None else Some (collapse (added_to k xs)))" by auto
  have ne: "added_to k xs \<noteq> [] \<longleftrightarrow> k \<in> fst ` set xs" for k by (auto simp: added_to_def filter_empty_conv image_iff)
  have mem: "(k, sig) \<in> set (ss_worst s1) \<longleftrightarrow> k \<in> fst ` set xs \<and> sig = collapse (added_to k xs)" for k sig
  proof -
    have "(k, sig) \<in> set (ss_worst s1) \<longleftrightarrow> map_of (ss_worst s1) k = Some sig" using s1(2) by (simp add: gomap_ok_def)
    then show ?thesis using s1(3) [of k] ne [of k] by auto
  qed
  have "set (map (\<lambda>(k, sig). (f, k, sig)) (ss_worst s1)) = (\<lambda>k. (f, k, collapse (added_to k xs))) ` fst ` set xs"
  proof (rule set_eqI)
    fix c :: "'f sink_call"
    obtain g k sig where c: "c = (g, k, sig)" by (metis surj_pair)
    have "c \<in> set (map (\<lambda>(k, sig). (f, k, sig)) (ss_worst s1)) \<longleftrightarrow> g = f \<and> (k, sig) \<in> set (ss_worst s1)" by (auto simp: c)
    also have "\<dots> \<longleftrightarrow> c \<in> (\<lambda>k. (f, k, collapse (added_to k xs))) ` fst ` set xs" unfolding mem c by blast
    finally show "c \<in> set (map (\<lambda>(k, sig). (f, k, sig)) (ss_worst s1)) \<longleftrightarrow> c \<in> (\<lambda>k. (f, k, collapse (added_to k xs))) ` fst ` set xs" .
  qed
  moreover have "distinct (map (\<lambda>(_, k, _). k) (map (\<lambda>(k, sig). (f, k, sig)) (ss_worst s1)))"
    using s1(2) by (simp add: gomap_ok_def case_prod_beta comp_def)
  moreover have "add_all (s1\<lparr>ss_worst := [], ss_closed := True, ss_late := Some f\<rparr>) ys =
      (s1\<lparr>ss_worst := [], ss_closed := True, ss_late := Some f\<rparr>, map (\<lambda>(k, sig). (f, k, sig)) ys)"
    by (rule add_all_closed) simp_all
  ultimately show ?thesis using s1(1) unfolding Flush_sink_def by blast
qed

end
