(* ===== verification/Relay_Batch.thy ===== *)
theory Relay_Batch
  imports Relay_Chain Go_Json Score_Sink
begin

text \<open>
  The batch middleware (\<^verbatim>\<open>relay/middleware/batch.go\<close>): the fan-out of a request of several payloads into relays that run
  under three ceilings, and the collection of their answers in order, merged into one body or written piece by piece.

  The goroutines of a batch are a machine whose events are their steps: the dispatcher takes a slot, a relay ends, the
  collector receives an index, the context ends. The global budget is shared with other requests, so whether it has a
  free slot is part of the event. What the writer and the client do is given for each item. The id of a JSON text, which a
  library reads, is an argument, and counters and log lines are left out.
\<close>

section \<open>Model: ids and error items\<close>

text \<open>What the library says of the member \<^verbatim>\<open>id\<close>: whether it is null, and its text.\<close>

type_synonym json_id = "string \<Rightarrow> (bool \<times> string) option"

definition JSONRPCID :: "json_id \<Rightarrow> Payload \<Rightarrow> string" where
  "JSONRPCID gid p = (case gid (pl_data p) of None \<Rightarrow> ''null'' | Some (_, raw) \<Rightarrow> raw)"

definition JSONRPCRequestID :: "json_id \<Rightarrow> string \<Rightarrow> string" where
  "JSONRPCRequestID gid data = (case gid data of Some (False, raw) \<Rightarrow> raw | _ \<Rightarrow> [])"

definition error_object :: "string \<Rightarrow> string" where
  "error_object msg = json_object [(''code'', ''-32603''), (''message'', json_string msg)]"

definition errorJSON :: "string \<Rightarrow> string" where
  "errorJSON msg = json_object [(''error'', error_object msg)]"

definition jsonRPCErrorItem :: "string \<Rightarrow> string \<Rightarrow> string" where
  "jsonRPCErrorItem rid msg =
     (case marshal_raw (Some rid) of
        None \<Rightarrow> errorJSON msg
      | Some i \<Rightarrow> json_object [(''jsonrpc'', json_string ''2.0''), (''id'', i), (''error'', error_object msg)])"

function replace_n_max :: "string \<Rightarrow> string \<Rightarrow> string \<Rightarrow> string" where
  "replace_n_max a b [] = []"
| "replace_n_max a b (c # s) =
     (if take 3 (c # s) = ''{n}'' then a @ replace_n_max a b (drop 3 (c # s))
      else if take 5 (c # s) = ''{max}'' then b @ replace_n_max a b (drop 5 (c # s))
      else c # replace_n_max a b s)"
  by pat_completeness auto
termination by (relation "measure (\<lambda>(a, b, s). length s)") auto

definition DefaultBatchRejectMessage :: string where "DefaultBatchRejectMessage = ''batch has {n} payloads, limit is {max}''"

definition rejectMessage :: "(service_id \<Rightarrow> string) option \<Rightarrow> service_id \<Rightarrow> nat \<Rightarrow> nat \<Rightarrow> string" where
  "rejectMessage rejectText sid n mx =
     (let tmpl = (case rejectText of None \<Rightarrow> DefaultBatchRejectMessage | Some f \<Rightarrow> if f sid \<noteq> [] then f sid else DefaultBatchRejectMessage)
      in replace_n_max (decimal n) (decimal mx) tmpl)"

section \<open>Model: the body\<close>

definition appendItem :: "string option \<Rightarrow> string option" where
  "appendItem r = (case r of None \<Rightarrow> Some ''null'' | Some j \<Rightarrow> map_option json_HTMLEscape (json_Compact j))"

fun merge_items :: "nat \<Rightarrow> string option list \<Rightarrow> string option" where
  "merge_items i [] = Some []"
| "merge_items i (r # rs) =
     (case appendItem r of
        None \<Rightarrow> None
      | Some t \<Rightarrow> map_option (\<lambda>rest. (if i > 0 then '','' else []) @ t @ rest) (merge_items (Suc i) rs))"

definition mergeBatch :: "string option list \<Rightarrow> string option" where
  "mergeBatch results = map_option (\<lambda>t. ''['' @ t @ '']'') (merge_items 0 results)"

section \<open>Model: one payload's relay\<close>

definition batch_sub :: "Context \<Rightarrow> Payload \<Rightarrow> Context" where
  "batch_sub c p = c\<lparr>cx_Payloads := [p], cx_BatchSize := length (cx_Payloads c), cx_Response := None, cx_Err := None, cx_HeuristicResult := None\<rparr>"

definition node_answer :: "json_id \<Rightarrow> Context \<Rightarrow> go_error option \<Rightarrow> bool" where
  "node_answer gid sub err \<longleftrightarrow>
     (case (err, cx_Response sub) of
        (Some e, Some r) \<Rightarrow> error_is e ErrRetryVerdict \<and> \<not> SupplierPage json_Valid sub \<and> JSONRPCRequestID gid (Body r) \<noteq> []
      | _ \<Rightarrow> False)"

definition batch_item :: "json_id \<Rightarrow> Payload \<Rightarrow> Context \<Rightarrow> go_error option \<Rightarrow> string \<times> int" where
  "batch_item gid p sub err =
     (if err \<noteq> None \<and> \<not> node_answer gid sub err then (jsonRPCErrorItem (JSONRPCID gid p) (ClientMessage err), 0)
      else case cx_Response sub of
        None \<Rightarrow> (jsonRPCErrorItem (JSONRPCID gid p) ''endpoint error: empty response'', 0)
      | Some r \<Rightarrow>
          if Body r = [] then (jsonRPCErrorItem (JSONRPCID gid p) ''endpoint error: empty response'', 0)
          else (Body r, int (length (Body r))))"

section \<open>Model: dispatch and collection\<close>

record batch_job =
  bj_payloads :: "Payload list"
  bj_gid :: json_id
  bj_streaming :: bool
  bj_window :: "nat option"
  bj_local :: "nat option"
  bj_global :: bool
  bj_ctxErr :: string
  bj_opens :: bool
  bj_writes :: "nat \<Rightarrow> bool"
  bj_gone :: "nat \<Rightarrow> bool"

text \<open>The channels a batch makes, from the limits: the total budget, the cap on payloads, the batch's own ceiling, the window.\<close>

definition local_of :: "int \<Rightarrow> nat \<Rightarrow> nat option" where
  "local_of maxPerBatch n = (if 0 < maxPerBatch \<and> int n > maxPerBatch then Some (nat maxPerBatch) else None)"

definition window_of :: "bool \<Rightarrow> int \<Rightarrow> int \<Rightarrow> nat option" where
  "window_of streaming maxPerBatch maxWindow =
     (if streaming \<and> 0 < maxPerBatch \<and> 0 \<le> maxWindow then Some (nat (maxPerBatch + maxWindow)) else None)"

datatype slot_kind = Window | Local | Global

record batch_state =
  bs_index :: nat
  bs_slot :: slot_kind
  bs_windowUsed :: nat
  bs_localUsed :: nat
  bs_semUsed :: nat
  bs_cancelled :: bool
  bs_running :: "nat list"
  bs_started :: "bool list"
  bs_results :: "string option list"
  bs_sizes :: "int list"
  bs_held :: int
  bs_degraded :: bool
  bs_ready :: "nat list"
  bs_received :: nat
  bs_done :: "bool list"
  bs_nextOut :: nat
  bs_abandoned :: bool
  bs_out :: "string list"

definition batch_size :: "batch_job \<Rightarrow> nat" where "batch_size j = length (bj_payloads j)"

definition batch_start :: "batch_job \<Rightarrow> batch_state" where
  "batch_start j =
     (let n = batch_size j; lost = bj_streaming j \<and> \<not> bj_opens j in
      \<lparr>bs_index = 0, bs_slot = Window, bs_windowUsed = 0, bs_localUsed = 0, bs_semUsed = 0, bs_cancelled = lost, bs_running = [],
       bs_started = replicate n False, bs_results = replicate n None, bs_sizes = replicate n 0, bs_held = 0, bs_degraded = False,
       bs_ready = [], bs_received = 0, bs_done = replicate n False, bs_nextOut = 0, bs_abandoned = lost,
       bs_out = (if bj_streaming j \<and> bj_opens j then [''[''] else [])\<rparr>)"

text \<open>Whether a slot is taken: at once refused when the context had ended, otherwise the first of a free slot and the end of the
  context, any of the two when both are there, and a wait when neither is.\<close>

definition acquire :: "bool \<Rightarrow> bool \<Rightarrow> bool \<Rightarrow> bool \<Rightarrow> bool option" where
  "acquire ended free over pick =
     (if ended then Some False else if free \<and> over then Some pick else if free then Some True else if over then Some False else None)"

definition take_slot :: "batch_job \<Rightarrow> batch_state \<Rightarrow> bool \<Rightarrow> bool \<Rightarrow> bool \<Rightarrow> bool option" where
  "take_slot j s ended globalFree pick =
     (case bs_slot s of
        Window \<Rightarrow> (case bj_window j of None \<Rightarrow> Some True | Some k \<Rightarrow> acquire ended (bs_windowUsed s < k) (bs_cancelled s) pick)
      | Local \<Rightarrow> (case bj_local j of None \<Rightarrow> Some True | Some k \<Rightarrow> acquire ended (bs_localUsed s < k) (bs_cancelled s) pick)
      | Global \<Rightarrow> if \<not> bj_global j then Some True else acquire ended globalFree (bs_cancelled s) pick)"

definition got_slot :: "batch_job \<Rightarrow> batch_state \<Rightarrow> batch_state" where
  "got_slot j s =
     (case bs_slot s of
        Window \<Rightarrow> s\<lparr>bs_slot := Local, bs_windowUsed := bs_windowUsed s + (if bj_window j = None then 0 else 1)\<rparr>
      | Local \<Rightarrow> s\<lparr>bs_slot := Global, bs_localUsed := bs_localUsed s + (if bj_local j = None then 0 else 1)\<rparr>
      | Global \<Rightarrow> s\<lparr>bs_slot := Window, bs_semUsed := bs_semUsed s + (if bj_global j then 1 else 0), bs_index := Suc (bs_index s),
           bs_started := (bs_started s)[bs_index s := True], bs_running := bs_running s @ [bs_index s]\<rparr>)"

definition not_started :: "batch_job \<Rightarrow> nat \<Rightarrow> string" where
  "not_started j i = jsonRPCErrorItem (JSONRPCID (bj_gid j) (bj_payloads j ! i)) (''batch payload not started: '' @ bj_ctxErr j)"

definition refuse_rest :: "batch_job \<Rightarrow> batch_state \<Rightarrow> batch_state" where
  "refuse_rest j s =
     (let n = batch_size j; i = bs_index s in
      s\<lparr>bs_slot := Window,
        bs_localUsed := bs_localUsed s - (if bs_slot s = Global \<and> bj_local j \<noteq> None then 1 else 0),
        bs_windowUsed := bs_windowUsed s - (if bs_slot s \<noteq> Window \<and> bj_window j \<noteq> None then 1 else 0),
        bs_results := take i (bs_results s) @ map (\<lambda>k. Some (not_started j k)) [i..<n],
        bs_ready := bs_ready s @ [i..<n], bs_index := n\<rparr>)"

definition finish :: "batch_job \<Rightarrow> nat \<Rightarrow> Context \<Rightarrow> go_error option \<Rightarrow> batch_state \<Rightarrow> batch_state" where
  "finish j i sub err s =
     (let (r, sz) = batch_item (bj_gid j) (bj_payloads j ! i) sub err in
      s\<lparr>bs_running := remove1 i (bs_running s),
        bs_semUsed := bs_semUsed s - (if bj_global j then 1 else 0),
        bs_localUsed := bs_localUsed s - (if bj_local j = None then 0 else 1),
        bs_degraded := bs_degraded s \<or> cx_Degraded sub,
        bs_results := (bs_results s)[i := Some r], bs_sizes := (bs_sizes s)[i := sz], bs_held := bs_held s + sz,
        bs_ready := bs_ready s @ [i]\<rparr>)"

definition stream_chunk :: "batch_job \<Rightarrow> nat \<Rightarrow> string option \<Rightarrow> string" where
  "stream_chunk j i r =
     (if i > 0 then '','' else []) @
     (case appendItem r of
        Some t \<Rightarrow> t
      | None \<Rightarrow>
          (case appendItem (Some (jsonRPCErrorItem (JSONRPCID (bj_gid j) (bj_payloads j ! i)) ''endpoint error: response is not JSON'')) of
             Some t \<Rightarrow> t | None \<Rightarrow> []))"

definition write_item :: "batch_job \<Rightarrow> batch_state \<Rightarrow> batch_state" where
  "write_item j s =
     (let i = bs_nextOut s in
      if \<not> bj_streaming j then s\<lparr>bs_nextOut := Suc i\<rparr>
      else
        let lost = bs_abandoned s \<or> bj_gone j i; ok = (\<not> lost \<and> bj_writes j i) in
        s\<lparr>bs_out := bs_out s @ (if ok then [stream_chunk j i (bs_results s ! i)] else []),
          bs_abandoned := \<not> ok, bs_cancelled := bs_cancelled s \<or> \<not> ok,
          bs_results := (bs_results s)[i := None], bs_held := bs_held s - bs_sizes s ! i,
          bs_windowUsed := bs_windowUsed s - (if bj_window j \<noteq> None \<and> bs_started s ! i then 1 else 0),
          bs_nextOut := Suc i\<rparr>)"

lemma write_item_nextOut [simp]: "bs_nextOut (write_item j s) = Suc (bs_nextOut s)"
  by (simp add: write_item_def Let_def)

function write_ready :: "batch_job \<Rightarrow> batch_state \<Rightarrow> batch_state" where
  "write_ready j s =
     (if bs_nextOut s < batch_size j \<and> bs_done s ! bs_nextOut s then write_ready j (write_item j s) else s)"
  by pat_completeness auto
termination by (relation "measure (\<lambda>(j, s). batch_size j - bs_nextOut s)") auto

declare write_ready.simps [simp del]

definition receive :: "batch_job \<Rightarrow> batch_state \<Rightarrow> batch_state" where
  "receive j s =
     (let i = hd (bs_ready s) in
      write_ready j (s\<lparr>bs_ready := tl (bs_ready s), bs_received := Suc (bs_received s), bs_done := (bs_done s)[i := True]\<rparr>))"

datatype batch_event = Acquire bool bool bool | Finish nat Context "go_error option" | Receive | CtxEnds

text \<open>A step is \<open>None\<close> when the event cannot happen in the state.\<close>

fun batch_step :: "batch_job \<Rightarrow> batch_state \<Rightarrow> batch_event \<Rightarrow> batch_state option" where
  "batch_step j s (Acquire ended globalFree pick) =
     (if bs_index s \<ge> batch_size j \<or> (ended \<and> \<not> bs_cancelled s) then None
      else map_option (\<lambda>got. if got then got_slot j s else refuse_rest j s) (take_slot j s ended globalFree pick))"
| "batch_step j s (Finish i sub err) = (if i \<in> set (bs_running s) then Some (finish j i sub err s) else None)"
| "batch_step j s Receive = (if bs_ready s \<noteq> [] \<and> bs_received s < batch_size j then Some (receive j s) else None)"
| "batch_step j s CtxEnds = (if bs_cancelled s then None else Some (s\<lparr>bs_cancelled := True\<rparr>))"

definition batch_over :: "batch_job \<Rightarrow> batch_state \<Rightarrow> bool" where
  "batch_over j s \<longleftrightarrow> bs_received s = batch_size j"

text \<open>What the client is given once every index was received: a body, or the pieces on the wire.\<close>

definition batch_body :: "batch_job \<Rightarrow> batch_state \<Rightarrow> string" where
  "batch_body j s =
     (if bj_streaming j then concat (bs_out s) @ (if bs_abandoned s then [] else '']'')
      else case mergeBatch (bs_results s) of
        Some b \<Rightarrow> b
      | None \<Rightarrow> json_object [(''error'', json_string ''failed to combine batch responses'')])"

definition batch_end :: "batch_job \<Rightarrow> batch_state \<Rightarrow> Context \<Rightarrow> Context" where
  "batch_end j s c =
     c\<lparr>cx_Degraded := cx_Degraded c \<or> bs_degraded s,
       cx_Response := Some \<lparr>Body = (if bj_streaming j then [] else batch_body j s), HTTPStatusCode = 200, rs_EndpointAddr = []\<rparr>\<rparr>"

section \<open>Model: admission\<close>

text \<open>The global budget: a channel of the size the limits name, kept while that size stays. Another request may put its own in
  place at the same moment; then that one is used.\<close>

record budget =
  bu_id :: nat
  bu_cap :: int

definition semFor :: "int \<Rightarrow> budget option \<Rightarrow> nat \<Rightarrow> budget option \<Rightarrow> budget option \<times> budget option" where
  "semFor maxConcurrentRelays cur fresh raced =
     (if maxConcurrentRelays \<le> 0 then (None, cur)
      else case cur of
        Some b \<Rightarrow>
          if bu_cap b = maxConcurrentRelays then (Some b, cur)
          else (case raced of None \<Rightarrow> let b' = \<lparr>bu_id = fresh, bu_cap = maxConcurrentRelays\<rparr> in (Some b', Some b') | Some r \<Rightarrow> (Some r, Some r))
      | None \<Rightarrow>
          (case raced of None \<Rightarrow> let b' = \<lparr>bu_id = fresh, bu_cap = maxConcurrentRelays\<rparr> in (Some b', Some b') | Some r \<Rightarrow> (Some r, Some r)))"

record batch_limits =
  maxConcurrentRelays :: int
  maxPayloads :: int
  maxPerBatch :: int
  maxWindow :: int

datatype batch_admission = PassThrough | Refused int go_error | FanOut batch_job

definition admit :: "batch_limits \<Rightarrow> (service_id \<Rightarrow> string) option \<Rightarrow> json_id \<Rightarrow> bool \<Rightarrow> string \<Rightarrow> bool \<Rightarrow> (nat \<Rightarrow> bool) \<Rightarrow> (nat \<Rightarrow> bool) \<Rightarrow>
    Context \<Rightarrow> batch_admission" where
  "admit lm rejectText gid streaming ctxErr opens writes gone c =
     (let n = length (cx_Payloads c) in
      if n \<le> 1 then PassThrough
      else if 0 < maxPayloads lm \<and> int n > maxPayloads lm
      then Refused 413 (RelayError ErrValidation (rejectMessage rejectText (cx_ServiceID c) n (nat (maxPayloads lm))) None False)
      else FanOut \<lparr>bj_payloads = cx_Payloads c, bj_gid = gid, bj_streaming = streaming,
             bj_window = window_of streaming (maxPerBatch lm) (maxWindow lm), bj_local = local_of (maxPerBatch lm) n,
             bj_global = (0 < maxConcurrentRelays lm), bj_ctxErr = ctxErr, bj_opens = opens, bj_writes = writes, bj_gone = gone\<rparr>)"

section \<open>Lemmas: the runs of a batch\<close>

text \<open>A run carries its events and the answer each item was given, which the machine forgets once it is written.\<close>

definition keep_answers :: "(nat \<Rightarrow> string option) \<Rightarrow> batch_state \<Rightarrow> nat \<Rightarrow> string option" where
  "keep_answers g s = (\<lambda>i. if g i = None \<and> i < length (bs_results s) then bs_results s ! i else g i)"

inductive batch_run :: "batch_job \<Rightarrow> batch_event list \<Rightarrow> (nat \<Rightarrow> string option) \<Rightarrow> batch_state \<Rightarrow> bool" for j where
  batch_begin: "batch_run j [] (\<lambda>_. None) (batch_start j)"
| batch_next: "batch_run j evs g s \<Longrightarrow> batch_step j s ev = Some s' \<Longrightarrow> batch_run j (evs @ [ev]) (keep_answers g s') s'"

definition job_ok :: "batch_job \<Rightarrow> bool" where
  "job_ok j \<longleftrightarrow> (\<forall>k. bj_window j = Some k \<longrightarrow> 0 < k \<and> bj_streaming j) \<and> (\<forall>k. bj_local j = Some k \<longrightarrow> 0 < k)"

lemma admit_job_ok: "admit lm rejectText gid streaming ctxErr opens writes gone c = FanOut j \<Longrightarrow> job_ok j"
  by (auto simp: admit_def Let_def job_ok_def window_of_def local_of_def split: if_splits)

definition done_set :: "batch_state \<Rightarrow> nat set" where
  "done_set s = {i. i < length (bs_done s) \<and> bs_done s ! i}"

text \<open>Every item before the dispatcher's index is in exactly one place.\<close>

definition places :: "batch_job \<Rightarrow> batch_state \<Rightarrow> bool" where
  "places j s \<longleftrightarrow> length (bs_started s) = batch_size j \<and> length (bs_results s) = batch_size j \<and> length (bs_sizes s) = batch_size j \<and>
     length (bs_done s) = batch_size j \<and> bs_index s \<le> batch_size j \<and>
     distinct (bs_running s) \<and> distinct (bs_ready s) \<and> set (bs_running s) \<inter> set (bs_ready s) = {} \<and>
     set (bs_running s) \<inter> done_set s = {} \<and> set (bs_ready s) \<inter> done_set s = {} \<and>
     set (bs_running s) \<union> set (bs_ready s) \<union> done_set s = {..<bs_index s} \<and> bs_received s = card (done_set s) \<and>
     bs_nextOut s \<le> batch_size j \<and> (\<forall>i < bs_nextOut s. i \<in> done_set s) \<and>
     (\<forall>i < batch_size j. bs_started s ! i \<longrightarrow> i < bs_index s) \<and> (\<forall>i \<in> set (bs_running s). bs_started s ! i)"

definition unwritten :: "batch_job \<Rightarrow> batch_state \<Rightarrow> nat set" where
  "unwritten j s = {i. bs_nextOut s \<le> i \<and> i < batch_size j \<and> bs_started s ! i}"

text \<open>The slots a batch holds.\<close>

definition slots :: "batch_job \<Rightarrow> batch_state \<Rightarrow> bool" where
  "slots j s \<longleftrightarrow>
     (\<forall>k. bj_window j = Some k \<longrightarrow> bs_windowUsed s = card (unwritten j s) + (if bs_slot s = Window then 0 else 1) \<and> bs_windowUsed s \<le> k) \<and>
     (\<forall>k. bj_local j = Some k \<longrightarrow> bs_localUsed s = length (bs_running s) + (if bs_slot s = Global then 1 else 0) \<and> bs_localUsed s \<le> k) \<and>
     (bj_global j \<longrightarrow> bs_semUsed s = length (bs_running s)) \<and> (bs_index s = batch_size j \<longrightarrow> bs_slot s = Window)"

text \<open>The answers: kept until they are written, and written in order.\<close>

definition answers :: "batch_job \<Rightarrow> (nat \<Rightarrow> string option) \<Rightarrow> batch_state \<Rightarrow> bool" where
  "answers j g s \<longleftrightarrow>
     (\<forall>i < batch_size j. (g i \<noteq> None \<longleftrightarrow> i \<in> set (bs_ready s) \<union> done_set s) \<and>
        bs_results s ! i = (if bj_streaming j \<and> i < bs_nextOut s then None else g i) \<and> (g i = None \<longrightarrow> bs_sizes s ! i = 0)) \<and>
     bs_held s = (\<Sum>i = (if bj_streaming j then bs_nextOut s else 0)..<batch_size j. bs_sizes s ! i) \<and>
     (bj_streaming j \<and> \<not> bs_abandoned s \<longrightarrow>
        concat (bs_out s) = ''['' @ concat (map (\<lambda>i. stream_chunk j i (g i)) [0..<bs_nextOut s]))"

lemma keep_answers_eq:
  assumes "answers j g s" and "bs_results s' = bs_results s" and "places j s" and "bs_nextOut s = bs_nextOut s'"
  shows "keep_answers g s' i = g i"
  using assms by (auto simp: keep_answers_def answers_def places_def)

lemma places_start: "places j (batch_start j)"
  by (auto simp: places_def batch_start_def Let_def done_set_def)

lemma slots_start: "slots j (batch_start j)"
  by (auto simp: slots_def batch_start_def Let_def unwritten_def)

lemma answers_start: "answers j (\<lambda>_. None) (batch_start j)"
  by (auto simp: answers_def batch_start_def Let_def done_set_def)

subsection \<open>The dispatcher\<close>

lemma nextOut_le_index:
  assumes "places j s"
  shows "bs_nextOut s \<le> bs_index s"
proof (rule ccontr)
  assume "\<not> ?thesis"
  then have "bs_index s \<in> done_set s" using assms by (simp add: places_def)
  then have "bs_index s \<in> {..<bs_index s}" using assms unfolding places_def by blast
  then show False by simp
qed

lemma done_set_cong: "bs_done s' = bs_done s \<Longrightarrow> done_set s' = done_set s"
  by (simp add: done_set_def)

lemma places_got:
  assumes p: "places j s" and i: "bs_index s < batch_size j"
  shows "places j (got_slot j s)"
proof (cases "bs_slot s = Global")
  case True
  let ?t = "got_slot j s"
  note pp = p [unfolded places_def]
  have u: "set (bs_running s) \<union> set (bs_ready s) \<union> done_set s = {..<bs_index s}" using pp by blast
  have new: "bs_index s \<notin> set (bs_running s)" "bs_index s \<notin> set (bs_ready s)" "bs_index s \<notin> done_set s" using u by blast+
  have f: "bs_started ?t = (bs_started s)[bs_index s := True]" "bs_results ?t = bs_results s" "bs_sizes ?t = bs_sizes s" "bs_done ?t = bs_done s"
      "bs_index ?t = Suc (bs_index s)" "bs_running ?t = bs_running s @ [bs_index s]" "bs_ready ?t = bs_ready s" "bs_received ?t = bs_received s"
      "bs_nextOut ?t = bs_nextOut s"
    using True by (simp_all add: got_slot_def)
  have s1: "set (bs_running s @ [bs_index s]) = insert (bs_index s) (set (bs_running s))" by simp
  have s2: "insert (bs_index s) (set (bs_running s)) \<union> set (bs_ready s) \<union> done_set s = {..<Suc (bs_index s)}"
    using u by (simp add: lessThan_Suc)
  have s3: "\<forall>k < batch_size j. (bs_started s)[bs_index s := True] ! k \<longrightarrow> k < Suc (bs_index s)"
    using pp by (auto simp: nth_list_update less_Suc_eq)
  have s4: "\<forall>k \<in> insert (bs_index s) (set (bs_running s)). (bs_started s)[bs_index s := True] ! k"
    using pp i by (auto simp: nth_list_update)
  show ?thesis unfolding places_def f s1 done_set_cong [OF f(4)] using pp i new s2 s3 s4 by simp
next
  case False
  let ?t = "got_slot j s"
  have f: "bs_started ?t = bs_started s" "bs_results ?t = bs_results s" "bs_sizes ?t = bs_sizes s" "bs_done ?t = bs_done s"
      "bs_index ?t = bs_index s" "bs_running ?t = bs_running s" "bs_ready ?t = bs_ready s" "bs_received ?t = bs_received s"
      "bs_nextOut ?t = bs_nextOut s"
    using False by (simp_all add: got_slot_def split: slot_kind.splits)
  show ?thesis using p unfolding places_def f done_set_cong [OF f(4)] .
qed

lemma unwritten_got:
  assumes p: "places j s" and i: "bs_index s < batch_size j" and g: "bs_slot s = Global"
  shows "card (unwritten j (got_slot j s)) = Suc (card (unwritten j s))"
proof -
  have l: "length (bs_started s) = batch_size j" and st: "\<forall>k < batch_size j. bs_started s ! k \<longrightarrow> k < bs_index s" using p by (simp_all add: places_def)
  have "unwritten j (got_slot j s) = insert (bs_index s) (unwritten j s)"
    using g i l nextOut_le_index [OF p] by (auto simp: unwritten_def got_slot_def nth_list_update)
  moreover have "bs_index s \<notin> unwritten j s" using st by (auto simp: unwritten_def)
  moreover have "finite (unwritten j s)" by (simp add: unwritten_def)
  ultimately show ?thesis by simp
qed

lemma slots_got:
  assumes p: "places j s" and q: "slots j s" and i: "bs_index s < batch_size j"
    and t: "take_slot j s ended globalFree pick = Some True"
  shows "slots j (got_slot j s)"
proof (cases "bs_slot s")
  case Window
  then have w: "bs_windowUsed s < k" if "bj_window j = Some k" for k
    using t that by (auto simp: take_slot_def acquire_def split: if_splits)
  show ?thesis using Window q i w by (auto simp: slots_def got_slot_def unwritten_def)
next
  case Local
  then have w: "bs_localUsed s < k" if "bj_local j = Some k" for k
    using t that by (auto simp: take_slot_def acquire_def split: if_splits)
  show ?thesis using Local q i w by (auto simp: slots_def got_slot_def unwritten_def)
next
  case Global
  show ?thesis using q Global unwritten_got [OF p i Global] by (auto simp: slots_def) (auto simp: got_slot_def)
qed

lemma answers_got:
  assumes p: "places j s" and a: "answers j g s"
  shows "answers j (keep_answers g (got_slot j s)) (got_slot j s)"
proof -
  have k: "keep_answers g (got_slot j s) = g"
    by (rule ext, rule keep_answers_eq [OF a _ p]) (simp_all add: got_slot_def split: slot_kind.splits)
  let ?t = "got_slot j s"
  have f: "bs_results ?t = bs_results s" "bs_sizes ?t = bs_sizes s" "bs_done ?t = bs_done s" "bs_ready ?t = bs_ready s" "bs_nextOut ?t = bs_nextOut s"
      "bs_held ?t = bs_held s" "bs_out ?t = bs_out s" "bs_abandoned ?t = bs_abandoned s"
    by (simp_all add: got_slot_def split: slot_kind.splits)
  show ?thesis unfolding k using a unfolding answers_def f done_set_cong [OF f(3)] .
qed

lemma places_refuse:
  assumes p: "places j s" and i: "bs_index s < batch_size j"
  shows "places j (refuse_rest j s)"
proof -
  let ?t = "refuse_rest j s"
  have u: "set (bs_running s) \<union> set (bs_ready s) \<union> done_set s = {..<bs_index s}" using p by (simp add: places_def)
  have d: "done_set (refuse_rest j s) = done_set s" by (simp add: refuse_rest_def done_set_def Let_def)
  have "set (bs_running s) \<union> set (bs_ready s @ [bs_index s..<batch_size j]) \<union> done_set s = {..<batch_size j}"
  proof -
    have "set (bs_running s) \<union> set (bs_ready s @ [bs_index s..<batch_size j]) \<union> done_set s =
        (set (bs_running s) \<union> set (bs_ready s) \<union> done_set s) \<union> {bs_index s..<batch_size j}" by auto
    also have "\<dots> = {..<batch_size j}" unfolding u using i by auto
    finally show ?thesis .
  qed
  moreover have "set (bs_running s) \<inter> {bs_index s..<batch_size j} = {}" "set (bs_ready s) \<inter> {bs_index s..<batch_size j} = {}"
      "{bs_index s..<batch_size j} \<inter> done_set s = {}"
  proof -
    have "(set (bs_running s) \<union> set (bs_ready s) \<union> done_set s) \<inter> {bs_index s..<batch_size j} = {}" unfolding u by auto
    then show "set (bs_running s) \<inter> {bs_index s..<batch_size j} = {}" "set (bs_ready s) \<inter> {bs_index s..<batch_size j} = {}"
        "{bs_index s..<batch_size j} \<inter> done_set s = {}" by blast+
  qed
  moreover have f: "bs_started ?t = bs_started s" "length (bs_results ?t) = batch_size j" "bs_sizes ?t = bs_sizes s" "bs_done ?t = bs_done s"
      "bs_index ?t = batch_size j" "bs_running ?t = bs_running s" "bs_ready ?t = bs_ready s @ [bs_index s..<batch_size j]" "bs_received ?t = bs_received s"
      "bs_nextOut ?t = bs_nextOut s"
    using p i by (simp_all add: refuse_rest_def Let_def places_def)
  moreover have "distinct (bs_ready s @ [bs_index s..<batch_size j])" "set (bs_running s) \<inter> set (bs_ready s @ [bs_index s..<batch_size j]) = {}"
      "set (bs_ready s @ [bs_index s..<batch_size j]) \<inter> done_set s = {}"
    using calculation(2-4) p by (simp_all add: places_def Int_Un_distrib Int_Un_distrib2)
  ultimately show ?thesis using p unfolding places_def d f by simp
qed

lemma slots_refuse:
  assumes p: "places j s" and q: "slots j s"
  shows "slots j (refuse_rest j s)"
proof -
  have "unwritten j (refuse_rest j s) = unwritten j s" by (simp add: unwritten_def refuse_rest_def Let_def)
  then show ?thesis using q by (cases "bs_slot s") (auto simp: slots_def refuse_rest_def Let_def)
qed

lemma answers_refuse:
  assumes p: "places j s" and a: "answers j g s" and i: "bs_index s < batch_size j"
  shows "answers j (keep_answers g (refuse_rest j s)) (refuse_rest j s)"
proof -
  have u: "set (bs_running s) \<union> set (bs_ready s) \<union> done_set s = {..<bs_index s}" and l: "length (bs_results s) = batch_size j"
    using p by (simp_all add: places_def)
  let ?s = "refuse_rest j s"
  have d: "done_set ?s = done_set s" by (simp add: refuse_rest_def done_set_def Let_def)
  have f: "bs_nextOut ?s = bs_nextOut s" "bs_sizes ?s = bs_sizes s" "bs_held ?s = bs_held s" "bs_out ?s = bs_out s" "bs_abandoned ?s = bs_abandoned s"
      "set (bs_ready ?s) = set (bs_ready s) \<union> {bs_index s..<batch_size j}"
    by (auto simp: refuse_rest_def Let_def)
  have r: "length (bs_results ?s) = batch_size j"
      "bs_results ?s ! k = (if k < bs_index s then bs_results s ! k else Some (not_started j k))" if "k < batch_size j" for k
    using that l i by (auto simp: refuse_rest_def Let_def nth_append)
  have old: "g k \<noteq> None \<Longrightarrow> k < bs_index s" if "k < batch_size j" for k using a u that by (auto simp: answers_def)
  have keep: "keep_answers g ?s k = (if k < bs_index s then g k else Some (not_started j k))" if "k < batch_size j" for k
    using that r [OF that] old [OF that] a by (auto simp: keep_answers_def answers_def)
  have no: "bs_nextOut s \<le> bs_index s" by (rule nextOut_le_index [OF p])
  have m: "map (\<lambda>k. stream_chunk j k (keep_answers g ?s k)) [0..<bs_nextOut s] = map (\<lambda>k. stream_chunk j k (g k)) [0..<bs_nextOut s]"
    using keep no i by simp
  have "\<forall>k < batch_size j. (keep_answers g ?s k \<noteq> None \<longleftrightarrow> k \<in> set (bs_ready ?s) \<union> done_set ?s) \<and>
        bs_results ?s ! k = (if bj_streaming j \<and> k < bs_nextOut ?s then None else keep_answers g ?s k) \<and> (keep_answers g ?s k = None \<longrightarrow> bs_sizes ?s ! k = 0)"
  proof (intro allI impI)
    fix k assume k: "k < batch_size j"
    have "k < bs_index s \<or> k \<notin> set (bs_ready s) \<union> done_set s" using u by blast
    then show "(keep_answers g ?s k \<noteq> None \<longleftrightarrow> k \<in> set (bs_ready ?s) \<union> done_set ?s) \<and>
        bs_results ?s ! k = (if bj_streaming j \<and> k < bs_nextOut ?s then None else keep_answers g ?s k) \<and> (keep_answers g ?s k = None \<longrightarrow> bs_sizes ?s ! k = 0)"
      unfolding f d keep [OF k] r(2) [OF k] using a k no by (auto simp: answers_def)
  qed
  then show ?thesis using a unfolding answers_def f(1-5) m by blast
qed

subsection \<open>A relay ends\<close>

lemma finish_fields:
  "bs_started (finish j i sub err s) = bs_started s" "bs_done (finish j i sub err s) = bs_done s" "bs_index (finish j i sub err s) = bs_index s"
  "bs_running (finish j i sub err s) = remove1 i (bs_running s)" "bs_ready (finish j i sub err s) = bs_ready s @ [i]"
  "bs_received (finish j i sub err s) = bs_received s" "bs_nextOut (finish j i sub err s) = bs_nextOut s"
  "bs_results (finish j i sub err s) = (bs_results s)[i := Some (fst (batch_item (bj_gid j) (bj_payloads j ! i) sub err))]"
  "bs_sizes (finish j i sub err s) = (bs_sizes s)[i := snd (batch_item (bj_gid j) (bj_payloads j ! i) sub err)]"
  "bs_held (finish j i sub err s) = bs_held s + snd (batch_item (bj_gid j) (bj_payloads j ! i) sub err)"
  "bs_out (finish j i sub err s) = bs_out s" "bs_abandoned (finish j i sub err s) = bs_abandoned s" "bs_slot (finish j i sub err s) = bs_slot s"
  "bs_windowUsed (finish j i sub err s) = bs_windowUsed s" "bs_cancelled (finish j i sub err s) = bs_cancelled s"
  by (simp_all add: finish_def case_prod_beta Let_def)

lemma running_item:
  assumes p: "places j s" and r: "i \<in> set (bs_running s)"
  shows "i < bs_index s" "i < batch_size j" "i \<notin> set (bs_ready s)" "i \<notin> done_set s" "bs_nextOut s \<le> i"
proof -
  have "i \<in> {..<bs_index s}" using p r unfolding places_def by blast
  then show "i < bs_index s" "i < batch_size j" using p by (simp_all add: places_def)
  show n: "i \<notin> set (bs_ready s)" "i \<notin> done_set s" using p r unfolding places_def by blast+
  show "bs_nextOut s \<le> i"
  proof (rule ccontr)
    assume "\<not> ?thesis"
    then have "i \<in> done_set s" using p by (simp add: places_def)
    then show False using n by simp
  qed
qed

lemma places_finish:
  assumes p: "places j s" and r: "i \<in> set (bs_running s)"
  shows "places j (finish j i sub err s)"
proof -
  note pp = p [unfolded places_def]
  note n = running_item [OF p r]
  have s1: "set (remove1 i (bs_running s)) = set (bs_running s) - {i}" "set (bs_ready s @ [i]) = insert i (set (bs_ready s))"
    using pp by (simp_all)
  have "(set (bs_running s) - {i}) \<union> insert i (set (bs_ready s)) \<union> done_set s = set (bs_running s) \<union> set (bs_ready s) \<union> done_set s"
    using r by blast
  moreover have "(set (bs_running s) - {i}) \<inter> insert i (set (bs_ready s)) = {}" "(set (bs_running s) - {i}) \<inter> done_set s = {}"
      "insert i (set (bs_ready s)) \<inter> done_set s = {}"
    using pp n by blast+
  moreover have "distinct (remove1 i (bs_running s))" "distinct (bs_ready s @ [i])" using pp n by simp_all
  ultimately show ?thesis using pp unfolding places_def finish_fields s1 done_set_cong [OF finish_fields(2)] by simp
qed

lemma slots_finish:
  assumes p: "places j s" and q: "slots j s" and r: "i \<in> set (bs_running s)"
  shows "slots j (finish j i sub err s)"
proof -
  have u: "unwritten j (finish j i sub err s) = unwritten j s" by (simp add: unwritten_def finish_fields)
  have l: "length (bs_running s) = Suc (length (remove1 i (bs_running s)))" using r by (simp add: length_remove1) (metis length_pos_if_in_set Suc_pred)
  have f: "bs_localUsed (finish j i sub err s) = bs_localUsed s - (if bj_local j = None then 0 else 1)"
      "bs_semUsed (finish j i sub err s) = bs_semUsed s - (if bj_global j then 1 else 0)"
    by (simp_all add: finish_def case_prod_beta Let_def)
  show ?thesis using q l unfolding slots_def finish_fields u f by auto
qed

lemma answers_finish:
  assumes p: "places j s" and a: "answers j g s" and r: "i \<in> set (bs_running s)"
  shows "answers j (keep_answers g (finish j i sub err s)) (finish j i sub err s)"
proof -
  let ?t = "finish j i sub err s"
  let ?it = "batch_item (bj_gid j) (bj_payloads j ! i) sub err"
  note n = running_item [OF p r]
  have l: "length (bs_results s) = batch_size j" "length (bs_sizes s) = batch_size j" using p by (simp_all add: places_def)
  note aa = a [unfolded answers_def]
  have gi: "g i = None" "bs_sizes s ! i = 0" using aa n by (auto)
  have keep: "keep_answers g ?t = g(i := Some (fst ?it))"
  proof (rule ext)
    fix k
    show "keep_answers g ?t k = (g(i := Some (fst ?it))) k"
      using aa gi l n(2) by (auto simp: keep_answers_def finish_fields nth_list_update)
  qed
  have m: "map (\<lambda>k. stream_chunk j k ((g(i := Some (fst ?it))) k)) [0..<bs_nextOut s] = map (\<lambda>k. stream_chunk j k (g k)) [0..<bs_nextOut s]"
    using n(5) by simp
  let ?lo = "if bj_streaming j then bs_nextOut s else 0"
  have lo: "i \<in> {?lo..<batch_size j}" using n(2,5) by simp
  have "(\<Sum>k = ?lo..<batch_size j. ((bs_sizes s)[i := snd ?it]) ! k) = snd ?it + (\<Sum>k \<in> {?lo..<batch_size j} - {i}. ((bs_sizes s)[i := snd ?it]) ! k)"
    using sum.remove [OF _ lo, of "\<lambda>k. ((bs_sizes s)[i := snd ?it]) ! k"] l(2) n(2) by simp
  also have "(\<Sum>k \<in> {?lo..<batch_size j} - {i}. ((bs_sizes s)[i := snd ?it]) ! k) = (\<Sum>k \<in> {?lo..<batch_size j} - {i}. bs_sizes s ! k)"
    by (rule sum.cong) auto
  also have "\<dots> = (\<Sum>k = ?lo..<batch_size j. bs_sizes s ! k)"
    using sum.remove [OF _ lo, of "\<lambda>k. bs_sizes s ! k"] gi(2) by simp
  finally have held: "bs_held s + snd ?it = (\<Sum>k = ?lo..<batch_size j. ((bs_sizes s)[i := snd ?it]) ! k)" using aa by simp
  have "\<forall>k < batch_size j. ((g(i := Some (fst ?it))) k \<noteq> None \<longleftrightarrow> k \<in> set (bs_ready s @ [i]) \<union> done_set s) \<and>
      ((bs_results s)[i := Some (fst ?it)]) ! k = (if bj_streaming j \<and> k < bs_nextOut s then None else (g(i := Some (fst ?it))) k) \<and>
      ((g(i := Some (fst ?it))) k = None \<longrightarrow> ((bs_sizes s)[i := snd ?it]) ! k = 0)"
    using aa l n(2,5) by (auto simp: nth_list_update)
  then show ?thesis using aa held unfolding answers_def keep finish_fields done_set_cong [OF finish_fields(2)] m by blast
qed

subsection \<open>The collector\<close>

definition mark_received :: "batch_state \<Rightarrow> batch_state" where
  "mark_received s = s\<lparr>bs_ready := tl (bs_ready s), bs_received := Suc (bs_received s), bs_done := (bs_done s)[hd (bs_ready s) := True]\<rparr>"

lemma receive_unfold: "receive j s = write_ready j (mark_received s)"
  by (simp add: receive_def mark_received_def Let_def)

lemma ready_item:
  assumes p: "places j s" and r: "bs_ready s \<noteq> []"
  shows "hd (bs_ready s) < batch_size j" "hd (bs_ready s) \<notin> done_set s" "done_set (mark_received s) = insert (hd (bs_ready s)) (done_set s)"
    "set (bs_ready s) = insert (hd (bs_ready s)) (set (tl (bs_ready s)))" "hd (bs_ready s) \<notin> set (tl (bs_ready s))"
proof -
  obtain i rest where i: "bs_ready s = i # rest" using r by (cases "bs_ready s") auto
  have "i \<in> {..<bs_index s}" "i \<notin> done_set s" "distinct (i # rest)" using p i unfolding places_def by (metis UnI1 UnI2 list.set_intros(1), auto)
  then show "hd (bs_ready s) < batch_size j" "hd (bs_ready s) \<notin> done_set s" "set (bs_ready s) = insert (hd (bs_ready s)) (set (tl (bs_ready s)))"
      "hd (bs_ready s) \<notin> set (tl (bs_ready s))"
    using i p by (simp_all add: places_def)
  then show "done_set (mark_received s) = insert (hd (bs_ready s)) (done_set s)"
    using p by (auto simp: places_def done_set_def mark_received_def nth_list_update)
qed

lemma places_mark:
  assumes p: "places j s" and r: "bs_ready s \<noteq> []"
  shows "places j (mark_received s)"
proof -
  note pp = p [unfolded places_def]
  note n = ready_item [OF p r]
  let ?i = "hd (bs_ready s)"
  have fin: "finite (done_set s)" by (simp add: done_set_def)
  have "set (bs_running s) \<union> set (tl (bs_ready s)) \<union> insert ?i (done_set s) = set (bs_running s) \<union> set (bs_ready s) \<union> done_set s"
      "set (bs_running s) \<inter> set (tl (bs_ready s)) = {}" "set (bs_running s) \<inter> insert ?i (done_set s) = {}"
      "set (tl (bs_ready s)) \<inter> insert ?i (done_set s) = {}"
    using pp n(2,4,5) by blast+
  moreover have "card (insert ?i (done_set s)) = Suc (card (done_set s))" using fin n(2) by simp
  moreover have f: "bs_started (mark_received s) = bs_started s" "bs_results (mark_received s) = bs_results s" "bs_sizes (mark_received s) = bs_sizes s"
      "length (bs_done (mark_received s)) = length (bs_done s)" "bs_index (mark_received s) = bs_index s" "bs_running (mark_received s) = bs_running s"
      "bs_ready (mark_received s) = tl (bs_ready s)" "bs_received (mark_received s) = Suc (bs_received s)" "bs_nextOut (mark_received s) = bs_nextOut s"
    by (simp_all add: mark_received_def)
  ultimately show ?thesis using pp unfolding places_def f n(3) by (simp add: distinct_tl)
qed

lemma slots_mark:
  assumes "slots j s"
  shows "slots j (mark_received s)"
proof -
  let ?t = "mark_received s"
  have f: "bs_windowUsed ?t = bs_windowUsed s" "bs_localUsed ?t = bs_localUsed s" "bs_semUsed ?t = bs_semUsed s" "bs_slot ?t = bs_slot s"
      "bs_index ?t = bs_index s" "bs_running ?t = bs_running s" "unwritten j ?t = unwritten j s"
    by (simp_all add: mark_received_def unwritten_def)
  show ?thesis using assms unfolding slots_def f .
qed

lemma answers_mark:
  assumes p: "places j s" and a: "answers j g s" and r: "bs_ready s \<noteq> []"
  shows "answers j g (mark_received s)"
proof -
  note n = ready_item [OF p r]
  let ?t = "mark_received s"
  have f: "bs_results ?t = bs_results s" "bs_sizes ?t = bs_sizes s" "bs_nextOut ?t = bs_nextOut s"
      "bs_held ?t = bs_held s" "bs_out ?t = bs_out s" "bs_abandoned ?t = bs_abandoned s" "bs_ready ?t = tl (bs_ready s)"
    by (simp_all add: mark_received_def)
  have "set (tl (bs_ready s)) \<union> insert (hd (bs_ready s)) (done_set s) = set (bs_ready s) \<union> done_set s" using n(4) by blast
  then show ?thesis using a unfolding answers_def f n(3) by simp
qed

lemma write_item_fields:
  "bs_started (write_item j s) = bs_started s" "bs_done (write_item j s) = bs_done s" "bs_index (write_item j s) = bs_index s"
  "bs_running (write_item j s) = bs_running s" "bs_ready (write_item j s) = bs_ready s" "bs_received (write_item j s) = bs_received s"
  "bs_sizes (write_item j s) = bs_sizes s" "bs_slot (write_item j s) = bs_slot s" "bs_localUsed (write_item j s) = bs_localUsed s"
  "bs_semUsed (write_item j s) = bs_semUsed s"
  "bs_results (write_item j s) = (if bj_streaming j then (bs_results s)[bs_nextOut s := None] else bs_results s)"
  "bs_held (write_item j s) = bs_held s - (if bj_streaming j then bs_sizes s ! bs_nextOut s else 0)"
  "bs_windowUsed (write_item j s) = bs_windowUsed s - (if bj_streaming j \<and> bj_window j \<noteq> None \<and> bs_started s ! bs_nextOut s then 1 else 0)"
  by (simp_all add: write_item_def Let_def)

lemma write_item_out:
  assumes "bj_streaming j" and "\<not> bs_abandoned (write_item j s)"
  shows "\<not> bs_abandoned s" "bs_out (write_item j s) = bs_out s @ [stream_chunk j (bs_nextOut s) (bs_results s ! bs_nextOut s)]"
  using assms by (simp_all add: write_item_def Let_def)

lemma places_write:
  assumes p: "places j s" and d: "bs_nextOut s < batch_size j" "bs_done s ! bs_nextOut s"
  shows "places j (write_item j s)"
proof -
  note pp = p [unfolded places_def]
  have "bs_nextOut s \<in> done_set s" using pp d by (simp add: done_set_def)
  then have "\<forall>i < Suc (bs_nextOut s). i \<in> done_set s" using pp by (simp add: less_Suc_eq)
  moreover have "length (if bj_streaming j then (bs_results s)[bs_nextOut s := None] else bs_results s) = batch_size j" using pp by simp
  ultimately show ?thesis using pp d(1) unfolding places_def write_item_fields write_item_nextOut done_set_cong [OF write_item_fields(2)] by simp
qed

lemma slots_write:
  assumes ok: "job_ok j" and q: "slots j s" and d: "bs_nextOut s < batch_size j"
  shows "slots j (write_item j s)"
proof -
  have fin: "finite (unwritten j s)" by (simp add: unwritten_def)
  have u: "unwritten j (write_item j s) = unwritten j s - {bs_nextOut s}" by (auto simp: unwritten_def write_item_fields)
  have "bs_nextOut s \<in> unwritten j s \<longleftrightarrow> bs_started s ! bs_nextOut s" using d by (simp add: unwritten_def)
  then have c: "card (unwritten j s) = card (unwritten j (write_item j s)) + (if bs_started s ! bs_nextOut s then 1 else 0)"
    using fin card_Suc_Diff1 [OF fin, of "bs_nextOut s"] unfolding u by simp
  show ?thesis using ok q c unfolding slots_def write_item_fields job_ok_def by auto
qed

lemma answers_write:
  assumes p: "places j s" and a: "answers j g s" and d: "bs_nextOut s < batch_size j"
  shows "answers j g (write_item j s)"
proof (cases "bj_streaming j")
  case False
  then have "write_item j s = s\<lparr>bs_nextOut := Suc (bs_nextOut s)\<rparr>" by (simp add: write_item_def Let_def)
  then show ?thesis using a False by (simp add: answers_def done_set_def)
next
  case True
  note aa = a [unfolded answers_def]
  have l: "length (bs_results s) = batch_size j" using p by (simp add: places_def)
  have r: "bs_results s ! bs_nextOut s = g (bs_nextOut s)" using aa d by simp
  have o: "concat (bs_out (write_item j s)) = ''['' @ concat (map (\<lambda>i. stream_chunk j i (g i)) [0..<Suc (bs_nextOut s)])"
    if "\<not> bs_abandoned (write_item j s)"
    using write_item_out [OF True that] aa True r by simp
  have h: "bs_held s - bs_sizes s ! bs_nextOut s = (\<Sum>i = Suc (bs_nextOut s)..<batch_size j. bs_sizes s ! i)"
    using aa True d by (simp add: sum.atLeast_Suc_lessThan)
  have "\<forall>i < batch_size j. (g i \<noteq> None \<longleftrightarrow> i \<in> set (bs_ready s) \<union> done_set s) \<and>
      (bs_results s)[bs_nextOut s := None] ! i = (if i < Suc (bs_nextOut s) then None else g i) \<and> (g i = None \<longrightarrow> bs_sizes s ! i = 0)"
    using aa True l d by (auto simp: nth_list_update less_Suc_eq)
  then show ?thesis using o h True unfolding answers_def write_item_fields write_item_nextOut done_set_cong [OF write_item_fields(2)] by simp
qed

definition all_ready_written :: "batch_job \<Rightarrow> batch_state \<Rightarrow> bool" where
  "all_ready_written j s \<longleftrightarrow> \<not> (bs_nextOut s < batch_size j \<and> bs_done s ! bs_nextOut s)"

lemma write_ready_inv:
  assumes "job_ok j" and "places j s" and "slots j s" and "answers j g s"
  shows "places j (write_ready j s) \<and> slots j (write_ready j s) \<and> answers j g (write_ready j s) \<and> all_ready_written j (write_ready j s)"
  using assms
proof (induction j s rule: write_ready.induct)
  case (1 j s)
  show ?case
  proof (cases "bs_nextOut s < batch_size j \<and> bs_done s ! bs_nextOut s")
    case True
    then have "places j (write_item j s)" "slots j (write_item j s)" "answers j g (write_item j s)"
      using 1(2-) places_write slots_write answers_write by blast+
    then show ?thesis using 1(1) [OF True 1(2)] True by (simp add: write_ready.simps [of j s])
  next
    case False
    have "write_ready j s = s" by (simp only: write_ready.simps [of j s] False if_False)
    then show ?thesis using False 1(2-) by (simp add: all_ready_written_def)
  qed
qed

subsection \<open>Every run\<close>

lemma keep_answers_id:
  assumes "answers j g s" and "places j s"
  shows "keep_answers g s = g"
  using assms by (intro ext) (auto simp: keep_answers_def answers_def places_def)

definition batch_inv :: "batch_job \<Rightarrow> (nat \<Rightarrow> string option) \<Rightarrow> batch_state \<Rightarrow> bool" where
  "batch_inv j g s \<longleftrightarrow> places j s \<and> slots j s \<and> answers j g s \<and> all_ready_written j s"

lemma batch_step_inv:
  assumes ok: "job_ok j" and i: "batch_inv j g s" and st: "batch_step j s ev = Some s'"
  shows "batch_inv j (keep_answers g s') s'"
proof -
  have p: "places j s" and q: "slots j s" and a: "answers j g s" and w: "all_ready_written j s" using i by (simp_all add: batch_inv_def)
  show ?thesis
  proof (cases ev)
    case (Acquire ended free pick)
    then obtain got where ix: "bs_index s < batch_size j" and t: "take_slot j s ended free pick = Some got"
        and s': "s' = (if got then got_slot j s else refuse_rest j s)"
      using st by (auto split: if_splits)
    have "all_ready_written j (got_slot j s)" "all_ready_written j (refuse_rest j s)"
      using w by (simp_all add: all_ready_written_def got_slot_def refuse_rest_def Let_def split: slot_kind.splits)
    then show ?thesis
      using places_got [OF p ix] answers_got [OF p a] places_refuse [OF p ix] slots_refuse [OF p q] answers_refuse [OF p a ix] slots_got [OF p q ix] t
      unfolding batch_inv_def s' by (cases got) simp_all
  next
    case (Finish k sub err)
    then have r: "k \<in> set (bs_running s)" and s': "s' = finish j k sub err s" using st by (simp_all split: if_splits)
    show ?thesis using places_finish [OF p r] slots_finish [OF p q r] answers_finish [OF p a r] w
      unfolding batch_inv_def s' all_ready_written_def finish_fields by blast
  next
    case Receive
    then have r: "bs_ready s \<noteq> []" and s': "s' = write_ready j (mark_received s)" using st by (simp_all add: receive_unfold split: if_splits)
    have m: "batch_inv j g s'"
      using write_ready_inv [OF ok places_mark [OF p r] slots_mark [OF q] answers_mark [OF p a r]] unfolding batch_inv_def s' .
    then show ?thesis using keep_answers_id [of j g s'] by (simp add: batch_inv_def)
  next
    case CtxEnds
    then have s': "s' = s\<lparr>bs_cancelled := True\<rparr>" using st by (simp split: if_splits)
    have f: "bs_started s' = bs_started s" "bs_results s' = bs_results s" "bs_sizes s' = bs_sizes s" "bs_done s' = bs_done s" "bs_index s' = bs_index s"
        "bs_running s' = bs_running s" "bs_ready s' = bs_ready s" "bs_received s' = bs_received s" "bs_nextOut s' = bs_nextOut s" "bs_slot s' = bs_slot s"
        "bs_windowUsed s' = bs_windowUsed s" "bs_localUsed s' = bs_localUsed s" "bs_semUsed s' = bs_semUsed s" "bs_held s' = bs_held s"
        "bs_abandoned s' = bs_abandoned s" "bs_out s' = bs_out s"
      by (simp_all add: s')
    have "batch_inv j g s'" using i
      unfolding batch_inv_def places_def slots_def answers_def all_ready_written_def done_set_def unwritten_def f .
    then show ?thesis using keep_answers_id [of j g s'] by (simp add: batch_inv_def)
  qed
qed

lemma batch_run_inv:
  assumes "job_ok j" and "batch_run j evs g s"
  shows "batch_inv j g s"
  using assms(2)
proof (induction rule: batch_run.induct)
  case batch_begin
  show ?case using places_start slots_start answers_start
    by (auto simp: batch_inv_def all_ready_written_def batch_start_def Let_def)
next
  case (batch_next evs g s ev s')
  then show ?case using batch_step_inv [OF assms(1)] by blast
qed

text \<open>Where an answer comes from.\<close>

lemma batch_answer_source:
  assumes "job_ok j" and "batch_run j evs g s" and "g i = Some a" and "i < batch_size j"
  shows "a = not_started j i \<or> (\<exists>sub err. Finish i sub err \<in> set evs \<and> a = fst (batch_item (bj_gid j) (bj_payloads j ! i) sub err))"
  using assms(2-)
proof (induction rule: batch_run.induct)
  case (batch_next evs g s ev s')
  note inv = batch_run_inv [OF assms(1) batch_next(1)]
  show ?case
  proof (cases "g i")
    case (Some b)
    then show ?thesis using batch_next by (auto simp: keep_answers_def)
  next
    case None
    then have r: "bs_results s' ! i = Some a" using batch_next(4) by (simp add: keep_answers_def split: if_splits)
    have z: "bs_results s ! i = None" "length (bs_results s) = batch_size j" using inv None batch_next(5) by (auto simp: batch_inv_def answers_def places_def)
    show ?thesis
    proof (cases ev)
      case (Acquire ended free pick)
      then have "s' = got_slot j s \<or> s' = refuse_rest j s" "bs_index s < batch_size j" using batch_next(2) by (auto split: if_splits)
      then show ?thesis using r z batch_next(5) by (auto simp: got_slot_def refuse_rest_def Let_def nth_append split: slot_kind.splits if_splits)
    next
      case (Finish k sub err)
      then have "s' = finish j k sub err s" using batch_next(2) by (simp split: if_splits)
      then have u: "((bs_results s)[k := Some (fst (batch_item (bj_gid j) (bj_payloads j ! k) sub err))]) ! i = Some a" using r by (simp add: finish_fields)
      have "k = i" using u z by (cases "k = i") simp_all
      then show ?thesis using u z(2) Finish batch_next(5) by auto
    next
      case Receive
      have "bs_results s' ! i = None"
      proof -
        have rd: "bs_ready s \<noteq> []" and s': "s' = write_ready j (mark_received s)" using Receive batch_next(2) by (simp_all add: receive_unfold split: if_splits)
        have "answers j g s'"
          using write_ready_inv [OF assms(1), of "mark_received s" g] places_mark slots_mark answers_mark inv rd unfolding s' batch_inv_def by blast
        then show ?thesis using None batch_next(5) by (simp add: answers_def)
      qed
      then show ?thesis using r by simp
    next
      case CtxEnds
      then show ?thesis using batch_next(2) r z by (simp split: if_splits) auto
    qed
  qed
qed simp

subsection \<open>Progress\<close>

definition work_left :: "batch_job \<Rightarrow> batch_state \<Rightarrow> nat" where
  "work_left j s = 6 * (batch_size j - bs_index s) + (case bs_slot s of Window \<Rightarrow> 2 | Local \<Rightarrow> 1 | Global \<Rightarrow> 0) +
     2 * length (bs_running s) + length (bs_ready s) + (if bs_cancelled s then 0 else 1)"

lemma write_ready_rest:
  "bs_index (write_ready j s) = bs_index s \<and> bs_slot (write_ready j s) = bs_slot s \<and> bs_running (write_ready j s) = bs_running s \<and>
   bs_ready (write_ready j s) = bs_ready s \<and> (bs_cancelled s \<longrightarrow> bs_cancelled (write_ready j s))"
proof (induction j s rule: write_ready.induct)
  case (1 j s)
  show ?case
  proof (cases "bs_nextOut s < batch_size j \<and> bs_done s ! bs_nextOut s")
    case True
    have "bs_cancelled s \<longrightarrow> bs_cancelled (write_item j s)" by (simp add: write_item_def Let_def)
    then show ?thesis using 1 [OF True] True by (simp add: write_ready.simps [of j s] write_item_fields)
  next
    case False
    have "write_ready j s = s" by (simp only: write_ready.simps [of j s] False if_False)
    then show ?thesis by simp
  qed
qed

lemma batch_step_works:
  assumes "places j s" and "batch_step j s ev = Some s'"
  shows "work_left j s' < work_left j s"
proof (cases ev)
  case (Acquire ended free pick)
  then have "s' = got_slot j s \<or> s' = refuse_rest j s" "bs_index s < batch_size j" using assms(2) by (auto split: if_splits)
  then show ?thesis by (cases "bs_slot s") (auto simp: work_left_def got_slot_def refuse_rest_def Let_def)
next
  case (Finish k sub err)
  then have k: "k \<in> set (bs_running s)" "s' = finish j k sub err s" using assms(2) by (simp_all split: if_splits)
  then have "Suc (length (remove1 k (bs_running s))) = length (bs_running s)" by (simp add: length_remove1) (metis length_pos_if_in_set Suc_pred)
  then show ?thesis using k(2) by (simp add: work_left_def finish_fields)
next
  case Receive
  then have r: "bs_ready s \<noteq> []" "s' = write_ready j (mark_received s)" using assms(2) by (simp_all add: receive_unfold split: if_splits)
  have f: "bs_index s' = bs_index s" "bs_slot s' = bs_slot s" "bs_running s' = bs_running s" "bs_ready s' = tl (bs_ready s)" "bs_cancelled s \<longrightarrow> bs_cancelled s'"
    using write_ready_rest [of j "mark_received s"] unfolding r(2) by (simp_all add: mark_received_def)
  have "0 < length (bs_ready s)" using r(1) by simp
  then show ?thesis using f(5) unfolding work_left_def f(1-4) length_tl by (cases "bs_cancelled s"; cases "bs_cancelled s'") simp_all
next
  case CtxEnds
  then have "s' = s\<lparr>bs_cancelled := True\<rparr>" "\<not> bs_cancelled s" using assms(2) by (simp_all split: if_splits)
  then show ?thesis by (simp add: work_left_def)
qed

lemma batch_run_length:
  assumes "job_ok j" and "batch_run j evs g s"
  shows "length evs + work_left j s \<le> 6 * batch_size j + 3"
  using assms(2)
proof (induction rule: batch_run.induct)
  case batch_begin
  show ?case by (simp add: work_left_def batch_start_def Let_def)
next
  case (batch_next evs g s ev s')
  have "places j s" using batch_run_inv [OF assms(1) batch_next(1)] by (simp add: batch_inv_def)
  then show ?case using batch_step_works [OF _ batch_next(2)] batch_next(3) by fastforce
qed

lemma no_work_pending:
  assumes "job_ok j" and i: "batch_inv j g s" and r: "bs_running s = []" "bs_ready s = []" and lt: "bs_received s < batch_size j"
  shows "\<exists>s'. batch_step j s (Acquire False True True) = Some s'"
proof -
  have p: "places j s" and q: "slots j s" and w: "all_ready_written j s" using i by (simp_all add: batch_inv_def)
  have d: "done_set s = {..<bs_index s}" using p r by (simp add: places_def)
  then have ix: "bs_index s < batch_size j" using p lt by (simp add: places_def)
  have "bs_index s \<le> bs_nextOut s"
  proof (rule ccontr)
    assume "\<not> ?thesis"
    then have "bs_nextOut s \<in> done_set s" using d by simp
    then show False using w p by (simp add: all_ready_written_def done_set_def places_def)
  qed
  then have u: "unwritten j s = {}" using p by (fastforce simp: unwritten_def places_def)
  have "take_slot j s False True True \<noteq> None"
    using q u r assms(1) by (cases "bs_slot s") (auto simp: take_slot_def acquire_def slots_def job_ok_def split: option.splits)
  then show ?thesis using ix by auto
qed

section \<open>Properties\<close>

text \<open>C38. A batch ends. Its goroutines take at most six steps for each payload and three more, whatever order they take them
  in, and they never wait for each other in a circle: as long as an index is missing, a relay is running, or the collector
  has an index to receive, or the dispatcher gets its next slot as soon as the global budget has one. At the end every
  payload has one answer: what its own relay gave, or that it was not started.\<close>

theorem batch_ends:
  assumes "job_ok j" and "batch_run j evs g s"
  shows "length evs \<le> 6 * batch_size j + 3 \<and>
    (bs_received s < batch_size j \<longrightarrow>
       bs_running s \<noteq> [] \<or> (\<exists>s'. batch_step j s Receive = Some s') \<or> (\<exists>s'. batch_step j s (Acquire False True True) = Some s')) \<and>
    (batch_over j s \<longrightarrow> bs_running s = [] \<and> bs_ready s = [] \<and>
       (\<forall>i < batch_size j. \<exists>a. g i = Some a \<and>
          (a = not_started j i \<or> (\<exists>sub err. Finish i sub err \<in> set evs \<and> a = fst (batch_item (bj_gid j) (bj_payloads j ! i) sub err)))))"
proof -
  note inv = batch_run_inv [OF assms]
  have p: "places j s" and a: "answers j g s" using inv by (simp_all add: batch_inv_def)
  have 1: "length evs \<le> 6 * batch_size j + 3" using batch_run_length [OF assms] by simp
  have 2: "bs_running s \<noteq> [] \<or> (\<exists>s'. batch_step j s Receive = Some s') \<or> (\<exists>s'. batch_step j s (Acquire False True True) = Some s')"
    if "bs_received s < batch_size j"
  proof (cases "bs_ready s = []")
    case True
    then show ?thesis using no_work_pending [OF assms(1) inv _ True that] by blast
  qed (use that in simp)
  have 3: "bs_running s = [] \<and> bs_ready s = [] \<and> (\<forall>i < batch_size j. g i \<noteq> None)" if "batch_over j s"
  proof -
    have "length (bs_done s) = batch_size j" using p by (simp add: places_def)
    then have sub: "done_set s \<subseteq> {..<batch_size j}" by (auto simp: done_set_def)
    have "card (done_set s) = card {..<batch_size j}" using that p by (simp add: batch_over_def places_def)
    then have d: "done_set s = {..<batch_size j}" using card_subset_eq [OF _ sub] by simp
    have "set (bs_running s) \<union> set (bs_ready s) \<union> done_set s \<subseteq> {..<batch_size j}" using p by (simp add: places_def)
    then have "set (bs_running s) \<inter> done_set s = set (bs_running s)" "set (bs_ready s) \<inter> done_set s = set (bs_ready s)"
      unfolding d Un_subset_iff by (simp_all add: inf.absorb1)
    moreover have "set (bs_running s) \<inter> done_set s = {}" "set (bs_ready s) \<inter> done_set s = {}" using p by (simp_all add: places_def)
    ultimately have "set (bs_running s) = {}" "set (bs_ready s) = {}" by simp_all
    moreover have "g i \<noteq> None" if "i < batch_size j" for i using a that d by (simp add: answers_def)
    ultimately show ?thesis by simp
  qed
  have 4: "\<exists>a. g i = Some a \<and>
      (a = not_started j i \<or> (\<exists>sub err. Finish i sub err \<in> set evs \<and> a = fst (batch_item (bj_gid j) (bj_payloads j ! i) sub err)))"
    if "batch_over j s" "i < batch_size j" for i
  proof -
    note t = that
    obtain a where a: "g i = Some a" using 3 [OF t(1)] t(2) by blast
    show ?thesis by (rule exI [of _ a], rule conjI [OF a batch_answer_source [OF assms a t(2)]])
  qed
  show ?thesis by (intro conjI impI allI) (rule 1, erule 2, use 3 in blast, use 3 in blast, erule (1) 4)
qed

text \<open>The merge as a list of pieces.\<close>

lemma merge_items_chunks:
  assumes "\<forall>i < length rs. appendItem (rs ! i) \<noteq> None"
  shows "merge_items k rs = Some (concat (map (\<lambda>i. (if k + i > 0 then '','' else []) @ the (appendItem (rs ! i))) [0..<length rs]))"
  using assms
proof (induction rs arbitrary: k)
  case Nil
  then show ?case by simp
next
  case (Cons r rs)
  have 0: "appendItem r \<noteq> None" using Cons.prems by (metis length_greater_0_conv list.distinct(1) nth_Cons_0)
  have "\<forall>i < length rs. appendItem (rs ! i) \<noteq> None" using Cons.prems by (metis Suc_less_eq length_Cons nth_Cons_Suc)
  then have ih: "merge_items (Suc k) rs = Some (concat (map (\<lambda>i. (if Suc k + i > 0 then '','' else []) @ the (appendItem (rs ! i))) [0..<length rs]))"
    by (rule Cons.IH)
  have "[0..<length (r # rs)] = 0 # map Suc [0..<length rs]" by (simp add: map_Suc_upt upt_conv_Cons del: upt_Suc)
  then have "concat (map (\<lambda>i. (if k + i > 0 then '','' else []) @ the (appendItem ((r # rs) ! i))) [0..<length (r # rs)]) =
      (if k > 0 then '','' else []) @ the (appendItem r) @ concat (map (\<lambda>i. '','' @ the (appendItem (rs ! i))) [0..<length rs])"
    by (simp add: comp_def)
  then show ?case using 0 ih by (auto simp: option.case_eq_if)
qed

lemma over_nextOut:
  assumes "batch_inv j g s" and "batch_over j s"
  shows "bs_nextOut s = batch_size j"
proof (rule ccontr)
  have p: "places j s" and w: "all_ready_written j s" using assms(1) by (simp_all add: batch_inv_def)
  have len: "length (bs_done s) = batch_size j" and no: "bs_nextOut s \<le> batch_size j" using p by (simp_all add: places_def)
  have "card (done_set s) = card {..<batch_size j}" using assms(2) p by (simp add: batch_over_def places_def)
  moreover have "done_set s \<subseteq> {..<batch_size j}" using len by (auto simp: done_set_def)
  ultimately have d: "done_set s = {..<batch_size j}" by (intro card_subset_eq) simp_all
  assume "bs_nextOut s \<noteq> batch_size j"
  then have "bs_nextOut s \<in> done_set s" using no unfolding d by simp
  then show False using w len by (simp add: all_ready_written_def done_set_def)
qed

text \<open>C39. A batch written piece by piece is the batch merged at the end, byte for byte: when every answer is JSON and the client
  did not go away, the body of either is the merge of the answers in the order of the payloads, whatever the order the
  relays ended in.\<close>

theorem stream_equals_merge:
  assumes ok: "job_ok j" and run: "batch_run j evs g s" and over: "batch_over j s" and stays: "bj_streaming j \<longrightarrow> \<not> bs_abandoned s"
    and json: "\<forall>i < batch_size j. \<forall>a. g i = Some a \<longrightarrow> json_Valid a"
  shows "mergeBatch (map g [0..<batch_size j]) = Some (batch_body j s)"
proof -
  note inv = batch_run_inv [OF ok run]
  have a: "answers j g s" and l: "length (bs_results s) = batch_size j" using inv by (simp_all add: batch_inv_def places_def)
  have no: "bs_nextOut s = batch_size j" by (rule over_nextOut [OF inv over])
  have item: "\<forall>i < length (map g [0..<batch_size j]). appendItem (map g [0..<batch_size j] ! i) \<noteq> None"
    using json by (auto simp: appendItem_def json_Valid_def split: option.splits)
  have chunk: "stream_chunk j i (g i) = (if 0 + i > 0 then '','' else []) @ the (appendItem (map g [0..<batch_size j] ! i))" if "i < batch_size j" for i
    using item that by (auto simp: stream_chunk_def split: option.splits)
  have m: "mergeBatch (map g [0..<batch_size j]) = Some (''['' @ concat (map (\<lambda>i. stream_chunk j i (g i)) [0..<batch_size j]) @ '']'')"
  proof -
    have "map (\<lambda>i. (if 0 + i > 0 then '','' else []) @ the (appendItem (map g [0..<batch_size j] ! i))) [0..<length (map g [0..<batch_size j])] =
        map (\<lambda>i. stream_chunk j i (g i)) [0..<batch_size j]"
      using chunk by (intro map_cong) (simp_all del: add_0)
    then show ?thesis unfolding mergeBatch_def merge_items_chunks [OF item] by (simp only: option.map append.simps)
  qed
  show ?thesis
  proof (cases "bj_streaming j")
    case True
    then have "concat (bs_out s) = ''['' @ concat (map (\<lambda>i. stream_chunk j i (g i)) [0..<batch_size j])"
      using a stays no by (simp add: answers_def)
    then show ?thesis using m True stays by (simp add: batch_body_def)
  next
    case False
    have "bs_results s = map g [0..<batch_size j]" using a l False by (intro nth_equalityI) (simp_all add: answers_def)
    then show ?thesis using m False by (simp add: batch_body_def)
  qed
qed

text \<open>C40. What a batch holds is bounded by its limits: at most \<^verbatim>\<open>max_batch_concurrency\<close> of its relays run, and when it is written
  piece by piece at most \<^verbatim>\<open>max_batch_concurrency + max_batch_window\<close> items are started and not written. The bytes counted
  as held are those of the answers not yet written, so that none are counted at the end of a batch that was.\<close>

theorem batch_holds_bounded:
  assumes adm: "admit lm rejectText gid streaming ctxErr opens writes gone c = FanOut j" and run: "batch_run j evs g s" and mx: "0 < maxPerBatch lm"
  shows "int (length (bs_running s)) \<le> maxPerBatch lm \<and>
    (streaming \<and> 0 \<le> maxWindow lm \<longrightarrow>
       int (card {i. bs_nextOut s \<le> i \<and> i < batch_size j \<and> bs_started s ! i}) \<le> maxPerBatch lm + maxWindow lm) \<and>
    (streaming \<longrightarrow> bs_held s = (\<Sum>i = bs_nextOut s..<batch_size j. bs_sizes s ! i) \<and> (batch_over j s \<longrightarrow> bs_held s = 0))"
proof -
  note ok = admit_job_ok [OF adm]
  note inv = batch_run_inv [OF ok run]
  have p: "places j s" and q: "slots j s" and a: "answers j g s" using inv by (simp_all add: batch_inv_def)
  have f: "bj_streaming j = streaming" "bj_window j = window_of streaming (maxPerBatch lm) (maxWindow lm)" "bj_local j = local_of (maxPerBatch lm) (batch_size j)"
    using adm by (auto simp: admit_def Let_def batch_size_def split: if_splits)
  have all: "length (bs_running s) \<le> batch_size j"
  proof -
    have "set (bs_running s) \<subseteq> {..<batch_size j}" using running_item(2) [OF p] by auto
    then have "card (set (bs_running s)) \<le> batch_size j" using card_mono [of "{..<batch_size j}"] by simp
    then show ?thesis using p distinct_card [of "bs_running s"] by (simp add: places_def)
  qed
  have 1: "int (length (bs_running s)) \<le> maxPerBatch lm"
  proof (cases "int (batch_size j) > maxPerBatch lm")
    case True
    then have "bj_local j = Some (nat (maxPerBatch lm))" using f(3) mx by (simp add: local_of_def)
    then show ?thesis using q mx by (auto simp: slots_def split: if_splits)
  qed (use all in simp)
  have 2: "int (card {i. bs_nextOut s \<le> i \<and> i < batch_size j \<and> bs_started s ! i}) \<le> maxPerBatch lm + maxWindow lm" if "streaming" "0 \<le> maxWindow lm"
  proof -
    have "bj_window j = Some (nat (maxPerBatch lm + maxWindow lm))" using f(2) that mx by (simp add: window_of_def)
    then show ?thesis using q mx that unfolding slots_def unwritten_def [symmetric] by (auto split: if_splits)
  qed
  have 3: "bs_held s = (\<Sum>i = bs_nextOut s..<batch_size j. bs_sizes s ! i)" if "streaming" using a f(1) that by (simp add: answers_def)
  have 4: "bs_held s = 0" if "streaming" "batch_over j s" using 3 [OF that(1)] over_nextOut [OF inv that(2)] by simp
  show ?thesis using 1 2 3 4 by blast
qed

text \<open>A body that is not JSON costs a merged batch every answer, and a batch written piece by piece that one.\<close>

lemma one_bad_body_spoils_merge:
  assumes "\<not> bj_streaming j" and "Some a \<in> set (bs_results s)" and "\<not> json_Valid a"
  shows "batch_body j s = json_object [(''error'', json_string ''failed to combine batch responses'')]"
proof -
  have "merge_items k rs = None" if "Some a \<in> set rs" for k rs
    using that assms(3)
  proof (induction rs arbitrary: k)
    case (Cons r rs)
    then show ?case by (cases "r = Some a") (auto simp: appendItem_def json_Valid_def split: option.splits)
  qed simp
  then show ?thesis using assms(1,2) by (simp add: batch_body_def mergeBatch_def)
qed

section \<open>Witnesses\<close>

fun batch_exec :: "batch_job \<Rightarrow> batch_event list \<Rightarrow> batch_state \<Rightarrow> batch_state option" where
  "batch_exec j [] s = Some s"
| "batch_exec j (ev # evs) s = (case batch_step j s ev of None \<Rightarrow> None | Some s' \<Rightarrow> batch_exec j evs s')"

lemma batch_exec_run:
  assumes "batch_run j evs g s" and "batch_exec j new s = Some s'"
  shows "\<exists>g'. batch_run j (evs @ new) g' s'"
  using assms
proof (induction new arbitrary: evs g s)
  case (Cons ev new)
  then obtain s1 where "batch_step j s ev = Some s1" "batch_exec j new s1 = Some s'" by (auto split: option.splits)
  then show ?case using Cons.IH [OF batch_next [OF Cons.prems(1)]] by fastforce
qed auto

text \<open>Two payloads under a ceiling of one and no further window: the second starts once the first is written.\<close>

definition demo_payload :: "string \<Rightarrow> Payload" where "demo_payload b = NewPayload b ''json_rpc'' ''m''"

definition demo_batch :: Context where
  "demo_batch = (NewContext None)\<lparr>cx_Payloads := [demo_payload ''1'', demo_payload ''2'']\<rparr>"

definition demo_limits :: batch_limits where
  "demo_limits = \<lparr>maxConcurrentRelays = 0, maxPayloads = 0, maxPerBatch = 1, maxWindow = 0\<rparr>"

definition demo_job :: batch_job where
  "demo_job = \<lparr>bj_payloads = [demo_payload ''1'', demo_payload ''2''], bj_gid = (\<lambda>_. None), bj_streaming = True, bj_window = Some 1, bj_local = Some 1,
     bj_global = False, bj_ctxErr = [], bj_opens = True, bj_writes = (\<lambda>_. True), bj_gone = (\<lambda>_. False)\<rparr>"

lemma demo_job_admitted: "admit demo_limits None (\<lambda>_. None) True [] True (\<lambda>_. True) (\<lambda>_. False) demo_batch = FanOut demo_job"
  by (simp add: admit_def demo_limits_def demo_batch_def demo_job_def window_of_def local_of_def NewContext_def)

definition demo_answer :: "string \<Rightarrow> Context" where
  "demo_answer b = (NewContext None)\<lparr>cx_Response := Some \<lparr>Body = b, HTTPStatusCode = 200, rs_EndpointAddr = ''n''\<rparr>\<rparr>"

definition demo_events :: "batch_event list" where
  "demo_events = [Acquire False False False, Acquire False False False, Acquire False False False, Finish 0 (demo_answer ''7'') None, Receive,
     Acquire False False False, Acquire False False False, Acquire False False False, Finish 1 (demo_answer '' 8'') None, Receive]"

lemma demo_events_end:
  "map_option (\<lambda>s. (bs_received s, bs_abandoned s, bs_results s, batch_body demo_job s)) (batch_exec demo_job demo_events (batch_start demo_job)) =
     Some (2, False, [None, None], ''[7,8]'')"
  unfolding demo_job_def demo_events_def demo_answer_def demo_payload_def by code_simp

lemma demo_batch_run:
  obtains g s where "batch_run demo_job demo_events g s" "batch_over demo_job s" "\<not> bs_abandoned s" "batch_body demo_job s = ''[7,8]''"
proof -
  obtain s where s: "batch_exec demo_job demo_events (batch_start demo_job) = Some s" "bs_received s = 2" "\<not> bs_abandoned s" "batch_body demo_job s = ''[7,8]''"
    using demo_events_end by auto
  obtain g where "batch_run demo_job ([] @ demo_events) g s" using batch_exec_run [OF batch_begin s(1)] by blast
  then show ?thesis using that s by (simp add: batch_over_def batch_size_def demo_job_def)
qed

lemma demo_job_ok: "job_ok demo_job" by (simp add: job_ok_def demo_job_def)

lemma demo_size: "batch_size demo_job = 2" by (simp add: batch_size_def demo_job_def)

lemma demo_json:
  assumes "batch_run demo_job demo_events g s"
  shows "\<forall>i < batch_size demo_job. \<forall>a. g i = Some a \<longrightarrow> json_Valid a"
proof (intro allI impI)
  fix i a
  assume i: "i < batch_size demo_job" and a: "g i = Some a"
  have 1: "json_Valid (not_started demo_job 0)" "json_Valid (not_started demo_job 1)"
    unfolding demo_job_def demo_payload_def by code_simp+
  have 2: "json_Valid (fst (batch_item (bj_gid demo_job) (bj_payloads demo_job ! 0) (demo_answer ''7'') None))"
      "json_Valid (fst (batch_item (bj_gid demo_job) (bj_payloads demo_job ! 1) (demo_answer '' 8'') None))"
    unfolding demo_job_def demo_payload_def demo_answer_def by code_simp+
  have "i = 0 \<or> i = 1" using i demo_size by auto
  then show "json_Valid a"
    using batch_answer_source [OF demo_job_ok assms a i] 1 2 unfolding demo_events_def by auto
qed

theorem batch_ends_witness:
  "\<exists>g s. batch_run demo_job demo_events g s \<and> batch_over demo_job s \<and> length demo_events \<le> 15 \<and> bs_running s = [] \<and> g 1 \<noteq> None"
proof -
  obtain g s where r: "batch_run demo_job demo_events g s" "batch_over demo_job s" by (rule demo_batch_run)
  note b = batch_ends [OF demo_job_ok r(1)]
  have "length demo_events \<le> 15" using b [THEN conjunct1] demo_size by simp
  moreover have "bs_running s = []" using b r(2) by blast
  moreover have "1 < batch_size demo_job \<longrightarrow> g 1 \<noteq> None" using b r(2) by blast
  ultimately show ?thesis using r demo_size by (intro exI [of _ g] exI [of _ s]) simp
qed

theorem stream_equals_merge_witness:
  "\<exists>g s. batch_run demo_job demo_events g s \<and> mergeBatch [g 0, g 1] = Some (batch_body demo_job s) \<and> batch_body demo_job s = ''[7,8]''"
proof -
  obtain g s where r: "batch_run demo_job demo_events g s" "batch_over demo_job s" "\<not> bs_abandoned s" "batch_body demo_job s = ''[7,8]''" by (rule demo_batch_run)
  have "map g [0..<batch_size demo_job] = [g 0, g 1]" by (simp add: demo_size upt_rec)
  then show ?thesis
    using stream_equals_merge [OF demo_job_ok r(1,2) _ demo_json [OF r(1)]] r by (intro exI [of _ g] exI [of _ s]) simp
qed

theorem batch_holds_bounded_witness:
  "\<exists>g s. batch_run demo_job demo_events g s \<and> int (length (bs_running s)) \<le> maxPerBatch demo_limits \<and> bs_held s = 0"
proof -
  obtain g s where r: "batch_run demo_job demo_events g s" "batch_over demo_job s" by (rule demo_batch_run)
  have "0 < maxPerBatch demo_limits" by (simp add: demo_limits_def)
  then show ?thesis using batch_holds_bounded [OF demo_job_admitted r(1)] r by blast
qed

end
