(* ===== verification/Spec2Isabelle.thy ===== *)
theory Spec2Isabelle
  imports Circuit_Breaker Method_Block Drain_Redis Height_Select Rep_Writes Auto_Drain Relay_Select Relay_Quorum Response_Cache Relay_Batch
begin

text \<open>
  A verification library for SAGE, a gateway that relays JSON-RPC, REST, CometBFT and
  WebSocket requests to suppliers of the Pocket Network.
\<close>

end
